(* ===== verification/Prelude.thy ===== *)
theory Prelude
  imports Main "HOL-Library.Word"
begin

text \<open>
  Shared vocabulary of the development: machine words, the outcome monad in which the kernel
  code is written, its weakest-precondition calculus, little-endian access to byte arrays, and
  the lemmas on lists and words that the component theories share.

  A kernel function is a function from the machine state to an outcome. It returns
  (\<open>Ret\<close>), it calls \<open>panic\<close> (\<open>Panic\<close>), it waits for another thread
  (\<open>Wait\<close>: it spins on a lock or sleeps on a channel), or it makes an access that C leaves
  undefined (\<open>Fault\<close>). Loops that the C code repeats after a wake-up start again from the top
  of the loop, so a function that ended in \<open>Wait\<close> is resumed by calling it again.
\<close>

unbundle bit_operations_syntax

type_synonym u8 = "8 word"
type_synonym u16 = "16 word"
type_synonym u32 = "32 word"

named_theorems wp_simps \<open>equations of the weakest-precondition calculus\<close>
named_theorems le_simps \<open>little-endian loads and stores\<close>

section \<open>Outcomes and the kernel monad\<close>

datatype ('w, 's, 'a) res = Ret 'a 's | Panic string | Wait 'w 's | Fault string

type_synonym ('w, 's, 'a) km = "'s \<Rightarrow> ('w, 's, 'a) res"

definition ret :: "'a \<Rightarrow> ('w, 's, 'a) km" where
  "ret x = (\<lambda>s. Ret x s)"

definition bind :: "('w, 's, 'a) km \<Rightarrow> ('a \<Rightarrow> ('w, 's, 'b) km) \<Rightarrow> ('w, 's, 'b) km" where
  "bind m f = (\<lambda>s. case m s of Ret x s' \<Rightarrow> f x s' | Panic e \<Rightarrow> Panic e | Wait w s' \<Rightarrow> Wait w s'
                      | Fault e \<Rightarrow> Fault e)"

abbreviation andthen :: "('w, 's, 'a) km \<Rightarrow> ('w, 's, 'b) km \<Rightarrow> ('w, 's, 'b) km" where
  "andthen m n \<equiv> bind m (\<lambda>_. n)"

definition gets :: "('s \<Rightarrow> 'a) \<Rightarrow> ('w, 's, 'a) km" where
  "gets f = (\<lambda>s. Ret (f s) s)"

definition modify :: "('s \<Rightarrow> 's) \<Rightarrow> ('w, 's, unit) km" where
  "modify f = (\<lambda>s. Ret () (f s))"

definition panic :: "string \<Rightarrow> ('w, 's, 'a) km" where
  "panic e = (\<lambda>s. Panic e)"

definition fault :: "string \<Rightarrow> ('w, 's, 'a) km" where
  "fault e = (\<lambda>s. Fault e)"

definition wait_on :: "'w \<Rightarrow> ('w, 's, 'a) km" where
  "wait_on w = (\<lambda>s. Wait w s)"

definition whenM :: "bool \<Rightarrow> ('w, 's, unit) km \<Rightarrow> ('w, 's, unit) km" where
  "whenM b m = (if b then m else ret ())"

lemma bind_ret [simp]: "bind (ret x) f = f x"
  by (simp add: bind_def ret_def)

lemma ret_bind [simp]: "bind m ret = m"
  by (rule ext) (simp add: bind_def ret_def split: res.splits)

lemma bind_assoc: "bind (bind m f) g = bind m (\<lambda>x. bind (f x) g)"
  by (rule ext) (simp add: bind_def split: res.splits)

lemma bind_panic [simp]: "bind (panic e) f = panic e"
  by (simp add: bind_def panic_def)

lemma bind_RetI: "m s = Ret x s' \<Longrightarrow> bind m f s = f x s'"
  by (simp add: bind_def)

lemma bind_Ret_iff: "bind m f s = Ret y t \<longleftrightarrow> (\<exists>x s'. m s = Ret x s' \<and> f x s' = Ret y t)"
  by (auto simp: bind_def split: res.splits)

section \<open>Weakest preconditions\<close>

text \<open>
  \<open>wp m Q s\<close>: from state \<open>s\<close> the code \<open>m\<close> returns, and its result and final state satisfy
  \<open>Q\<close>. It is total: a panic, a wait or a fault does not satisfy it.
\<close>

definition wp :: "('w, 's, 'a) km \<Rightarrow> ('a \<Rightarrow> 's \<Rightarrow> bool) \<Rightarrow> 's \<Rightarrow> bool" where
  "wp m Q s = (case m s of Ret x s' \<Rightarrow> Q x s' | Panic e \<Rightarrow> False | Wait w s' \<Rightarrow> False | Fault e \<Rightarrow> False)"

lemma wp_iff: "wp m Q s \<longleftrightarrow> (\<exists>x s'. m s = Ret x s' \<and> Q x s')"
  by (simp add: wp_def split: res.splits)

lemma wpE:
  assumes "wp m Q s" obtains x s' where "m s = Ret x s'" and "Q x s'"
  using assms by (auto simp: wp_iff)

lemma wp_RetI: "m s = Ret x s' \<Longrightarrow> Q x s' \<Longrightarrow> wp m Q s"
  by (simp add: wp_iff)

lemma wp_mono: "wp m P s \<Longrightarrow> (\<And>x s'. P x s' \<Longrightarrow> Q x s') \<Longrightarrow> wp m Q s"
  by (auto simp: wp_iff)

lemma wp_conj: "wp m P s \<Longrightarrow> wp m Q s \<Longrightarrow> wp m (\<lambda>x s'. P x s' \<and> Q x s') s"
  by (auto simp: wp_iff)

lemma wp_bind [wp_simps]: "wp (bind m f) Q s = wp m (\<lambda>x s'. wp (f x) Q s') s"
  by (simp add: wp_def bind_def split: res.splits)

lemma wp_bind_fun: "wp (bind m f) Q = wp m (\<lambda>x. wp (f x) Q)"
  by (rule ext) (simp add: wp_bind)

lemma wp_ret [wp_simps]: "wp (ret x) Q s = Q x s"
  by (simp add: wp_def ret_def)

lemma wp_gets [wp_simps]: "wp (gets f) Q s = Q (f s) s"
  by (simp add: wp_def gets_def)

lemma wp_modify [wp_simps]: "wp (modify f) Q s = Q () (f s)"
  by (simp add: wp_def modify_def)

lemma wp_panic [wp_simps]: "wp (panic e) Q s = False"
  by (simp add: wp_def panic_def)

lemma wp_fault [wp_simps]: "wp (fault e) Q s = False"
  by (simp add: wp_def fault_def)

lemma wp_wait [wp_simps]: "wp (wait_on w) Q s = False"
  by (simp add: wp_def wait_on_def)

lemma wp_if [wp_simps]: "wp (if b then m else n) Q s = (if b then wp m Q s else wp n Q s)"
  by simp

lemma wp_whenM [wp_simps]: "wp (whenM b m) Q s = (if b then wp m Q s else Q () s)"
  by (simp add: whenM_def wp_ret)

lemma wp_option [wp_simps]:
  "wp (case x of None \<Rightarrow> m | Some y \<Rightarrow> f y) Q s = (case x of None \<Rightarrow> wp m Q s | Some y \<Rightarrow> wp (f y) Q s)"
  by (simp split: option.splits)

lemma wp_prod [wp_simps]:
  "wp (case p of (a, b) \<Rightarrow> f a b) Q s = (case p of (a, b) \<Rightarrow> wp (f a b) Q s)"
  by (simp split: prod.splits)

section \<open>Loops over an index list\<close>

text \<open>
  \<open>forM is f\<close> is a C \<open>for\<close> loop whose body runs for every index of \<open>is\<close> in order and
  never leaves the loop; in \<open>findM is f\<close> the body may leave it with a value.
\<close>

fun forM :: "'i list \<Rightarrow> ('i \<Rightarrow> ('w, 's, unit) km) \<Rightarrow> ('w, 's, unit) km" where
  "forM [] f = ret ()"
| "forM (i # is) f = bind (f i) (\<lambda>_. forM is f)"

fun findM :: "'i list \<Rightarrow> ('i \<Rightarrow> ('w, 's, 'a option) km) \<Rightarrow> ('w, 's, 'a option) km" where
  "findM [] f = ret None"
| "findM (i # is) f = bind (f i) (\<lambda>r. case r of Some x \<Rightarrow> ret (Some x) | None \<Rightarrow> findM is f)"

lemma forM_append: "forM (xs @ ys) f = bind (forM xs f) (\<lambda>_. forM ys f)"
  by (induction xs) (simp_all add: bind_assoc)

text \<open>The loop rule: an invariant indexed by the part of the list already done.\<close>

lemma wp_forM:
  assumes "I [] s"
    and "\<And>pre i todo s. is = pre @ i # todo \<Longrightarrow> I pre s \<Longrightarrow> wp (f i) (\<lambda>_ s'. I (pre @ [i]) s') s"
    and "\<And>s. I is s \<Longrightarrow> Q () s"
  shows "wp (forM is f) Q s"
proof -
  have "is = pre @ todo \<Longrightarrow> I pre s \<Longrightarrow> wp (forM todo f) Q s" for pre todo s
  proof (induction todo arbitrary: pre s)
    case Nil
    then show ?case using assms(3) by (simp add: wp_simps)
  next
    case (Cons i todo)
    have "wp (f i) (\<lambda>_ s'. I (pre @ [i]) s') s"
      using assms(2) Cons.prems by blast
    then have "wp (f i) (\<lambda>_ s'. wp (forM todo f) Q s') s"
      by (rule wp_mono) (use Cons in simp)
    then show ?case by (simp add: wp_simps)
  qed
  from this [of "[]" "is" s] assms(1) show ?thesis by simp
qed

lemma wp_for_upt:
  assumes "I 0 s" and "\<And>t s. t < n \<Longrightarrow> I t s \<Longrightarrow> wp (f t) (\<lambda>_. I (Suc t)) s" and "\<And>s. I n s \<Longrightarrow> Q () s"
  shows "wp (forM [0..<n] f) Q s"
proof (rule wp_forM [where I = "\<lambda>pre. I (length pre)"])
  fix pre i todo s
  assume e: "[0..<n] = pre @ i # todo" and "I (length pre) s"
  have n: "n = length pre + Suc (length todo)"
    using arg_cong [OF e, of length] by simp
  have "[0..<n] ! length pre = i" unfolding e by simp
  then have "length pre < n" "i = length pre" using n by (simp_all del: upt_Suc)
  with \<open>I (length pre) s\<close> assms(2) show "wp (f i) (\<lambda>_. I (length (pre @ [i]))) s" by simp
qed (use assms in simp_all)

section \<open>Little-endian access to byte arrays\<close>

text \<open>
  The source reads structures out of raw blocks through pointer casts. The machine is an x86, so
  a 16- or 32-bit field at byte offset \<open>i\<close> is the little-endian reading of the bytes from
  \<open>i\<close> on.
\<close>

definition le16 :: "u16 \<Rightarrow> u8 list" where
  "le16 v = [ucast v, ucast (drop_bit 8 v)]"

definition le32 :: "u32 \<Rightarrow> u8 list" where
  "le32 v = [ucast v, ucast (drop_bit 8 v), ucast (drop_bit 16 v), ucast (drop_bit 24 v)]"

definition rd16 :: "u8 list \<Rightarrow> nat \<Rightarrow> u16" where
  "rd16 xs i = ucast (xs ! i) OR push_bit 8 (ucast (xs ! (i + 1)))"

definition rd32 :: "u8 list \<Rightarrow> nat \<Rightarrow> u32" where
  "rd32 xs i = ucast (xs ! i) OR push_bit 8 (ucast (xs ! (i + 1))) OR
     push_bit 16 (ucast (xs ! (i + 2))) OR push_bit 24 (ucast (xs ! (i + 3)))"

text \<open>\<open>splice xs i ys\<close> is \<open>memmove(xs + i, ys, length ys)\<close> on an array that has the room.\<close>

definition splice :: "'a list \<Rightarrow> nat \<Rightarrow> 'a list \<Rightarrow> 'a list" where
  "splice xs i ys = take i xs @ ys @ drop (i + length ys) xs"

definition wr16 :: "u8 list \<Rightarrow> nat \<Rightarrow> u16 \<Rightarrow> u8 list" where
  "wr16 xs i v = splice xs i (le16 v)"

definition wr32 :: "u8 list \<Rightarrow> nat \<Rightarrow> u32 \<Rightarrow> u8 list" where
  "wr32 xs i v = splice xs i (le32 v)"

lemma length_le16 [simp]: "length (le16 v) = 2"
  by (simp add: le16_def)

lemma length_le32 [simp]: "length (le32 v) = 4"
  by (simp add: le32_def)

lemma length_splice [simp]: "i + length ys \<le> length xs \<Longrightarrow> length (splice xs i ys) = length xs"
  by (simp add: splice_def)

lemma length_wr16 [simp]: "i + 2 \<le> length xs \<Longrightarrow> length (wr16 xs i v) = length xs"
  by (simp add: wr16_def)

lemma length_wr32 [simp]: "i + 4 \<le> length xs \<Longrightarrow> length (wr32 xs i v) = length xs"
  by (simp add: wr32_def)

lemma nth_splice:
  "i + length ys \<le> length xs \<Longrightarrow> j < length xs \<Longrightarrow>
   splice xs i ys ! j = (if i \<le> j \<and> j < i + length ys then ys ! (j - i) else xs ! j)"
  by (auto simp: splice_def nth_append min_def)

lemma take_drop_splice:
  assumes "i + length ys \<le> length xs"
  shows "take (length ys) (drop i (splice xs i ys)) = ys"
  using assms by (simp add: splice_def)

lemma splice_Nil [simp]: "splice xs i [] = xs"
  by (simp add: splice_def)

lemma splice_splice_adj:
  assumes "i + length ys + length zs \<le> length xs"
  shows "splice (splice xs i ys) (i + length ys) zs = splice xs i (ys @ zs)"
proof -
  have "length xs \<le> i \<Longrightarrow> ys = []"
    using assms by (simp flip: length_0_conv)
  then show ?thesis
    using assms by (auto simp: splice_def min_def add.commute add.left_commute)
qed

lemma rd16_le16: "rd16 (le16 v) 0 = v"
  by (rule bit_word_eqI)
     (auto simp: rd16_def le16_def bit_simps not_less)

lemma rd32_le32: "rd32 (le32 v) 0 = v"
proof (rule bit_word_eqI)
  fix n :: nat
  assume n: "n < LENGTH(32)"
  consider "n < 8" | "8 \<le> n" "n < 16" | "16 \<le> n" "n < 24" | "24 \<le> n"
    by linarith
  then show "bit (rd32 (le32 v) 0) n = bit v n"
    by cases (use n in \<open>simp_all add: rd32_def le32_def bit_simps less_diff_conv2\<close>)
qed

lemma rd16_cong: "xs ! i = ys ! j \<Longrightarrow> xs ! (i + 1) = ys ! (j + 1) \<Longrightarrow> rd16 xs i = rd16 ys j"
  by (simp add: rd16_def)

lemma rd32_cong:
  assumes "\<And>k. k < 4 \<Longrightarrow> xs ! (i + k) = ys ! (j + k)"
  shows "rd32 xs i = rd32 ys j"
  using assms [of 0] assms [of 1] assms [of 2] assms [of 3] by (simp add: rd32_def)

lemma rd16_wr16 [le_simps]: "i + 2 \<le> length xs \<Longrightarrow> rd16 (wr16 xs i v) i = v"
  by (rule trans [OF rd16_cong [where j = 0 and ys = "le16 v"] rd16_le16])
     (simp_all add: wr16_def nth_splice)

lemma rd32_wr32 [le_simps]: "i + 4 \<le> length xs \<Longrightarrow> rd32 (wr32 xs i v) i = v"
  by (rule trans [OF rd32_cong [where j = 0 and ys = "le32 v"] rd32_le32])
     (simp_all add: wr32_def nth_splice)

lemma rd32_splice_other:
  "i + length ys \<le> length xs \<Longrightarrow> j + 4 \<le> length xs \<Longrightarrow> j + 4 \<le> i \<or> i + length ys \<le> j \<Longrightarrow>
   rd32 (splice xs i ys) j = rd32 xs j"
  by (rule rd32_cong) (auto simp: nth_splice)

lemma rd16_splice_other:
  "i + length ys \<le> length xs \<Longrightarrow> j + 2 \<le> length xs \<Longrightarrow> j + 2 \<le> i \<or> i + length ys \<le> j \<Longrightarrow>
   rd16 (splice xs i ys) j = rd16 xs j"
  by (rule rd16_cong) (auto simp: nth_splice)

lemma rd32_wr32_other [le_simps]:
  "i + 4 \<le> length xs \<Longrightarrow> j + 4 \<le> length xs \<Longrightarrow> j + 4 \<le> i \<or> i + 4 \<le> j \<Longrightarrow>
   rd32 (wr32 xs i v) j = rd32 xs j"
  by (simp add: wr32_def rd32_splice_other)

lemma rd16_wr16_other [le_simps]:
  "i + 2 \<le> length xs \<Longrightarrow> j + 2 \<le> length xs \<Longrightarrow> j + 2 \<le> i \<or> i + 2 \<le> j \<Longrightarrow>
   rd16 (wr16 xs i v) j = rd16 xs j"
  by (simp add: wr16_def rd16_splice_other)

lemma rd32_wr16_other [le_simps]:
  "i + 2 \<le> length xs \<Longrightarrow> j + 4 \<le> length xs \<Longrightarrow> j + 4 \<le> i \<or> i + 2 \<le> j \<Longrightarrow>
   rd32 (wr16 xs i v) j = rd32 xs j"
  by (simp add: wr16_def rd32_splice_other)

lemma rd16_wr32_other [le_simps]:
  "i + 4 \<le> length xs \<Longrightarrow> j + 2 \<le> length xs \<Longrightarrow> j + 2 \<le> i \<or> i + 4 \<le> j \<Longrightarrow>
   rd16 (wr32 xs i v) j = rd16 xs j"
  by (simp add: wr32_def rd16_splice_other)

lemma sint_small: "unat w < 2 ^ 31 \<Longrightarrow> sint w = int (unat w)" for w :: u32
proof -
  assume a: "unat w < 2 ^ 31"
  have u: "uint w = int (unat w)" by simp
  have b: "0 \<le> int (unat w)" "int (unat w) < 2 ^ 31"
    using of_nat_less_iff [of "unat w" "2 ^ 31", where ?'a = int] a by (simp_all only: of_nat_power of_nat_numeral)
  have "sint w = signed_take_bit 31 (uint w)" by (simp add: sint_uint)
  also have "\<dots> = uint w" by (rule signed_take_bit_int_eq_self) (use b u in linarith)+
  finally show ?thesis by simp
qed

section \<open>Lists\<close>

lemma map_update_same: "f y = f (xs ! i) \<Longrightarrow> map f (xs[i := y]) = map f xs"
  by (cases "i < length xs") (simp_all add: map_update list_update_same_conv list_update_beyond)

end
