(* ===== verification/Spinlock.thy ===== *)
theory Spinlock
  imports Prelude
begin

text \<open>
  The state every part of the kernel shares (processors, process table, locks) and the functions
  of \<^verbatim>\<open>spinlock.c\<close>, with \<open>mycpu\<close>, \<open>cpuid\<close> and \<open>myproc\<close> of \<^verbatim>\<open>proc.c\<close>, which they call.
  Pointers to locks are names (\<open>lockid\<close>): a lock has an identity and a place in the state, and
  two pointers are the same lock exactly when the names are equal. The fields that only help
  debugging (\<open>name\<close>, \<open>pcs\<close>) are left out.

  The lemmas show what \<open>acquire\<close> and \<open>release\<close> do on a free and on a held lock; the last
  section runs the critical-section protocol on any number of processors, interleaved, and proves
  mutual exclusion and that a processor that holds a lock has its interrupts off.
\<close>

section \<open>The shared state\<close>

text \<open>Sleep locks live in buffers and in inodes, named by their index in the cache.\<close>

datatype slpid = BufL nat | InoL nat

datatype lockid = BcacheLk | IdeLk | LogLk | IcacheLk | FtableLk | PtableLk | KmemLk | ConsLk
  | TicksLk | PipeLk u32 | SlpLk slpid

text \<open>Sleep channels: the addresses the kernel sleeps on.\<close>

datatype chan = ChSlp slpid | ChLog | ChBuf nat | ChProc nat | ChTicks | ChNread u32 | ChNwrite u32
  | ChInput

text \<open>
  What a thread that does not return waits for: a spinning lock, a wake-up on a channel, its next turn, the
  disk, nothing any more after a panic of another processor (\<open>Frozen\<close>), or nothing after its own exit (\<open>Gone\<close>).
\<close>

datatype waiton = Spin lockid | SleepOn chan | Resched | DiskBusy | Frozen | Gone

record spinlock =
  locked :: u32
  lcpu :: "nat option"

record sleeplock =
  slocked :: u32
  spid :: u32

record cpu =
  apicid :: u8
  ncli :: int
  intena :: bool
  cproc :: "nat option"

datatype procstate = UNUSED | EMBRYO | SLEEPING | RUNNABLE | RUNNING | ZOMBIE

record trapframe =
  r_edi :: u32
  r_esi :: u32
  r_ebp :: u32
  r_oesp :: u32
  r_ebx :: u32
  r_edx :: u32
  r_ecx :: u32
  r_eax :: u32
  r_gs :: u16
  r_fs :: u16
  r_es :: u16
  r_ds :: u16
  r_trapno :: u32
  r_err :: u32
  r_eip :: u32
  r_cs :: u16
  r_eflags :: u32
  r_esp :: u32
  r_ss :: u16

record "proc" =
  sz :: u32
  pgdir :: u32
  kstack :: u32
  state :: procstate
  pid :: u32
  parent :: "nat option"
  tf :: trapframe
  ctx_eip :: u32
  chan :: "chan option"
  killed :: bool
  ofile :: "nat option list"
  cwd :: "nat option"
  pname :: "u8 list"

record core =
  cpus :: "cpu list"
  lapicid :: u8
  ifl :: "u8 \<Rightarrow> bool"
  slk :: "lockid \<Rightarrow> spinlock"
  slp :: "slpid \<Rightarrow> sleeplock"
  procs :: "proc list"
  initproc :: "nat option"
  nextpid :: u32
  ticks :: u32

record kst =
  core :: core

type_synonym ('s, 'r) sm = "(waiton, 's, 'r) km"
type_synonym ('x, 'r) kk = "(waiton, 'x kst_scheme, 'r) km"

definition upd_core :: "(core \<Rightarrow> core) \<Rightarrow> ('x, unit) kk" where
  "upd_core f = modify (\<lambda>s. s\<lparr>core := f (core s)\<rparr>)"

definition upd_cpu :: "nat \<Rightarrow> (cpu \<Rightarrow> cpu) \<Rightarrow> ('x, unit) kk" where
  "upd_cpu i f = upd_core (\<lambda>c. c\<lparr>cpus := (cpus c)[i := f (cpus c ! i)]\<rparr>)"

definition upd_proc :: "nat \<Rightarrow> (proc \<Rightarrow> proc) \<Rightarrow> ('x, unit) kk" where
  "upd_proc i f = upd_core (\<lambda>c. c\<lparr>procs := (procs c)[i := f (procs c ! i)]\<rparr>)"

definition NPROC :: nat where "NPROC = 64"
definition NCPU :: nat where "NCPU = 8"
definition NOFILE :: nat where "NOFILE = 16"
definition KSTACKSIZE :: u32 where "KSTACKSIZE = 4096"

section \<open>Interrupt flag, current processor and process\<close>

text \<open>The interrupt flag of the processor that runs: \<open>readeflags() & FL_IF\<close>, \<open>cli\<close>, \<open>sti\<close>.\<close>

definition intr_on :: "core \<Rightarrow> bool" where
  "intr_on c = ifl c (lapicid c)"

definition set_intr :: "bool \<Rightarrow> core \<Rightarrow> core" where
  "set_intr b c = c\<lparr>ifl := (ifl c)(lapicid c := b)\<rparr>"

definition cli :: "('x, unit) kk" where "cli = upd_core (set_intr False)"
definition sti :: "('x, unit) kk" where "sti = upd_core (set_intr True)"

definition cpu_idx :: "core \<Rightarrow> nat option" where
  "cpu_idx c = List.find (\<lambda>i. apicid (cpus c ! i) = lapicid c) [0..<length (cpus c)]"

definition mycpu :: "('x, nat) kk" where
  "mycpu = bind (gets core) (\<lambda>c.
     if intr_on c then panic ''mycpu called with interrupts enabled''
     else case cpu_idx c of Some i \<Rightarrow> ret i | None \<Rightarrow> panic ''unknown apicid'')"

definition cpuid :: "('x, nat) kk" where
  "cpuid = mycpu"

definition pushcli :: "('x, unit) kk" where
  "pushcli = bind (gets (\<lambda>s. intr_on (core s))) (\<lambda>eflags.
     bind cli (\<lambda>_.
     bind mycpu (\<lambda>i.
     upd_cpu i (\<lambda>k. k\<lparr>intena := (if ncli k = 0 then eflags else intena k), ncli := ncli k + 1\<rparr>))))"

definition popcli :: "('x, unit) kk" where
  "popcli = bind (gets (\<lambda>s. intr_on (core s))) (\<lambda>eflags.
     if eflags then panic ''popcli - interruptible'' else
     bind mycpu (\<lambda>i.
     bind (upd_cpu i (\<lambda>k. k\<lparr>ncli := ncli k - 1\<rparr>)) (\<lambda>_.
     bind (gets (\<lambda>s. cpus (core s) ! i)) (\<lambda>k.
     if ncli k < 0 then panic ''popcli''
     else whenM (ncli k = 0 \<and> intena k) sti))))"

definition myproc :: "('x, nat option) kk" where
  "myproc = bind pushcli (\<lambda>_.
     bind mycpu (\<lambda>i.
     bind (gets (\<lambda>s. cproc (cpus (core s) ! i))) (\<lambda>p.
     bind popcli (\<lambda>_. ret p))))"

section \<open>Spin locks\<close>

definition initlock :: "lockid \<Rightarrow> ('x, unit) kk" where
  "initlock l = upd_core (\<lambda>c. c\<lparr>slk := (slk c)(l := \<lparr>locked = 0, lcpu = None\<rparr>)\<rparr>)"

definition holding :: "lockid \<Rightarrow> ('x, bool) kk" where
  "holding l = bind (gets (\<lambda>s. slk (core s) l)) (\<lambda>k.
     if locked k \<noteq> 0 then bind mycpu (\<lambda>i. ret (lcpu k = Some i)) else ret False)"

text \<open>
  \<open>xchg(&lk->locked, 1)\<close> in one atomic step. A processor that finds the lock taken spins: it
  repeats the exchange and nothing else, with its interrupts off.
\<close>

definition xchg_locked :: "lockid \<Rightarrow> ('x, u32) kk" where
  "xchg_locked l = bind (gets (\<lambda>s. locked (slk (core s) l))) (\<lambda>old.
     bind (upd_core (\<lambda>c. c\<lparr>slk := (slk c)(l := (slk c l)\<lparr>locked := 1\<rparr>)\<rparr>)) (\<lambda>_. ret old))"

definition spin_acquire :: "lockid \<Rightarrow> ('x, unit) kk" where
  "spin_acquire l = bind (xchg_locked l) (\<lambda>old.
     if old \<noteq> 0 then wait_on (Spin l) else
     bind mycpu (\<lambda>i.
     upd_core (\<lambda>c. c\<lparr>slk := (slk c)(l := (slk c l)\<lparr>lcpu := Some i\<rparr>)\<rparr>)))"

definition acquire :: "lockid \<Rightarrow> ('x, unit) kk" where
  "acquire l = bind pushcli (\<lambda>_.
     bind (holding l) (\<lambda>h.
     if h then panic ''acquire'' else spin_acquire l))"

definition release :: "lockid \<Rightarrow> ('x, unit) kk" where
  "release l = bind (holding l) (\<lambda>h.
     if \<not> h then panic ''release'' else
     bind (upd_core (\<lambda>c. c\<lparr>slk := (slk c)(l := (slk c l)\<lparr>lcpu := None\<rparr>)\<rparr>)) (\<lambda>_.
     bind (upd_core (\<lambda>c. c\<lparr>slk := (slk c)(l := (slk c l)\<lparr>locked := 0\<rparr>)\<rparr>)) (\<lambda>_.
     popcli)))"

text \<open>A critical section: every path of the C function through it ends in \<open>release\<close>.\<close>

definition with_lock :: "lockid \<Rightarrow> ('x, 'r) kk \<Rightarrow> ('x, 'r) kk" where
  "with_lock l m = bind (acquire l) (\<lambda>_. bind m (\<lambda>x. bind (release l) (\<lambda>_. ret x)))"

section \<open>What the lock operations do\<close>

text \<open>
  \<open>lk_ok\<close>: the running processor is known, its nesting depth is not negative, and its
  interrupts are off when the depth is positive. \<open>quiet\<close>: moreover no spin lock is held.
\<close>

definition free_lk :: spinlock where
  "free_lk = \<lparr>locked = 0, lcpu = None\<rparr>"

definition my :: "core \<Rightarrow> nat" where
  "my c = the (cpu_idx c)"

definition lk_ok :: "core \<Rightarrow> bool" where
  "lk_ok c \<longleftrightarrow> cpu_idx c \<noteq> None \<and> 0 \<le> ncli (cpus c ! my c) \<and> (0 < ncli (cpus c ! my c) \<longrightarrow> \<not> intr_on c)"

definition quiet :: "core \<Rightarrow> bool" where
  "quiet c \<longleftrightarrow> lk_ok c \<and> ncli (cpus c ! my c) = 0 \<and> (\<forall>l. slk c l = free_lk)"

text \<open>The state after a successful \<open>pushcli\<close>, after \<open>acquire\<close>, and after the matching release.\<close>

definition pushed :: "core \<Rightarrow> core" where
  "pushed c = (let k = cpus c ! my c in
     c\<lparr>ifl := (ifl c)(lapicid c := False),
       cpus := (cpus c)[my c := k\<lparr>intena := (if ncli k = 0 then intr_on c else intena k),
                                  ncli := ncli k + 1\<rparr>]\<rparr>)"

definition acquired :: "lockid \<Rightarrow> core \<Rightarrow> core" where
  "acquired l c = (pushed c)\<lparr>slk := (slk c)(l := \<lparr>locked = 1, lcpu = Some (my c)\<rparr>)\<rparr>"

definition popped :: "core \<Rightarrow> core" where
  "popped c = (if ncli (cpus c ! my c) = 0
     then c\<lparr>cpus := (cpus c)[my c := (cpus c ! my c)\<lparr>intena := intr_on c\<rparr>]\<rparr> else c)"

lemma find_upt_Some:
  assumes "List.find P [0..<n] = Some i"
  shows "i < n" and "P i"
  using assms by (auto simp: find_Some_iff)

lemma cpu_idx_Some: "cpu_idx c = Some i \<Longrightarrow> i < length (cpus c) \<and> apicid (cpus c ! i) = lapicid c"
  unfolding cpu_idx_def by (auto dest: find_upt_Some)

lemma cpu_idx_my: "lk_ok c \<Longrightarrow> cpu_idx c = Some (my c)"
  by (auto simp: lk_ok_def my_def)

lemma my_lt: "lk_ok c \<Longrightarrow> my c < length (cpus c)"
  using cpu_idx_my cpu_idx_Some by blast

lemma cpu_idx_cong:
  assumes "map apicid (cpus c) = map apicid (cpus d)" and "lapicid c = lapicid d"
  shows "cpu_idx c = cpu_idx d"
proof -
  have "length (cpus c) = length (cpus d)"
    using assms(1) by (metis length_map)
  moreover have "apicid (cpus c ! i) = apicid (cpus d ! i)" if "i < length (cpus c)" for i
    using that assms(1) calculation by (metis nth_map)
  ultimately show ?thesis
    unfolding cpu_idx_def using assms(2) by (auto intro: find_cong)
qed

lemma cpu_idx_upd [simp]:
  "apicid k = apicid (cpus c ! i) \<Longrightarrow> cpu_idx (c\<lparr>cpus := (cpus c)[i := k]\<rparr>) = cpu_idx c"
  by (rule cpu_idx_cong) (simp_all add: map_update_same)

lemma cpu_idx_ifl [simp]: "cpu_idx (c\<lparr>ifl := f\<rparr>) = cpu_idx c"
  by (rule cpu_idx_cong) simp_all

lemma cpu_idx_slk [simp]: "cpu_idx (c\<lparr>slk := f\<rparr>) = cpu_idx c"
  by (rule cpu_idx_cong) simp_all

lemma cpu_idx_slp [simp]: "cpu_idx (c\<lparr>slp := f\<rparr>) = cpu_idx c"
  by (rule cpu_idx_cong) simp_all

lemma cpu_idx_procs [simp]: "cpu_idx (c\<lparr>procs := f\<rparr>) = cpu_idx c"
  by (rule cpu_idx_cong) simp_all

lemma intr_on_upd [simp]:
  "intr_on (c\<lparr>slk := f\<rparr>) = intr_on c" "intr_on (c\<lparr>slp := g\<rparr>) = intr_on c"
  "intr_on (c\<lparr>procs := p\<rparr>) = intr_on c" "intr_on (c\<lparr>cpus := k\<rparr>) = intr_on c"
  by (simp_all add: intr_on_def)

lemma pushcli_eq:
  assumes "lk_ok (core s)"
  shows "pushcli s = Ret () (s\<lparr>core := pushed (core s)\<rparr>)"
  using assms cpu_idx_my [OF assms]
  by (simp add: pushcli_def bind_def gets_def modify_def cli_def set_intr_def upd_core_def
      upd_cpu_def mycpu_def intr_on_def pushed_def ret_def Let_def)

lemma my_cong: "cpu_idx c = cpu_idx d \<Longrightarrow> my c = my d"
  by (simp add: my_def)

lemma my_pushed [simp]: "my (pushed c) = my c" and cpu_idx_pushed [simp]: "cpu_idx (pushed c) = cpu_idx c"
proof -
  show "cpu_idx (pushed c) = cpu_idx c"
    by (rule cpu_idx_cong) (simp_all add: pushed_def Let_def map_update_same)
  then show "my (pushed c) = my c" by (rule my_cong)
qed

lemma pushed_simps [simp]:
  "lapicid (pushed c) = lapicid c" "slk (pushed c) = slk c" "slp (pushed c) = slp c"
  "procs (pushed c) = procs c" "intr_on (pushed c) = False"
  by (simp_all add: pushed_def Let_def intr_on_def)

lemma length_cpus_acquired [simp]: "length (cpus (acquired l c)) = length (cpus c)"
  by (simp add: acquired_def pushed_def Let_def)

lemma popcli_pushed:
  assumes "lk_ok c"
  shows "popcli (s\<lparr>core := (pushed c)\<lparr>slp := g, procs := p, slk := f\<rparr>\<rparr>) =
    Ret () (s\<lparr>core := (popped c)\<lparr>slp := g, procs := p, slk := f\<rparr>\<rparr>)"
proof -
  have ifl: "(ifl c)(lapicid c := intr_on c) = ifl c"
    by (simp add: intr_on_def)
  have ncli0: "ncli k = 0 \<Longrightarrow> k\<lparr>intena := b, ncli := 0\<rparr> = k\<lparr>intena := b\<rparr>" for k b
    by (cases k) simp
  show ?thesis
    using assms cpu_idx_my [OF assms] my_lt [OF assms] cpu_idx_pushed [of c] ifl
    by (simp add: popcli_def bind_def gets_def modify_def sti_def set_intr_def upd_core_def
        upd_cpu_def mycpu_def ret_def whenM_def)
       (auto simp: pushed_def popped_def Let_def lk_ok_def ncli0 intro!: arg_cong [where f = "\<lambda>x. s\<lparr>core := x\<rparr>"] core.equality)
qed

lemma pushed_same: "(pushed c)\<lparr>slp := slp c, procs := procs c, slk := slk c\<rparr> = pushed c"
  and popped_same: "(popped c)\<lparr>slp := slp c, procs := procs c, slk := slk c\<rparr> = popped c"
  by (simp_all add: pushed_def popped_def Let_def)

lemma popcli_pushed': "lk_ok c \<Longrightarrow> popcli (s\<lparr>core := pushed c\<rparr>) = Ret () (s\<lparr>core := popped c\<rparr>)"
  using popcli_pushed [where c = c and s = s and f = "slk c" and g = "slp c" and p = "procs c"]
  by (simp add: pushed_same popped_same)

lemma popped_simps [simp]:
  "lapicid (popped c) = lapicid c" "slk (popped c) = slk c" "slp (popped c) = slp c"
  "procs (popped c) = procs c" "ifl (popped c) = ifl c" "intr_on (popped c) = intr_on c"
  by (simp_all add: popped_def Let_def intr_on_def)

lemma cpu_idx_popped [simp]: "cpu_idx (popped c) = cpu_idx c"
  by (rule cpu_idx_cong) (simp_all add: popped_def map_update_same)

lemma my_popped [simp]: "my (popped c) = my c"
  by (rule my_cong) simp

lemma ncli_popped [simp]: "lk_ok c \<Longrightarrow> ncli (cpus (popped c) ! my c) = ncli (cpus c ! my c)"
  using my_lt [of c] by (simp add: popped_def)

lemma cproc_popped [simp]: "lk_ok c \<Longrightarrow> cproc (cpus (popped c) ! my c) = cproc (cpus c ! my c)"
  using my_lt [of c] by (simp add: popped_def)

lemma lk_ok_popped [simp]: "lk_ok c \<Longrightarrow> lk_ok (popped c)"
  using ncli_popped [of c] by (auto simp: lk_ok_def)

lemma quiet_popped [simp]: "quiet c \<Longrightarrow> quiet (popped c)"
  by (simp add: quiet_def)

lemma ncli_pushed [simp]: "lk_ok c \<Longrightarrow> ncli (cpus (pushed c) ! my c) = ncli (cpus c ! my c) + 1"
  using my_lt [of c] by (simp add: pushed_def Let_def)

lemma lk_ok_pushed [simp]: "lk_ok c \<Longrightarrow> lk_ok (pushed c)"
  using ncli_pushed [of c] by (auto simp: lk_ok_def)

definition curproc :: "core \<Rightarrow> nat option" where
  "curproc c = cproc (cpus c ! my c)"

lemma myproc_eq:
  assumes "lk_ok (core s)"
  shows "myproc s = Ret (curproc (core s)) (s\<lparr>core := popped (core s)\<rparr>)"
proof -
  have "mycpu (s\<lparr>core := pushed (core s)\<rparr>) = Ret (my (core s)) (s\<lparr>core := pushed (core s)\<rparr>)"
    using cpu_idx_my [OF assms] by (simp add: mycpu_def bind_def gets_def ret_def)
  moreover have "cproc (cpus (pushed (core s)) ! my (core s)) = cproc (cpus (core s) ! my (core s))"
    using my_lt [OF assms] by (simp add: pushed_def Let_def)
  ultimately show ?thesis
    using pushcli_eq [OF assms] popcli_pushed' [OF assms, of s]
    by (simp add: myproc_def bind_def gets_def ret_def curproc_def)
qed

lemma acquire_free:
  assumes "lk_ok (core s)" and "slk (core s) l = free_lk"
  shows "acquire l s = Ret () (s\<lparr>core := acquired l (core s)\<rparr>)"
  using assms pushcli_eq [OF assms(1)] cpu_idx_my [OF assms(1)]
  by (simp add: acquire_def bind_def holding_def gets_def modify_def upd_core_def mycpu_def ret_def
      spin_acquire_def xchg_locked_def free_lk_def acquired_def)

text \<open>A processor that takes a lock it already holds panics; another one spins.\<close>

lemma acquire_held:
  assumes "lk_ok (core s)" and "locked (slk (core s) l) \<noteq> 0"
  shows "acquire l s = (if lcpu (slk (core s) l) = Some (my (core s)) then Panic ''acquire''
    else Wait (Spin l) (s\<lparr>core := (pushed (core s))\<lparr>slk := (slk (core s))(l := (slk (core s) l)\<lparr>locked := 1\<rparr>)\<rparr>\<rparr>))"
  using assms pushcli_eq [OF assms(1)] cpu_idx_my [OF assms(1)]
  by (simp add: acquire_def bind_def holding_def gets_def modify_def upd_core_def mycpu_def ret_def
      spin_acquire_def xchg_locked_def panic_def wait_on_def)

lemma release_not_held:
  assumes "\<not> intr_on (core s)" and "cpu_idx (core s) \<noteq> None"
    and "locked (slk (core s) l) = 0 \<or> lcpu (slk (core s) l) \<noteq> Some (my (core s))"
  shows "release l s = Panic ''release''"
  using assms by (auto simp: release_def bind_def holding_def gets_def mycpu_def ret_def panic_def my_def)

lemma release_acquired:
  assumes "lk_ok c" and "slk c l = free_lk"
  shows "release l (s\<lparr>core := (acquired l c)\<lparr>slp := g, procs := p\<rparr>\<rparr>) =
    Ret () (s\<lparr>core := (popped c)\<lparr>slp := g, procs := p\<rparr>\<rparr>)"
proof -
  have "popcli (s\<lparr>core := (pushed c)\<lparr>slp := g, procs := p, slk := slk c\<rparr>\<rparr>) =
    Ret () (s\<lparr>core := (popped c)\<lparr>slp := g, procs := p\<rparr>\<rparr>)"
    using popcli_pushed [OF assms(1), where s = s and f = "slk c" and g = g and p = p] by (simp add: popped_def)
  then show ?thesis
    using assms cpu_idx_my [OF assms(1)]
    by (simp add: release_def bind_def holding_def gets_def modify_def upd_core_def mycpu_def ret_def
        acquired_def free_lk_def fun_upd_idem)
qed

text \<open>
  A critical section may change sleep locks and wake processes: \<open>set_sp g p\<close> sets both fields.
\<close>

definition set_sp :: "(slpid \<Rightarrow> sleeplock) \<Rightarrow> proc list \<Rightarrow> core \<Rightarrow> core" where
  "set_sp g p c = c\<lparr>slp := g, procs := p\<rparr>"

lemma set_sp_sel [simp]:
  "slp (set_sp g p c) = g" "procs (set_sp g p c) = p" "slk (set_sp g p c) = slk c"
  "cpus (set_sp g p c) = cpus c" "lapicid (set_sp g p c) = lapicid c" "ifl (set_sp g p c) = ifl c"
  "intr_on (set_sp g p c) = intr_on c" "cpu_idx (set_sp g p c) = cpu_idx c" "my (set_sp g p c) = my c"
  "curproc (set_sp g p c) = curproc c"
  by (simp_all add: set_sp_def my_def curproc_def)

lemma lk_ok_set_sp [simp]: "lk_ok (set_sp g p c) = lk_ok c"
  by (simp add: lk_ok_def)

lemma set_sp_set_sp [simp]: "set_sp g p (set_sp g' p' c) = set_sp g p c"
  by (simp add: set_sp_def)

lemma set_sp_upd [simp]:
  "(set_sp g p c)\<lparr>slp := g'\<rparr> = set_sp g' p c" "(set_sp g p c)\<lparr>procs := p'\<rparr> = set_sp g p' c"
  by (simp_all add: set_sp_def)

lemma set_sp_same [simp]: "set_sp (slp c) (procs c) c = c"
  by (simp add: set_sp_def)

lemma set_sp_inject [simp]: "set_sp g p c = set_sp g' p' c \<longleftrightarrow> g = g' \<and> p = p'"
  by (metis set_sp_sel(1,2))

lemma slp_as_set_sp: "c\<lparr>slp := g\<rparr> = set_sp g (procs c) c"
  and procs_as_set_sp: "c\<lparr>procs := p\<rparr> = set_sp (slp c) p c"
  by (simp_all add: set_sp_def)

lemma acquired_sel [simp]:
  "slp (acquired l c) = slp c" "procs (acquired l c) = procs c" "my (acquired l c) = my c"
  "cpu_idx (acquired l c) = cpu_idx c" "intr_on (acquired l c) = False"
  "slk (acquired l c) = (slk c)(l := \<lparr>locked = 1, lcpu = Some (my c)\<rparr>)"
  by (simp_all add: acquired_def my_def)

lemma lk_ok_acquired [simp]: "lk_ok c \<Longrightarrow> lk_ok (acquired l c)"
  using lk_ok_pushed [of c] by (simp add: lk_ok_def acquired_def my_def)

lemma curproc_acquired [simp]: "lk_ok c \<Longrightarrow> curproc (acquired l c) = curproc c"
  using my_lt [of c] unfolding curproc_def acquired_sel by (simp add: acquired_def pushed_def Let_def)

lemma curproc_popped [simp]: "lk_ok c \<Longrightarrow> curproc (popped c) = curproc c"
  by (simp add: curproc_def)

lemma ncli_acquired: "lk_ok c \<Longrightarrow> 0 < ncli (cpus (acquired l c) ! my c)"
  using ncli_pushed [of c] by (simp add: acquired_def lk_ok_def)

lemma popped_nested: "0 < ncli (cpus c ! my c) \<Longrightarrow> popped c = c"
  by (simp add: popped_def)

lemma popped_set_sp: "popped (set_sp g p c) = set_sp g p (popped c)"
  by (simp add: popped_def) (simp add: set_sp_def)

lemma popped_acquired [simp]:
  "lk_ok c \<Longrightarrow> popped (acquired l c) = acquired l c"
  "lk_ok c \<Longrightarrow> popped (set_sp g p (acquired l c)) = set_sp g p (acquired l c)"
  using ncli_acquired [of c l] by (auto intro: popped_nested)

lemma wp_acquire_free:
  "lk_ok (core s) \<Longrightarrow> slk (core s) l = free_lk \<Longrightarrow>
   wp (acquire l) Q s = Q () (s\<lparr>core := acquired l (core s)\<rparr>)"
  by (simp add: wp_def acquire_free)

lemma wp_myproc: "lk_ok (core s) \<Longrightarrow> wp myproc Q s = Q (curproc (core s)) (s\<lparr>core := popped (core s)\<rparr>)"
  by (simp add: wp_def myproc_eq)

lemma wp_release_acquired:
  assumes "core s = set_sp g p (acquired l c)" and "lk_ok c" and "slk c l = free_lk"
  shows "wp (release l) Q s = Q () (s\<lparr>core := set_sp g p (popped c)\<rparr>)"
proof -
  have "release l (s\<lparr>core := set_sp g p (acquired l c)\<rparr>) = Ret () (s\<lparr>core := set_sp g p (popped c)\<rparr>)"
    using release_acquired [OF assms(2,3), where s = s and g = g and p = p] by (simp add: set_sp_def)
  then show ?thesis
    unfolding assms(1) [symmetric] by (simp add: wp_def)
qed

lemma wp_release:
  assumes "core s = acquired l c" and "lk_ok c" and "slk c l = free_lk"
  shows "wp (release l) Q s = Q () (s\<lparr>core := popped c\<rparr>)"
  using wp_release_acquired [of s "slp c" "procs c" l c] assms
    set_sp_same [of "acquired l c"] set_sp_same [of "popped c"] by simp

text \<open>The rule for a critical section.\<close>

lemma with_lock_wp:
  assumes "lk_ok (core s)" and "slk (core s) l = free_lk"
    and "wp m (\<lambda>x s'. \<exists>g p. core s' = set_sp g p (acquired l (core s)) \<and>
           Q x (s'\<lparr>core := set_sp g p (popped (core s))\<rparr>)) (s\<lparr>core := acquired l (core s)\<rparr>)"
  shows "wp (with_lock l m) Q s"
proof -
  have "wp m (\<lambda>x s'. wp (bind (release l) (\<lambda>_. ret x)) Q s') (s\<lparr>core := acquired l (core s)\<rparr>)"
    by (rule wp_mono [OF assms(3)]) (auto simp: wp_simps wp_release_acquired [OF _ assms(1,2)])
  then show ?thesis
    by (simp add: with_lock_def wp_bind wp_acquire_free [OF assms(1,2)])
qed

lemma with_lock_wp_plain:
  assumes "lk_ok (core s)" and "slk (core s) l = free_lk"
    and "wp m (\<lambda>x s'. core s' = acquired l (core s) \<and> Q x (s'\<lparr>core := popped (core s)\<rparr>))
           (s\<lparr>core := acquired l (core s)\<rparr>)"
  shows "wp (with_lock l m) Q s"
proof (rule with_lock_wp [OF assms(1,2)], rule wp_mono [OF assms(3)])
  fix x and s' :: "'a kst_scheme"
  let ?c = "core s"
  assume asm: "core s' = acquired l ?c \<and> Q x (s'\<lparr>core := popped ?c\<rparr>)"
  have "set_sp (slp ?c) (procs ?c) (acquired l ?c) = acquired l ?c"
    and "set_sp (slp ?c) (procs ?c) (popped ?c) = popped ?c"
    using set_sp_same [of "acquired l ?c"] set_sp_same [of "popped ?c"] by simp_all
  with asm show "\<exists>g p. core s' = set_sp g p (acquired l ?c) \<and> Q x (s'\<lparr>core := set_sp g p (popped ?c)\<rparr>)"
    by metis
qed

section \<open>What a kernel path leaves unchanged\<close>

text \<open>
  \<open>env c\<close> is the shared state without what every path may change: the saved interrupt flag of a
  processor, the sleep locks (specified apart), and whether a sleeping process has been woken.
\<close>

definition nrm :: "proc \<Rightarrow> proc" where
  "nrm p = p\<lparr>state := (if state p = SLEEPING then RUNNABLE else state p)\<rparr>"

definition env :: "core \<Rightarrow> core" where
  "env c = c\<lparr>cpus := map (\<lambda>k. k\<lparr>intena := False\<rparr>) (cpus c), slp := (\<lambda>_. \<lparr>slocked = 0, spid = 0\<rparr>),
     procs := map nrm (procs c)\<rparr>"

lemma env_slp [simp]: "env (c\<lparr>slp := g\<rparr>) = env c"
  by (simp add: env_def)

lemma env_procs: "map nrm p = map nrm (procs c) \<Longrightarrow> env (c\<lparr>procs := p\<rparr>) = env c"
  by (simp add: env_def)

lemma env_set_sp [simp]: "map nrm p = map nrm (procs c) \<Longrightarrow> env (set_sp g p c) = env c"
  by (simp add: env_def set_sp_def)

lemma env_popped [simp]: "env (popped c) = env c"
  by (simp add: env_def popped_def map_update_same)

lemma envD:
  assumes "env c = env d"
  shows "lapicid c = lapicid d" and "ifl c = ifl d" and "slk c = slk d" and "initproc c = initproc d"
    and "nextpid c = nextpid d" and "ticks c = ticks d"
    and "length (cpus c) = length (cpus d)" and "map apicid (cpus c) = map apicid (cpus d)"
    and "map ncli (cpus c) = map ncli (cpus d)" and "map cproc (cpus c) = map cproc (cpus d)"
    and "map nrm (procs c) = map nrm (procs d)"
proof -
  let ?f = "\<lambda>k. k\<lparr>intena := False\<rparr>"
  show "lapicid c = lapicid d" "ifl c = ifl d" "slk c = slk d" "initproc c = initproc d"
    "nextpid c = nextpid d" "ticks c = ticks d"
    using assms [THEN arg_cong [of _ _ lapicid]] assms [THEN arg_cong [of _ _ ifl]]
      assms [THEN arg_cong [of _ _ slk]] assms [THEN arg_cong [of _ _ initproc]]
      assms [THEN arg_cong [of _ _ nextpid]] assms [THEN arg_cong [of _ _ ticks]]
    by (simp_all add: env_def)
  show "map nrm (procs c) = map nrm (procs d)"
    using assms [THEN arg_cong [of _ _ procs]] by (simp add: env_def)
  have e: "map ?f (cpus c) = map ?f (cpus d)"
    using assms [THEN arg_cong [of _ _ cpus]] by (simp add: env_def)
  then show "length (cpus c) = length (cpus d)" by (rule map_eq_imp_length_eq)
  have "map h (map ?f (cpus c)) = map h (map ?f (cpus d))" for h :: "cpu \<Rightarrow> 'b"
    by (simp only: e)
  then have "map (h \<circ> ?f) (cpus c) = map (h \<circ> ?f) (cpus d)" for h :: "cpu \<Rightarrow> 'b"
    by simp
  note this [of apicid] this [of ncli] this [of cproc]
  then show "map apicid (cpus c) = map apicid (cpus d)" "map ncli (cpus c) = map ncli (cpus d)"
    "map cproc (cpus c) = map cproc (cpus d)"
    by (simp_all add: comp_def)
qed

lemma cpu_idx_env: "env c = env d \<Longrightarrow> cpu_idx c = cpu_idx d"
  by (rule cpu_idx_cong) (erule envD)+

lemma my_env: "env c = env d \<Longrightarrow> my c = my d"
  by (rule my_cong) (rule cpu_idx_env)

lemma ncli_env:
  assumes "env c = env d" and "lk_ok c"
  shows "ncli (cpus d ! my d) = ncli (cpus c ! my c)" and "curproc d = curproc c"
  using assms my_lt [OF assms(2)] envD(7) [OF assms(1)] my_env [OF assms(1)]
    envD(9,10) [OF assms(1), THEN arg_cong, of "\<lambda>xs. xs ! my c"]
  by (simp_all add: curproc_def)

lemma lk_ok_env: "env c = env d \<Longrightarrow> lk_ok c \<Longrightarrow> lk_ok d"
  using ncli_env [of c d] cpu_idx_env [of c d] envD [of c d]
  by (auto simp: lk_ok_def intr_on_def)

lemma quiet_env: "env c = env d \<Longrightarrow> quiet c \<Longrightarrow> quiet d"
  using ncli_env [of c d] lk_ok_env [of c d] envD(3) [of c d]
  by (simp add: quiet_def)

lemma quiet_lk_ok: "quiet c \<Longrightarrow> lk_ok c"
  and quiet_free: "quiet c \<Longrightarrow> slk c l = free_lk"
  by (simp_all add: quiet_def)

section \<open>A processor running one process\<close>

text \<open>The zero initial values of the tables, and a machine with one processor that runs process 0.\<close>

definition ztf :: trapframe where
  "ztf = \<lparr>r_edi = 0, r_esi = 0, r_ebp = 0, r_oesp = 0, r_ebx = 0, r_edx = 0, r_ecx = 0, r_eax = 0, r_gs = 0, r_fs = 0,
     r_es = 0, r_ds = 0, r_trapno = 0, r_err = 0, r_eip = 0, r_cs = 0, r_eflags = 0, r_esp = 0, r_ss = 0\<rparr>"

definition zproc :: "proc" where
  "zproc = \<lparr>sz = 0, pgdir = 0, kstack = 0, state = UNUSED, pid = 0, parent = None, tf = ztf, ctx_eip = 0, chan = None,
     killed = False, ofile = replicate NOFILE None, cwd = None, pname = replicate 16 0\<rparr>"

definition core0 :: core where
  "core0 = \<lparr>cpus = [\<lparr>apicid = 0, ncli = 0, intena = False, cproc = Some 0\<rparr>], lapicid = 0, ifl = (\<lambda>_. True),
     slk = (\<lambda>_. free_lk), slp = (\<lambda>_. \<lparr>slocked = 0, spid = 0\<rparr>),
     procs = (replicate NPROC zproc)[0 := zproc\<lparr>state := RUNNING, pid := 1\<rparr>], initproc = Some 0, nextpid = 2, ticks = 0\<rparr>"

lemma core0_sel [simp]: "slk core0 l = free_lk" "slp core0 k = \<lparr>slocked = 0, spid = 0\<rparr>"
  by (simp_all add: core0_def)

lemma my_core0: "cpu_idx core0 = Some 0" "my core0 = 0"
  by (simp_all add: my_def cpu_idx_def core0_def)

lemma quiet_core0 [simp]: "quiet core0" "curproc core0 = Some 0"
  by (simp_all add: quiet_def lk_ok_def my_core0 curproc_def) (simp_all add: core0_def)

end
