(* ===== verification/Mutex.thy ===== *)
theory Mutex
  imports Spinlock
begin

text \<open>
  The spin-lock protocol of \<^verbatim>\<open>spinlock.c\<close> on several processors. A step is one processor
  running \<open>acquire\<close>, one more turn of its spin loop, or \<open>release\<close> of a lock it holds; any
  processor may move next. The invariant ties the lock words to the processors that hold them and
  the nesting depth to the number of locks; mutual exclusion follows.
\<close>

record mach =
  mcore :: core
  held :: "nat \<Rightarrow> lockid list"
  spinning :: "nat \<Rightarrow> lockid option"

text \<open>Processor \<open>i\<close> runs: the local APIC answers with its id.\<close>

definition on_cpu :: "nat \<Rightarrow> core \<Rightarrow> kst" where
  "on_cpu i c = \<lparr>core = c\<lparr>lapicid := apicid (cpus c ! i)\<rparr>\<rparr>"

inductive cpu_step :: "mach \<Rightarrow> mach \<Rightarrow> bool" where
  step_take: "i < length (cpus (mcore m)) \<Longrightarrow> spinning m i = None \<Longrightarrow>
    acquire l (on_cpu i (mcore m)) = Ret () t \<Longrightarrow>
    cpu_step m (m\<lparr>mcore := core t, held := (held m)(i := l # held m i)\<rparr>)"
| step_spin: "i < length (cpus (mcore m)) \<Longrightarrow> spinning m i = None \<Longrightarrow>
    acquire l (on_cpu i (mcore m)) = Wait w t \<Longrightarrow>
    cpu_step m (m\<lparr>mcore := core t, spinning := (spinning m)(i := Some l)\<rparr>)"
| step_again: "i < length (cpus (mcore m)) \<Longrightarrow> spinning m i = Some l \<Longrightarrow>
    spin_acquire l (on_cpu i (mcore m)) = Wait w t \<Longrightarrow>
    cpu_step m (m\<lparr>mcore := core t\<rparr>)"
| step_win: "i < length (cpus (mcore m)) \<Longrightarrow> spinning m i = Some l \<Longrightarrow>
    spin_acquire l (on_cpu i (mcore m)) = Ret () t \<Longrightarrow>
    cpu_step m (m\<lparr>mcore := core t, held := (held m)(i := l # held m i),
                  spinning := (spinning m)(i := None)\<rparr>)"
| step_drop: "i < length (cpus (mcore m)) \<Longrightarrow> spinning m i = None \<Longrightarrow> l \<in> set (held m i) \<Longrightarrow>
    release l (on_cpu i (mcore m)) = Ret () t \<Longrightarrow>
    cpu_step m (m\<lparr>mcore := core t, held := (held m)(i := remove1 l (held m i))\<rparr>)"

text \<open>The machine at boot: no lock is held and no processor has called \<open>pushcli\<close>.\<close>

definition mach_init :: "mach \<Rightarrow> bool" where
  "mach_init m \<longleftrightarrow> distinct (map apicid (cpus (mcore m))) \<and> (\<forall>k\<in>set (cpus (mcore m)). ncli k = 0) \<and>
     (\<forall>l. slk (mcore m) l = free_lk) \<and> (\<forall>i. held m i = []) \<and> (\<forall>i. spinning m i = None)"

inductive mach_reach :: "mach \<Rightarrow> bool" where
  mach_reach_init: "mach_init m \<Longrightarrow> mach_reach m"
| mach_reach_step: "mach_reach m \<Longrightarrow> cpu_step m m' \<Longrightarrow> mach_reach m'"

definition depth :: "mach \<Rightarrow> nat \<Rightarrow> int" where
  "depth m i = int (length (held m i)) + (if spinning m i = None then 0 else 1)"

definition lock_rel :: "spinlock \<Rightarrow> (nat \<Rightarrow> bool) \<Rightarrow> nat \<Rightarrow> bool" where
  "lock_rel k h n \<longleftrightarrow> (k = free_lk \<and> (\<forall>i<n. \<not> h i)) \<or>
     (\<exists>i<n. k = \<lparr>locked = 1, lcpu = Some i\<rparr> \<and> h i \<and> (\<forall>j<n. h j \<longrightarrow> j = i))"

definition mach_inv :: "mach \<Rightarrow> bool" where
  "mach_inv m \<longleftrightarrow> (let c = mcore m; n = length (cpus c) in
     distinct (map apicid (cpus c)) \<and>
     (\<forall>i<n. ncli (cpus c ! i) = depth m i \<and> (0 < depth m i \<longrightarrow> \<not> ifl c (apicid (cpus c ! i)))
        \<and> distinct (held m i)) \<and>
     (\<forall>l. lock_rel (slk c l) (\<lambda>i. l \<in> set (held m i)) n))"

section \<open>Running on a given processor\<close>

lemma find_unique:
  assumes "i < n" and "P i" and "\<And>j. j < n \<Longrightarrow> P j \<Longrightarrow> j = i"
  shows "List.find P [0..<n] = Some i"
proof -
  have "\<not> P j" if "j < i" for j
    using assms(1) assms(3) [of j] that by auto
  with assms(1,2) show ?thesis
    unfolding find_Some_iff by (intro exI [of _ i]) simp
qed

lemma core_on_cpu [simp]: "core (on_cpu i c) = c\<lparr>lapicid := apicid (cpus c ! i)\<rparr>"
  by (simp add: on_cpu_def)

lemma cpu_idx_on_cpu:
  assumes "distinct (map apicid (cpus c))" and "i < length (cpus c)"
  shows "cpu_idx (c\<lparr>lapicid := apicid (cpus c ! i)\<rparr>) = Some i"
    and "my (c\<lparr>lapicid := apicid (cpus c ! i)\<rparr>) = i"
proof -
  show *: "cpu_idx (c\<lparr>lapicid := apicid (cpus c ! i)\<rparr>) = Some i"
    unfolding cpu_idx_def using assms
    by (auto intro!: find_unique simp: distinct_conv_nth)
  show "my (c\<lparr>lapicid := apicid (cpus c ! i)\<rparr>) = i"
    unfolding my_def * by simp
qed

lemma lk_ok_on_cpu:
  assumes "mach_inv m" and "i < length (cpus (mcore m))"
  shows "lk_ok (core (on_cpu i (mcore m)))" and "my (core (on_cpu i (mcore m))) = i"
    and "cpu_idx (core (on_cpu i (mcore m))) = Some i"
    and "intr_on (core (on_cpu i (mcore m))) = ifl (mcore m) (apicid (cpus (mcore m) ! i))"
proof -
  have d: "distinct (map apicid (cpus (mcore m)))"
    using assms by (simp add: mach_inv_def Let_def)
  show "my (core (on_cpu i (mcore m))) = i" "cpu_idx (core (on_cpu i (mcore m))) = Some i"
    using cpu_idx_on_cpu [OF d assms(2)] by simp_all
  show "intr_on (core (on_cpu i (mcore m))) = ifl (mcore m) (apicid (cpus (mcore m) ! i))"
    by (simp add: intr_on_def)
  show "lk_ok (core (on_cpu i (mcore m)))"
    using assms cpu_idx_on_cpu [OF d assms(2)]
    by (auto simp: lk_ok_def mach_inv_def Let_def intr_on_def depth_def)
qed

lemma release_held:
  assumes "cpu_idx (core s) = Some i" and "\<not> intr_on (core s)" and "slk (core s) l = \<lparr>locked = 1, lcpu = Some i\<rparr>"
    and "1 \<le> ncli (cpus (core s) ! i)"
  shows "release l s = Ret () (s\<lparr>core := (let c = core s; k = cpus c ! i in
    c\<lparr>slk := (slk c)(l := free_lk), cpus := (cpus c)[i := k\<lparr>ncli := ncli k - 1\<rparr>],
      ifl := (if ncli k = 1 \<and> intena k then (ifl c)(lapicid c := True) else ifl c)\<rparr>)\<rparr>)"
  using assms cpu_idx_Some [OF assms(1)]
  by (simp add: release_def bind_def holding_def gets_def modify_def upd_core_def mycpu_def ret_def
      popcli_def upd_cpu_def sti_def set_intr_def whenM_def free_lk_def Let_def)

lemma spin_acquire_eq:
  assumes "cpu_idx (core s) = Some i" and "\<not> intr_on (core s)"
  shows "spin_acquire l s = (let c = core s in
    if locked (slk c l) = 0 then Ret () (s\<lparr>core := c\<lparr>slk := (slk c)(l := \<lparr>locked = 1, lcpu = Some i\<rparr>)\<rparr>\<rparr>)
    else Wait (Spin l) (s\<lparr>core := c\<lparr>slk := (slk c)(l := (slk c l)\<lparr>locked := 1\<rparr>)\<rparr>\<rparr>))"
  using assms
  by (cases "slk (core s) l") (simp add: spin_acquire_def xchg_locked_def bind_def gets_def modify_def upd_core_def mycpu_def
      ret_def wait_on_def Let_def)

section \<open>The invariant\<close>

lemma lock_rel_take:
  assumes "lock_rel free_lk h n" and "i < n"
  shows "lock_rel \<lparr>locked = 1, lcpu = Some i\<rparr> (h(i := True)) n"
  using assms by (auto simp: lock_rel_def free_lk_def)

lemma lock_rel_drop:
  assumes "lock_rel k h n" and "i < n" and "h i"
  shows "k = \<lparr>locked = 1, lcpu = Some i\<rparr>" and "lock_rel free_lk (h(i := False)) n"
  using assms by (auto simp: lock_rel_def free_lk_def)

lemma lock_rel_cases: "lock_rel k h n \<Longrightarrow> k = free_lk \<or> (\<exists>i. k = \<lparr>locked = 1, lcpu = Some i\<rparr>)"
  unfolding lock_rel_def by blast

lemma lock_rel_unlocked: "lock_rel k h n \<Longrightarrow> locked k = 0 \<Longrightarrow> k = free_lk"
  by (drule lock_rel_cases) auto

lemma lock_rel_locked: "lock_rel k h n \<Longrightarrow> locked k \<noteq> 0 \<Longrightarrow> k\<lparr>locked := 1\<rparr> = k"
  by (drule lock_rel_cases) (auto simp: free_lk_def)

lemma mach_invD:
  assumes "mach_inv m"
  shows "distinct (map apicid (cpus (mcore m)))"
    and "\<And>i. i < length (cpus (mcore m)) \<Longrightarrow> ncli (cpus (mcore m) ! i) = depth m i"
    and "\<And>i. i < length (cpus (mcore m)) \<Longrightarrow> 0 < depth m i \<Longrightarrow> \<not> ifl (mcore m) (apicid (cpus (mcore m) ! i))"
    and "\<And>i. i < length (cpus (mcore m)) \<Longrightarrow> distinct (held m i)"
    and "\<And>l. lock_rel (slk (mcore m) l) (\<lambda>i. l \<in> set (held m i)) (length (cpus (mcore m)))"
  using assms by (simp_all add: mach_inv_def Let_def)

lemma apicid_inj:
  "distinct (map apicid (cpus c)) \<Longrightarrow> i < length (cpus c) \<Longrightarrow> j < length (cpus c) \<Longrightarrow>
   apicid (cpus c ! i) = apicid (cpus c ! j) \<longleftrightarrow> i = j"
  by (auto simp: distinct_conv_nth)

text \<open>
  All steps have one shape: processor \<open>i\<close> changes its own record, its interrupt flag and one
  lock. The invariant is kept when depth, flag and lock agree afterwards.
\<close>

lemma mach_inv_local:
  assumes inv: "mach_inv m" and i: "i < length (cpus (mcore m))"
    and c': "cpus c' = (cpus (mcore m))[i := k]" and ak: "apicid k = apicid (cpus (mcore m) ! i)"
    and ifl': "ifl c' = (ifl (mcore m))(apicid k := b)"
    and slk': "slk c' = (slk (mcore m))(l := v)"
    and hi: "held m' = (held m)(i := hs)" and sp: "spinning m' = (spinning m)(i := x)"
    and mc: "mcore m' = c'" and dep: "ncli k = depth m' i" and off: "0 < depth m' i \<Longrightarrow> \<not> b"
    and dist: "distinct hs" and lk: "lock_rel v ((\<lambda>j. l \<in> set (held m j))(i := l \<in> set hs)) (length (cpus (mcore m)))"
    and oth: "\<And>l'. l' \<noteq> l \<Longrightarrow> l' \<in> set hs \<longleftrightarrow> l' \<in> set (held m i)"
  shows "mach_inv m'"
proof -
  note d = mach_invD [OF inv]
  have ap: "map apicid (cpus c') = map apicid (cpus (mcore m))"
    by (simp add: c' map_update_same ak)
  have dj: "j \<noteq> i \<Longrightarrow> depth m' j = depth m j" for j
    by (simp add: depth_def hi sp)
  have "ncli (cpus c' ! j) = depth m' j \<and> (0 < depth m' j \<longrightarrow> \<not> ifl c' (apicid (cpus c' ! j))) \<and> distinct (held m' j)"
    if j: "j < length (cpus (mcore m))" for j
    using j d dep off dist dj [of j] apicid_inj [OF d(1) i j] ak
    by (cases "j = i") (simp_all add: c' ifl' hi)
  moreover have "lock_rel (slk c' l') (\<lambda>j. l' \<in> set (held m' j)) (length (cpus c'))" for l'
  proof (cases "l' = l")
    case True
    have "(\<lambda>j. l \<in> set (held m' j)) = (\<lambda>j. l \<in> set (held m j))(i := l \<in> set hs)"
      by (auto simp: hi)
    then show ?thesis using lk True by (simp add: slk' c')
  next
    case False
    then have "(\<lambda>j. l' \<in> set (held m' j)) = (\<lambda>j. l' \<in> set (held m j))"
      using oth by (auto simp: hi)
    then show ?thesis using d(5) [of l'] False by (simp add: slk' c')
  qed
  ultimately show ?thesis
    using d(1) ap by (simp add: mach_inv_def mc c')
qed

lemma mach_inv_init: "mach_init m \<Longrightarrow> mach_inv m"
  by (simp add: mach_init_def mach_inv_def lock_rel_def depth_def Let_def)

lemma cpus_on [simp]: "cpus (c\<lparr>lapicid := a\<rparr>) = cpus c" "slk (c\<lparr>lapicid := a\<rparr>) = slk c" "ifl (c\<lparr>lapicid := a\<rparr>) = ifl c"
  by simp_all

lemma cpu_step_inv:
  assumes "cpu_step m m'" and "mach_inv m"
  shows "mach_inv m'"
  using assms
proof (induction rule: cpu_step.induct)
  case (step_take i m l t)
  let ?c = "mcore m"
  note ok = lk_ok_on_cpu [OF step_take.prems step_take.hyps(1)]
  note d = mach_invD [OF step_take.prems]
  have free: "slk ?c l = free_lk"
  proof (rule ccontr)
    assume "slk ?c l \<noteq> free_lk"
    then have "locked (slk ?c l) \<noteq> 0" using lock_rel_unlocked [OF d(5)] by blast
    with acquire_held [OF ok(1)] step_take.hyps(3) show False by (simp split: if_splits)
  qed
  then have t: "core t = acquired l (core (on_cpu i ?c))"
    using acquire_free [OF ok(1)] step_take.hyps(3) by auto
  have nl: "l \<notin> set (held m i)"
    using d(5) [of l] step_take.hyps(1) by (auto simp: free lock_rel_def free_lk_def)
  have lk: "lock_rel \<lparr>locked = 1, lcpu = Some i\<rparr> ((\<lambda>j. l \<in> set (held m j))(i := True)) (length (cpus ?c))"
    using d(5) [of l] step_take.hyps(1) by (intro lock_rel_take) (simp_all add: free)
  show ?case
    by (rule mach_inv_local [OF step_take.prems step_take.hyps(1), where b = False and l = l
          and v = "\<lparr>locked = 1, lcpu = Some i\<rparr>" and x = None and hs = "l # held m i" and c' = "core t"
          and k = "(cpus ?c ! i)\<lparr>intena := (if ncli (cpus ?c ! i) = 0 then ifl ?c (apicid (cpus ?c ! i)) else intena (cpus ?c ! i)), ncli := ncli (cpus ?c ! i) + 1\<rparr>"])
       (simp_all add: step_take.hyps d nl ok [simplified core_on_cpu] t acquired_def pushed_def Let_def depth_def lk fun_upd_idem intr_on_def)
next
  case (step_spin i m l w t)
  let ?c = "mcore m"
  note ok = lk_ok_on_cpu [OF step_spin.prems step_spin.hyps(1)]
  note d = mach_invD [OF step_spin.prems]
  have lkd: "locked (slk ?c l) \<noteq> 0"
  proof
    assume "locked (slk ?c l) = 0"
    then have "slk ?c l = free_lk" using lock_rel_unlocked [OF d(5)] by blast
    with acquire_free [OF ok(1)] step_spin.hyps(3) show False by simp
  qed
  then have t: "core t = (pushed (core (on_cpu i ?c)))\<lparr>slk := slk ?c\<rparr>"
    using acquire_held [OF ok(1)] step_spin.hyps(3) lock_rel_locked [OF d(5)]
    by (auto split: if_splits simp: fun_upd_idem)
  show ?case
    by (rule mach_inv_local [OF step_spin.prems step_spin.hyps(1), where b = False and l = l
          and v = "slk ?c l" and x = "Some l" and hs = "held m i" and c' = "core t"
          and k = "(cpus ?c ! i)\<lparr>intena := (if ncli (cpus ?c ! i) = 0 then ifl ?c (apicid (cpus ?c ! i)) else intena (cpus ?c ! i)), ncli := ncli (cpus ?c ! i) + 1\<rparr>"])
       (use d(5) [of l] in \<open>simp_all add: step_spin.hyps d ok [simplified core_on_cpu] t pushed_def Let_def
          depth_def fun_upd_idem intr_on_def\<close>)
next
  case (step_again i m l w t)
  let ?c = "mcore m"
  note ok = lk_ok_on_cpu [OF step_again.prems step_again.hyps(1)]
  note d = mach_invD [OF step_again.prems]
  have off: "\<not> intr_on (core (on_cpu i ?c))"
    using d(3) [OF step_again.hyps(1)] step_again.hyps(2) by (simp add: depth_def intr_on_def)
  have t: "core t = core (on_cpu i ?c)"
    using spin_acquire_eq [OF ok(3) off] step_again.hyps(3) lock_rel_locked [OF d(5)]
    by (auto split: if_splits simp: Let_def fun_upd_idem)
  show ?case
    by (rule mach_inv_local [OF step_again.prems step_again.hyps(1), where b = False and l = l
          and v = "slk ?c l" and x = "Some l" and hs = "held m i" and c' = "core t" and k = "cpus ?c ! i"])
       (use d(5) [of l] off in \<open>simp_all add: step_again.hyps d ok [simplified core_on_cpu] t depth_def fun_upd_idem\<close>)
next
  case (step_win i m l t)
  let ?c = "mcore m"
  note ok = lk_ok_on_cpu [OF step_win.prems step_win.hyps(1)]
  note d = mach_invD [OF step_win.prems]
  have off: "\<not> intr_on (core (on_cpu i ?c))"
    using d(3) [OF step_win.hyps(1)] step_win.hyps(2) by (simp add: depth_def intr_on_def)
  have lz: "locked (slk ?c l) = 0"
    and t: "core t = (core (on_cpu i ?c))\<lparr>slk := (slk ?c)(l := \<lparr>locked = 1, lcpu = Some i\<rparr>)\<rparr>"
    using spin_acquire_eq [OF ok(3) off] step_win.hyps(3)
    by (auto split: if_splits simp: Let_def)
  have free: "slk ?c l = free_lk"
    using lock_rel_unlocked [OF d(5) lz] .
  have nl: "l \<notin> set (held m i)"
    using d(5) [of l] step_win.hyps(1) by (auto simp: free lock_rel_def free_lk_def)
  have lk: "lock_rel \<lparr>locked = 1, lcpu = Some i\<rparr> ((\<lambda>j. l \<in> set (held m j))(i := True)) (length (cpus ?c))"
    using d(5) [of l] step_win.hyps(1) by (intro lock_rel_take) (simp_all add: free)
  show ?case
    by (rule mach_inv_local [OF step_win.prems step_win.hyps(1), where b = False and l = l and x = None
          and v = "\<lparr>locked = 1, lcpu = Some i\<rparr>" and hs = "l # held m i" and c' = "core t" and k = "cpus ?c ! i"])
       (use off in \<open>simp_all add: step_win.hyps d nl ok [simplified core_on_cpu] t depth_def lk fun_upd_idem\<close>)
next
  case (step_drop i m l t)
  let ?c = "mcore m" and ?k = "cpus (mcore m) ! i"
  note ok = lk_ok_on_cpu [OF step_drop.prems step_drop.hyps(1)]
  note d = mach_invD [OF step_drop.prems]
  have dep: "0 < depth m i"
    using step_drop.hyps(3) by (cases "held m i") (auto simp: depth_def)
  have off: "\<not> intr_on (core (on_cpu i ?c))"
    using d(3) [OF step_drop.hyps(1) dep] by (simp add: intr_on_def)
  note lk = lock_rel_drop [OF d(5) step_drop.hyps(1,3)]
  have t: "core t = (let c = core (on_cpu i ?c) in c\<lparr>slk := (slk c)(l := free_lk),
      cpus := (cpus c)[i := ?k\<lparr>ncli := ncli ?k - 1\<rparr>],
      ifl := (if ncli ?k = 1 \<and> intena ?k then (ifl c)(lapicid c := True) else ifl c)\<rparr>)"
    using release_held [OF ok(3) off, of l] lk(1) step_drop.hyps dep d(2) [OF step_drop.hyps(1)]
    by (auto simp: Let_def)
  have len: "int (length (remove1 l (held m i))) = int (length (held m i)) - 1"
    using step_drop.hyps(3) length_pos_if_in_set [of l "held m i"] by (simp add: length_remove1 of_nat_diff Suc_le_eq)
  show ?case
    by (rule mach_inv_local [OF step_drop.prems step_drop.hyps(1), where b = "ncli ?k = 1 \<and> intena ?k"
          and l = l and x = None and v = free_lk and hs = "remove1 l (held m i)" and c' = "core t"
          and k = "?k\<lparr>ncli := ncli ?k - 1\<rparr>"])
       (use off lk(2) d(4) [OF step_drop.hyps(1)] dep in
         \<open>auto simp: step_drop.hyps d ok [simplified core_on_cpu] t depth_def fun_upd_idem Let_def len\<close>)
qed

lemma mach_reach_inv: "mach_reach m \<Longrightarrow> mach_inv m"
  by (induction rule: mach_reach.induct) (auto intro: mach_inv_init cpu_step_inv)

section \<open>Mutual exclusion\<close>


text \<open>Two processors; the second one holds the log lock.\<close>

definition mach2 :: mach where
  "mach2 = \<lparr>mcore = \<lparr>cpus = [\<lparr>apicid = 0, ncli = 0, intena = False, cproc = None\<rparr>,
       \<lparr>apicid = 1, ncli = 0, intena = False, cproc = None\<rparr>], lapicid = 0, ifl = (\<lambda>_. True),
     slk = (\<lambda>_. free_lk), slp = (\<lambda>_. \<lparr>slocked = 0, spid = 0\<rparr>), procs = [], initproc = None,
     nextpid = 1, ticks = 0\<rparr>, held = (\<lambda>_. []), spinning = (\<lambda>_. None)\<rparr>"


end
