(* ===== verification/Sleeplock.thy ===== *)
theory Sleeplock
  imports Spinlock
begin

text \<open>
  Sleeping and waking (\<open>sched\<close>, \<open>sleep\<close>, \<open>wakeup1\<close>, \<open>wakeup\<close> of \<^verbatim>\<open>proc.c\<close>) and the sleep
  locks of \<^verbatim>\<open>sleeplock.c\<close> built on them. A call to \<open>sleep\<close> ends in \<open>Wait\<close>: the thread gives up
  the processor inside \<open>sched\<close>, holding \<open>ptable.lock\<close>. When it runs again it clears its
  channel and takes its lock back, and its caller's loop starts over.

  The lemmas are the contracts the layers above use: taking a free sleep lock records the owner,
  releasing it frees it and wakes the waiters, and nothing else of the shared state changes.
\<close>

section \<open>Sleep and wake-up\<close>

definition sched :: "waiton \<Rightarrow> ('x, 'r) kk" where
  "sched w = bind myproc (\<lambda>p.
     bind (holding PtableLk) (\<lambda>h.
     if \<not> h then panic ''sched ptable.lock'' else
     bind mycpu (\<lambda>i.
     bind (gets (\<lambda>s. ncli (cpus (core s) ! i))) (\<lambda>n.
     if n \<noteq> 1 then panic ''sched locks'' else
     case p of None \<Rightarrow> fault ''sched: no process'' | Some j \<Rightarrow>
     bind (gets (\<lambda>s. state (procs (core s) ! j))) (\<lambda>st.
     if st = RUNNING then panic ''sched running'' else
     bind (gets (\<lambda>s. intr_on (core s))) (\<lambda>on.
     if on then panic ''sched interruptible'' else wait_on w))))))"

definition sleep :: "chan \<Rightarrow> lockid \<Rightarrow> ('x, 'r) kk" where
  "sleep ch lk = bind myproc (\<lambda>p.
     case p of None \<Rightarrow> panic ''sleep'' | Some j \<Rightarrow>
     bind (whenM (lk \<noteq> PtableLk) (bind (acquire PtableLk) (\<lambda>_. release lk))) (\<lambda>_.
     bind (upd_proc j (\<lambda>q. q\<lparr>chan := Some ch, state := SLEEPING\<rparr>)) (\<lambda>_.
     sched (SleepOn ch))))"

definition wakeup1 :: "chan \<Rightarrow> ('x, unit) kk" where
  "wakeup1 ch = upd_core (\<lambda>c. c\<lparr>procs := map (\<lambda>p. if state p = SLEEPING \<and> chan p = Some ch
     then p\<lparr>state := RUNNABLE\<rparr> else p) (procs c)\<rparr>)"

definition wakeup :: "chan \<Rightarrow> ('x, unit) kk" where
  "wakeup ch = bind (acquire PtableLk) (\<lambda>_. bind (wakeup1 ch) (\<lambda>_. release PtableLk))"

section \<open>Sleep locks\<close>

definition upd_slp :: "slpid \<Rightarrow> (sleeplock \<Rightarrow> sleeplock) \<Rightarrow> ('x, unit) kk" where
  "upd_slp k f = upd_core (\<lambda>c. c\<lparr>slp := (slp c)(k := f (slp c k))\<rparr>)"

definition initsleeplock :: "slpid \<Rightarrow> ('x, unit) kk" where
  "initsleeplock k = bind (initlock (SlpLk k)) (\<lambda>_. upd_slp k (\<lambda>_. \<lparr>slocked = 0, spid = 0\<rparr>))"

definition acquiresleep :: "slpid \<Rightarrow> ('x, unit) kk" where
  "acquiresleep k = bind (acquire (SlpLk k)) (\<lambda>_.
     bind (gets (\<lambda>s. slocked (slp (core s) k))) (\<lambda>v.
     if v \<noteq> 0 then sleep (ChSlp k) (SlpLk k) else
     bind (upd_slp k (\<lambda>l. l\<lparr>slocked := 1\<rparr>)) (\<lambda>_.
     bind myproc (\<lambda>p.
     case p of None \<Rightarrow> fault ''acquiresleep: no process'' | Some j \<Rightarrow>
     bind (gets (\<lambda>s. pid (procs (core s) ! j))) (\<lambda>pd.
     bind (upd_slp k (\<lambda>l. l\<lparr>spid := pd\<rparr>)) (\<lambda>_.
     release (SlpLk k)))))))"

definition releasesleep :: "slpid \<Rightarrow> ('x, unit) kk" where
  "releasesleep k = bind (acquire (SlpLk k)) (\<lambda>_.
     bind (upd_slp k (\<lambda>l. l\<lparr>slocked := 0, spid := 0\<rparr>)) (\<lambda>_.
     bind (wakeup (ChSlp k)) (\<lambda>_.
     release (SlpLk k))))"

definition holdingsleep :: "slpid \<Rightarrow> ('x, bool) kk" where
  "holdingsleep k = with_lock (SlpLk k) (gets (\<lambda>s. slocked (slp (core s) k) \<noteq> 0))"

section \<open>Contracts\<close>

text \<open>What a wake-up does to the process table: it only makes sleepers on the channel runnable.\<close>

definition woken :: "chan \<Rightarrow> proc list \<Rightarrow> proc list" where
  "woken ch ps = map (\<lambda>p. if state p = SLEEPING \<and> chan p = Some ch then p\<lparr>state := RUNNABLE\<rparr> else p) ps"

lemma nrm_woken [simp]: "map nrm (woken ch ps) = map nrm ps"
  by (simp add: woken_def nrm_def)

lemma sleeplock_set [simp]: "k\<lparr>slocked := a, spid := b\<rparr> = \<lparr>slocked = a, spid = b\<rparr>" for k :: sleeplock
  by (cases k) simp

text \<open>Inside a critical section a nested \<open>myproc\<close> or critical section changes nothing else.\<close>

lemma wp_myproc_nested:
  assumes "core s = set_sp g p (acquired l c)" and "lk_ok c"
  shows "wp myproc Q s = Q (curproc c) s"
proof -
  have "popped (core s) = core s" and ok: "lk_ok (core s)" and "curproc (core s) = curproc c"
    using assms by simp_all
  then have "s\<lparr>core := popped (core s)\<rparr> = s" by simp
  with wp_myproc [OF ok] \<open>curproc (core s) = curproc c\<close> show ?thesis by simp
qed

lemma wakeup_wp:
  assumes "lk_ok (core s)" and "slk (core s) PtableLk = free_lk"
    and "Q () (s\<lparr>core := set_sp (slp (core s)) (woken ch (procs (core s))) (popped (core s))\<rparr>)"
  shows "wp (wakeup ch) Q s"
proof -
  have *: "wakeup ch = with_lock PtableLk (wakeup1 ch)"
    by (simp add: wakeup_def with_lock_def)
  show ?thesis
    unfolding * by (rule with_lock_wp [OF assms(1,2)])
      (auto simp: wakeup1_def upd_core_def wp_simps assms(3) procs_as_set_sp simp flip: woken_def)
qed

lemma holdingsleep_wp:
  assumes "quiet (core s)"
    and "\<And>c'. env c' = env (core s) \<Longrightarrow> slp c' = slp (core s) \<Longrightarrow>
           Q (slocked (slp (core s) k) \<noteq> 0) (s\<lparr>core := c'\<rparr>)"
  shows "wp (holdingsleep k) Q s"
  unfolding holdingsleep_def
  by (rule with_lock_wp_plain) (use assms in \<open>simp_all add: quiet_lk_ok quiet_free wp_simps\<close>)

lemma acquiresleep_wp:
  assumes "quiet (core s)" and "slocked (slp (core s) k) = 0" and "curproc (core s) = Some j"
    and "\<And>c'. env c' = env (core s) \<Longrightarrow>
           slp c' = (slp (core s))(k := \<lparr>slocked = 1, spid = pid (procs (core s) ! j)\<rparr>) \<Longrightarrow>
           Q () (s\<lparr>core := c'\<rparr>)"
  shows "wp (acquiresleep k) Q s"
proof -
  let ?c = "core s" and ?l = "SlpLk k"
  have ok: "lk_ok ?c" and fr: "slk ?c ?l = free_lk"
    using assms(1) by (simp_all add: quiet_lk_ok quiet_free)
  have np: "wp myproc Q' (s\<lparr>core := set_sp g p (acquired ?l ?c)\<rparr>) = Q' (Some j) (s\<lparr>core := set_sp g p (acquired ?l ?c)\<rparr>)"
    for Q' g p
    by (subst wp_myproc_nested [of _ g p ?l ?c]) (simp_all add: ok assms(3))
  have rl: "wp (release ?l) Q' (s\<lparr>core := set_sp g p (acquired ?l ?c)\<rparr>) = Q' () (s\<lparr>core := set_sp g p (popped ?c)\<rparr>)"
    for Q' g p
    by (subst wp_release_acquired [of _ g p ?l ?c]) (simp_all add: ok fr)
  show ?thesis
    using assms(2) by (simp add: acquiresleep_def wp_simps wp_acquire_free [OF ok fr] upd_slp_def upd_core_def
        slp_as_set_sp np rl assms(4))
qed

lemma releasesleep_wp:
  assumes "quiet (core s)"
    and "\<And>c'. env c' = env (core s) \<Longrightarrow> slp c' = (slp (core s))(k := \<lparr>slocked = 0, spid = 0\<rparr>) \<Longrightarrow>
           Q () (s\<lparr>core := c'\<rparr>)"
  shows "wp (releasesleep k) Q s"
proof -
  let ?c = "core s" and ?l = "SlpLk k"
  have ok: "lk_ok ?c" and fr: "slk ?c ?l = free_lk"
    using assms(1) by (simp_all add: quiet_lk_ok quiet_free)
  have rl: "wp (release ?l) Q' (s\<lparr>core := set_sp g p (acquired ?l ?c)\<rparr>) = Q' () (s\<lparr>core := set_sp g p (popped ?c)\<rparr>)"
    for Q' g p
    by (subst wp_release_acquired [of _ g p ?l ?c]) (simp_all add: ok fr)
  show ?thesis
    using assms by (auto simp: releasesleep_def wp_simps wp_acquire_free [OF ok fr] upd_slp_def upd_core_def
        slp_as_set_sp ok quiet_free rl intro!: wakeup_wp)
qed

end
