(* ===== verification/Str.thy ===== *)
theory Str
  imports Prelude
begin

text \<open>
  The memory and string routines of the kernel (\<^verbatim>\<open>string.c\<close>) and of the user library (\<^verbatim>\<open>ulib.c\<close>).
  They work on a byte-addressed memory \<open>u32 \<Rightarrow> u8\<close>; a pointer is an address, and pointer increments wrap
  as machine additions do. Every routine returns the memory it leaves behind, or its result. The
  routines that look for a terminating NUL without a bound are partial: \<open>None\<close> is an endless loop.
\<close>

type_synonym memory = "u32 \<Rightarrow> u8"

section \<open>The kernel routines\<close>

text \<open>\<open>stosb\<close> and \<open>stosl\<close> of \<^verbatim>\<open>x86.h\<close>: \<open>rep stos\<close>.\<close>

primrec stosb :: "memory \<Rightarrow> u32 \<Rightarrow> u8 \<Rightarrow> nat \<Rightarrow> memory" where
  "stosb m d c 0 = m"
| "stosb m d c (Suc n) = stosb (m(d := c)) (d + 1) c n"

primrec stosl :: "memory \<Rightarrow> u32 \<Rightarrow> u32 \<Rightarrow> nat \<Rightarrow> memory" where
  "stosl m d w 0 = m"
| "stosl m d w (Suc n) = stosl (m(d := ucast w, d + 1 := ucast (drop_bit 8 w), d + 2 := ucast (drop_bit 16 w),
     d + 3 := ucast (drop_bit 24 w))) (d + 4) w n"

definition memset :: "memory \<Rightarrow> u32 \<Rightarrow> u32 \<Rightarrow> u32 \<Rightarrow> memory" where
  "memset m dst c n = (if dst mod 4 = 0 \<and> n mod 4 = 0
     then (let c = c AND 0xFF in stosl m dst (push_bit 24 c OR push_bit 16 c OR push_bit 8 c OR c) (unat (n div 4)))
     else stosb m dst (ucast c) (unat n))"

fun memcmp :: "memory \<Rightarrow> u32 \<Rightarrow> u32 \<Rightarrow> nat \<Rightarrow> int" where
  "memcmp m s1 s2 0 = 0"
| "memcmp m s1 s2 (Suc n) = (if m s1 \<noteq> m s2 then uint (m s1) - uint (m s2) else memcmp m (s1 + 1) (s2 + 1) n)"

primrec copy_down :: "memory \<Rightarrow> u32 \<Rightarrow> u32 \<Rightarrow> nat \<Rightarrow> memory" where
  "copy_down m d s 0 = m"
| "copy_down m d s (Suc n) = copy_down (m(d - 1 := m (s - 1))) (d - 1) (s - 1) n"

primrec copy_up :: "memory \<Rightarrow> u32 \<Rightarrow> u32 \<Rightarrow> nat \<Rightarrow> memory" where
  "copy_up m d s 0 = m"
| "copy_up m d s (Suc n) = copy_up (m(d := m s)) (d + 1) (s + 1) n"

definition memmove :: "memory \<Rightarrow> u32 \<Rightarrow> u32 \<Rightarrow> u32 \<Rightarrow> memory" where
  "memmove m dst src n = (if src < dst \<and> src + n > dst then copy_down m (dst + n) (src + n) (unat n)
     else copy_up m dst src (unat n))"

definition memcpy :: "memory \<Rightarrow> u32 \<Rightarrow> u32 \<Rightarrow> u32 \<Rightarrow> memory" where
  "memcpy m dst src n = memmove m dst src n"

fun strncmp :: "memory \<Rightarrow> u32 \<Rightarrow> u32 \<Rightarrow> nat \<Rightarrow> int" where
  "strncmp m p q 0 = 0"
| "strncmp m p q (Suc n) = (if m p \<noteq> 0 \<and> m p = m q then strncmp m (p + 1) (q + 1) n else uint (m p) - uint (m q))"

fun strncpy :: "memory \<Rightarrow> u32 \<Rightarrow> u32 \<Rightarrow> nat \<Rightarrow> memory" where
  "strncpy m s t 0 = m"
| "strncpy m s t (Suc n) = (if m t \<noteq> 0 then strncpy (m(s := m t)) (s + 1) (t + 1) n
     else stosb (m(s := 0)) (s + 1) 0 n)"

fun safestrcpy_loop :: "memory \<Rightarrow> u32 \<Rightarrow> u32 \<Rightarrow> nat \<Rightarrow> memory" where
  "safestrcpy_loop m s t 0 = m(s := 0)"
| "safestrcpy_loop m s t (Suc n) = (if m t \<noteq> 0 then safestrcpy_loop (m(s := m t)) (s + 1) (t + 1) n
     else (m(s := 0))(s + 1 := 0))"

definition safestrcpy :: "memory \<Rightarrow> u32 \<Rightarrow> u32 \<Rightarrow> int \<Rightarrow> memory" where
  "safestrcpy m s t n = (if n \<le> 0 then m else safestrcpy_loop m s t (nat (n - 1)))"

partial_function (option) strlen_from :: "memory \<Rightarrow> u32 \<Rightarrow> nat \<Rightarrow> nat option" where
  "strlen_from m s n = (if m (s + of_nat n) = 0 then Some n else strlen_from m s (n + 1))"

definition strlen :: "memory \<Rightarrow> u32 \<Rightarrow> nat option" where
  "strlen m s = strlen_from m s 0"

section \<open>The user routines\<close>

partial_function (option) strcpy :: "memory \<Rightarrow> u32 \<Rightarrow> u32 \<Rightarrow> memory option" where
  "strcpy m s t = (if m t = 0 then Some (m(s := 0)) else strcpy (m(s := m t)) (s + 1) (t + 1))"

partial_function (option) strcmp :: "memory \<Rightarrow> u32 \<Rightarrow> u32 \<Rightarrow> int option" where
  "strcmp m p q = (if m p \<noteq> 0 \<and> m p = m q then strcmp m (p + 1) (q + 1) else Some (uint (m p) - uint (m q)))"

partial_function (option) strchr :: "memory \<Rightarrow> u32 \<Rightarrow> u8 \<Rightarrow> u32 option option" where
  "strchr m s c = (if m s = 0 then Some None else if m s = c then Some (Some s) else strchr m (s + 1) c)"

definition umemset :: "memory \<Rightarrow> u32 \<Rightarrow> u32 \<Rightarrow> u32 \<Rightarrow> memory" where
  "umemset m dst c n = stosb m dst (ucast c) (unat n)"

definition umemmove :: "memory \<Rightarrow> u32 \<Rightarrow> u32 \<Rightarrow> int \<Rightarrow> memory" where
  "umemmove m vdst vsrc n = copy_up m vdst vsrc (nat n)"

partial_function (option) atoi_from :: "memory \<Rightarrow> u32 \<Rightarrow> u32 \<Rightarrow> u32 option" where
  "atoi_from m s n = (if 48 \<le> m s \<and> m s \<le> 57 then atoi_from m (s + 1) (n * 10 + ucast (m s) - 48) else Some n)"

definition atoi :: "memory \<Rightarrow> u32 \<Rightarrow> u32 option" where
  "atoi m s = atoi_from m s 0"

section \<open>Address arithmetic\<close>

text \<open>Addresses are compared by their distance from a base, so that blocks may be anywhere in memory.\<close>

lemma unat_pred: "x \<noteq> d \<Longrightarrow> unat (x - (d + 1)) = unat (x - d) - 1 \<and> 0 < unat (x - d)" for x d :: u32
proof -
  assume "x \<noteq> d"
  then have n: "x - d \<noteq> 0" by simp
  have e: "x - (d + 1) = x - d - 1" by simp
  show ?thesis unfolding e using unat_minus_one [OF n] n by (simp only: unat_gt_0 simp_thms) 
qed

lemma unat_m1: "unat (d - (d + 1)) = 2 ^ 32 - 1" for d :: u32
  by (simp add: unsigned_minus_1_eq_mask mask_eq_exp_minus_1)

section \<open>Copying and filling\<close>

lemma stosb_eq: "n \<le> 2 ^ 32 \<Longrightarrow> stosb m d c n x = (if unat (x - d) < n then c else m x)"
proof (induction n arbitrary: m d)
  case (Suc n)
  show ?case
  proof (cases "x = d")
    case True
    then show ?thesis using Suc unat_m1 [of d] by simp
  next
    case False
    then show ?thesis using Suc unat_pred [OF False] by auto
  qed
qed simp

lemma copy_up_eq:
  "n \<le> 2 ^ 32 \<Longrightarrow> unat (d - s) = 0 \<or> n \<le> unat (d - s) \<Longrightarrow>
   copy_up m d s n x = (if unat (x - d) < n then m (s + (x - d)) else m x)"
proof (induction n arbitrary: m d s)
  case (Suc n)
  have IH: "copy_up (m(d := m s)) (d + 1) (s + 1) n x =
    (if unat (x - (d + 1)) < n then (m(d := m s)) (s + 1 + (x - (d + 1))) else (m(d := m s)) x)"
    by (rule Suc.IH) (use Suc.prems in auto)
  show ?case
  proof (cases "x = d")
    case True
    then show ?thesis using Suc.prems IH unat_m1 [of d] by simp
  next
    case False
    have e: "s + 1 + (x - (d + 1)) = s + (x - d)" by simp
    have "s + (x - d) \<noteq> d" if "unat (x - d) < Suc n"
    proof
      assume "s + (x - d) = d"
      then have "x - d = d - s" by (simp add: algebra_simps)
      with that Suc.prems(2) unat_pred [OF False] show False by auto
    qed
    with False IH e unat_pred [OF False] show ?thesis by auto
  qed
qed simp

lemma copy_down_eq:
  "n \<le> 2 ^ 32 \<Longrightarrow> unat (s - d) = 0 \<or> n \<le> unat (s - d) \<Longrightarrow>
   copy_down m d s n x = (if unat (d - 1 - x) < n then m (s + (x - d)) else m x)"
proof (induction n arbitrary: m d s)
  case (Suc n)
  have IH: "copy_down (m(d - 1 := m (s - 1))) (d - 1) (s - 1) n x =
    (if unat (d - 1 - 1 - x) < n then (m(d - 1 := m (s - 1))) (s - 1 + (x - (d - 1))) else (m(d - 1 := m (s - 1))) x)"
    by (rule Suc.IH) (use Suc.prems in auto)
  show ?case
  proof (cases "x = d - 1")
    case True
    have "unat (d - 1 - 1 - (d - 1)) = 2 ^ 32 - 1" using unat_m1 [of "d - 2"] by simp
    then show ?thesis unfolding True using Suc.prems IH [unfolded True] by simp
  next
    case False
    then have n: "d - 1 - x \<noteq> 0" by auto
    have p: "unat (d - 1 - 1 - x) = unat (d - 1 - x) - 1" "0 < unat (d - 1 - x)"
      using unat_minus_one [OF n] n by (simp_all add: unat_gt_0 algebra_simps)
    have e: "s - 1 + (x - (d - 1)) = s + (x - d)" by simp
    have "s + (x - d) \<noteq> d - 1" if "unat (d - 1 - x) < Suc n"
    proof
      assume "s + (x - d) = d - 1"
      then have "d - 1 - x = s - d" by (simp add: algebra_simps)
      with that Suc.prems(2) p show False by auto
    qed
    with False IH e p show ?thesis by auto
  qed
qed simp

lemma unat_sub: "unat (a - b) = (if unat b \<le> unat a then unat a - unat b else 2 ^ 32 + unat a - unat b)" for a b :: u32
proof (cases "b \<le> a")
  case True
  then show ?thesis by (simp add: unat_sub word_le_nat_alt)
next
  case False
  then have "unat a < unat b" by (simp add: word_le_nat_alt)
  moreover have "unat b < 2 ^ 32" using unsigned_less [of b, where ?'a = nat] by simp
  ultimately show ?thesis
    using uint_sub_if' [of a b] by (simp add: unat_sub_if')
qed

lemma unat_add_no: "unat a + unat b < 2 ^ 32 \<Longrightarrow> unat (a + b) = unat a + unat b" for a b :: u32
  by (simp add: unat_word_ariths)

section \<open>Properties\<close>

text \<open>
  C5. \<open>memmove\<close> copies correctly even when the two areas overlap: after it, the \<open>n\<close> bytes at \<open>dst\<close> are
  the bytes that were at \<open>src\<close>, and no other byte has changed. The areas must not reach the end of the
  address space.
\<close>

theorem memmove_correct:
  assumes "unat src + unat n < 2 ^ 32" and "unat dst + unat n < 2 ^ 32"
  shows "memmove m dst src n x = (if unat (x - dst) < unat n then m (src + (x - dst)) else m x)"
proof (cases "src < dst \<and> src + n > dst")
  case True
  then have o: "unat src < unat dst" "unat dst < unat src + unat n"
    using unat_add_no [OF assms(1)] by (auto simp: word_less_nat_alt)
  have c: "copy_down m (dst + n) (src + n) (unat n) x =
    (if unat (dst + n - 1 - x) < unat n then m (src + n + (x - (dst + n))) else m x)"
    by (rule copy_down_eq) (use o assms in \<open>auto simp: unat_sub\<close>)
  have "n \<noteq> 0" using o by auto
  then have n1: "unat (n - 1) = unat n - 1" "0 < unat n" by (simp_all add: unat_minus_one unat_gt_0)
  have "dst + n - 1 - x = (n - 1) - (x - dst)" by simp
  then have "unat (dst + n - 1 - x) = unat ((n - 1) - (x - dst))" by (rule arg_cong)
  then have "unat (dst + n - 1 - x) < unat n \<longleftrightarrow> unat (x - dst) < unat n"
    unfolding unat_sub [of "n - 1" "x - dst"] using n1 unsigned_less [of "x - dst", where ?'a = nat] by auto
  with c True show ?thesis by (simp add: memmove_def algebra_simps)
next
  case False
  have "copy_up m dst src (unat n) x = (if unat (x - dst) < unat n then m (src + (x - dst)) else m x)"
    by (rule copy_up_eq) (use False assms unat_add_no [OF assms(1)] in \<open>auto simp: unat_sub word_less_nat_alt\<close>)
  with False show ?thesis by (auto simp: memmove_def)
qed

theorem memmove_correct_witness: "memmove (\<lambda>a. ucast a) 11 10 4 13 = 12"
  using memmove_correct [of 10 4 11 "\<lambda>a. ucast a" 13] by simp

lemma stosl_stosb:
  assumes "\<And>k. k \<in> {0, 8, 16, 24} \<Longrightarrow> ucast (drop_bit k w) = c" and "4 * n \<le> 2 ^ 32"
  shows "stosl m d w n = stosb m d c (4 * n)"
  using assms(2)
proof (induction n arbitrary: m d)
  case (Suc n)
  have w: "ucast w = c" "ucast (drop_bit 8 w) = c" "ucast (drop_bit 16 w) = c" "ucast (drop_bit 24 w) = c"
    using assms(1) [of 0] assms(1) [of 8] assms(1) [of 16] assms(1) [of 24] by simp_all
  have "stosb m d c (4 * Suc n) = stosb (m(d := c, d + 1 := c, d + 2 := c, d + 3 := c)) (d + 4) c (4 * n)"
    by (simp add: numeral_eq_Suc add.commute add.left_commute)
  then show ?case using Suc w by simp
qed simp

lemma same_byte:
  fixes c :: u32
  assumes "k \<in> {0, 8, 16, 24 :: nat}"
  shows "ucast (drop_bit k (push_bit 24 (c AND 0xFF) OR push_bit 16 (c AND 0xFF) OR push_bit 8 (c AND 0xFF) OR (c AND 0xFF)))
    = (ucast c :: u8)"
proof (rule bit_word_eqI)
  fix i
  assume "i < LENGTH(8)"
  then have i: "i < 8" by simp
  have ff: "(0xFF :: u32) = mask 8" by (simp add: mask_eq_exp_minus_1)
  have b: "bit (c AND 0xFF) j \<longleftrightarrow> j < 8 \<and> bit c j" for j
    unfolding ff by (auto simp: bit_and_iff bit_mask_iff dest: bit_imp_le_length)
  have "bit (ucast (drop_bit k (push_bit 24 (c AND 0xFF) OR push_bit 16 (c AND 0xFF) OR push_bit 8 (c AND 0xFF) OR (c AND 0xFF))) :: u8) i
    \<longleftrightarrow> (24 \<le> k + i \<and> k + i - 24 < 8 \<and> bit c (k + i - 24)) \<or> (16 \<le> k + i \<and> k + i - 16 < 8 \<and> bit c (k + i - 16))
      \<or> (8 \<le> k + i \<and> k + i - 8 < 8 \<and> bit c (k + i - 8)) \<or> (k + i < 8 \<and> bit c (k + i))"
    using i assms by (simp only: bit_ucast_iff bit_drop_bit_eq o_def bit_or_iff bit_push_bit_iff b) auto
  also have "\<dots> \<longleftrightarrow> bit c i" using assms i by (elim insertE emptyE) auto
  finally show "bit (ucast (drop_bit k (push_bit 24 (c AND 0xFF) OR push_bit 16 (c AND 0xFF) OR push_bit 8 (c AND 0xFF) OR (c AND 0xFF))) :: u8) i
    \<longleftrightarrow> bit (ucast c :: u8) i" using i by (simp add: bit_ucast_iff)
qed

text \<open>
  C6. The word-at-a-time path of \<open>memset\<close> is equivalent to the byte path: whatever the alignment and the
  length, \<open>memset\<close> sets exactly the \<open>n\<close> bytes from \<open>dst\<close> on to the low byte of \<open>c\<close>.
\<close>

theorem memset_bytes: "memset m dst c n x = (if unat (x - dst) < unat n then ucast c else m x)"
proof -
  let ?c = "c AND 0xFF" and ?b = "ucast c :: u8"
  let ?w = "push_bit 24 ?c OR push_bit 16 ?c OR push_bit 8 ?c OR ?c"
  have nb: "unat n \<le> 2 ^ 32" using unsigned_less [of n, where ?'a = nat] by simp
  have w: "ucast (drop_bit k ?w) = ?b" if "k \<in> {0, 8, 16, 24}" for k
    by (rule same_byte [OF that])
  show ?thesis
  proof (cases "dst mod 4 = 0 \<and> n mod 4 = 0")
    case True
    then have "unat (n mod 4) = 0" by simp
    then have "unat n mod 4 = 0" unfolding unat_mod by simp
    then have "4 * unat (n div 4) = unat n" by (simp add: unat_div dvd_eq_mod_eq_0 [symmetric])
    then have "stosl m dst ?w (unat (n div 4)) = stosb m dst ?b (unat n)"
      using stosl_stosb [of ?w ?b "unat (n div 4)" m dst, OF w] nb by simp
    then show ?thesis using True stosb_eq [OF nb] by (simp add: memset_def Let_def)
  next
    case False
    then show ?thesis using stosb_eq [OF nb] by (auto simp: memset_def)
  qed
qed

end
