(* ===== verification/Fmt.thy ===== *)
theory Fmt
  imports Str
begin

text \<open>
  Formatted output: \<open>printint\<close> and the two interpreters of format strings, \<open>cprintf\<close> of
  \<^verbatim>\<open>console.c\<close> and \<open>printf\<close> of \<^verbatim>\<open>printf.c\<close>. Each is a function from the format and the arguments to the
  bytes it puts out one by one. The arguments are the words after the format on the stack; a string argument
  is the string it points to, or \<open>None\<close> for a null pointer. A format that asks for an argument that is not
  there, or of the other kind, reads past the arguments: the result is \<open>None\<close>.
\<close>

datatype farg = Word u32 | Str "u8 list option"

definition chr :: "char \<Rightarrow> u8" where
  "chr c = of_char c"

definition bytes :: "string \<Rightarrow> u8 list" where
  "bytes = map chr"

section \<open>Integers\<close>

text \<open>The \<open>do ... while\<close> loop: the digits of \<open>x\<close>, least significant first.\<close>

function num_rev :: "(nat \<Rightarrow> u8) \<Rightarrow> nat \<Rightarrow> nat \<Rightarrow> u8 list" where
  "num_rev dg base x = dg (x mod base) # (if x div base = 0 \<or> base < 2 then [] else num_rev dg base (x div base))"
  by auto
termination
proof (relation "measure (\<lambda>(dg, base, x). x)")
  fix dg :: "nat \<Rightarrow> u8" and base x :: nat
  assume "\<not> (x div base = 0 \<or> base < 2)"
  then have "0 < x" "1 < base" by (auto intro: Nat.gr0I)
  then show "((dg, base, x div base), (dg, base, x)) \<in> measure (\<lambda>(dg, base, x). x)" by simp
qed simp

definition lower_digits :: "nat \<Rightarrow> u8" where
  "lower_digits d = bytes ''0123456789abcdef'' ! d"

definition upper_digits :: "nat \<Rightarrow> u8" where
  "upper_digits d = bytes ''0123456789ABCDEF'' ! d"

text \<open>\<open>buf\<close> before it is put out backwards. The base is 10 or 16 in every call.\<close>

definition printint_buf :: "(nat \<Rightarrow> u8) \<Rightarrow> u32 \<Rightarrow> nat \<Rightarrow> bool \<Rightarrow> u8 list" where
  "printint_buf dg xx base sg = (let neg = sg \<and> sint xx < 0; x = (if neg then - xx else xx) in
     num_rev dg base (unat x) @ (if neg then [chr CHR ''-''] else []))"

definition printint :: "(nat \<Rightarrow> u8) \<Rightarrow> u32 \<Rightarrow> nat \<Rightarrow> bool \<Rightarrow> u8 list" where
  "printint dg xx base sg = rev (printint_buf dg xx base sg)"

section \<open>The kernel's cprintf\<close>

definition null_str :: "u8 list" where
  "null_str = bytes ''(null)''"

fun cprintf_out :: "u8 list \<Rightarrow> farg list \<Rightarrow> u8 list option" where
  "cprintf_out [] ap = Some []"
| "cprintf_out [c] ap = (if c = chr CHR ''%'' then Some [] else Some [c])"
| "cprintf_out (c # d # f) ap =
    (if c \<noteq> chr CHR ''%'' then map_option (Cons c) (cprintf_out (d # f) ap)
     else if d = chr CHR ''d'' then
       (case ap of Word w # ap' \<Rightarrow> map_option (append (printint lower_digits w 10 True)) (cprintf_out f ap') | _ \<Rightarrow> None)
     else if d = chr CHR ''x'' \<or> d = chr CHR ''p'' then
       (case ap of Word w # ap' \<Rightarrow> map_option (append (printint lower_digits w 16 False)) (cprintf_out f ap') | _ \<Rightarrow> None)
     else if d = chr CHR ''s'' then
       (case ap of Str s # ap' \<Rightarrow> map_option (append (case s of None \<Rightarrow> null_str | Some t \<Rightarrow> t)) (cprintf_out f ap') | _ \<Rightarrow> None)
     else if d = chr CHR ''%'' then map_option (Cons (chr CHR ''%'')) (cprintf_out f ap)
     else map_option (append [chr CHR ''%'', d]) (cprintf_out f ap))"

section \<open>The user library's printf\<close>

text \<open>The state is \<open>True\<close> after a percent sign.\<close>

fun printf_st :: "bool \<Rightarrow> u8 list \<Rightarrow> farg list \<Rightarrow> u8 list option" where
  "printf_st st [] ap = Some []"
| "printf_st st (c # f) ap =
    (if \<not> st then
       (if c = chr CHR ''%'' then printf_st True f ap else map_option (Cons c) (printf_st False f ap))
     else if c = chr CHR ''d'' then
       (case ap of Word w # ap' \<Rightarrow> map_option (append (printint upper_digits w 10 True)) (printf_st False f ap') | _ \<Rightarrow> None)
     else if c = chr CHR ''x'' \<or> c = chr CHR ''p'' then
       (case ap of Word w # ap' \<Rightarrow> map_option (append (printint upper_digits w 16 False)) (printf_st False f ap') | _ \<Rightarrow> None)
     else if c = chr CHR ''s'' then
       (case ap of Str s # ap' \<Rightarrow> map_option (append (case s of None \<Rightarrow> null_str | Some t \<Rightarrow> t)) (printf_st False f ap') | _ \<Rightarrow> None)
     else if c = chr CHR ''c'' then
       (case ap of Word w # ap' \<Rightarrow> map_option (Cons (ucast w)) (printf_st False f ap') | _ \<Rightarrow> None)
     else if c = chr CHR ''%'' then map_option (Cons c) (printf_st False f ap)
     else map_option (append [chr CHR ''%'', c]) (printf_st False f ap))"

definition printf_out :: "u8 list \<Rightarrow> farg list \<Rightarrow> u8 list option" where
  "printf_out fmt ap = printf_st False fmt ap"

section \<open>Digits\<close>

declare num_rev.simps [simp del]

fun val_rev :: "nat \<Rightarrow> nat list \<Rightarrow> nat" where
  "val_rev b [] = 0"
| "val_rev b (d # ds) = d + b * val_rev b ds"

lemma num_rev_digits:
  assumes "2 \<le> base"
  shows "\<exists>ds. num_rev dg base x = map dg ds \<and> val_rev base ds = x \<and> (\<forall>d\<in>set ds. d < base) \<and> ds \<noteq> []"
  using assms
proof (induction dg base x rule: num_rev.induct)
  case (1 dg base x)
  show ?case
  proof (cases "x div base = 0")
    case True
    then show ?thesis using 1(2) by (subst num_rev.simps) (auto simp: div_eq_0_iff intro!: exI [of _ "[x]"])
  next
    case False
    then obtain ds where "num_rev dg base (x div base) = map dg ds" "val_rev base ds = x div base" "\<forall>d\<in>set ds. d < base"
      using 1 by auto
    then show ?thesis using False 1(2)
      by (subst num_rev.simps) (auto intro!: exI [of _ "x mod base # ds"])
  qed
qed

lemma length_num_rev: "2 \<le> base \<Longrightarrow> x < base ^ k \<Longrightarrow> 0 < k \<Longrightarrow> length (num_rev dg base x) \<le> k"
proof (induction k arbitrary: x)
  case (Suc k)
  show ?case
  proof (cases "x div base = 0")
    case True
    then show ?thesis by (subst num_rev.simps) simp
  next
    case False
    have d: "x div base < base ^ k" using Suc.prems by (simp add: less_mult_imp_div_less mult.commute)
    have "k \<noteq> 0"
    proof
      assume "k = 0"
      with d False show False by simp
    qed
    with d Suc show ?thesis using False by (subst num_rev.simps) simp
  qed
qed simp

lemma chr_digit: "d < 10 \<Longrightarrow> lower_digits d = 48 + of_nat d \<and> upper_digits d = 48 + of_nat d"
proof -
  assume "d < 10"
  then have "d \<in> {0, 1, 2, 3, 4, 5, 6, 7, 8, 9}" by auto
  then show ?thesis by (auto simp: lower_digits_def upper_digits_def bytes_def chr_def of_char_def)
qed

lemma printint_10: "printint lower_digits w 10 sg = printint upper_digits w 10 sg"
proof -
  have "num_rev lower_digits 10 x = num_rev upper_digits 10 x" for x
  proof (induction x rule: less_induct)
    case (less x)
    show ?case
      by (subst (1 2) num_rev.simps) (use less chr_digit [of "x mod 10"] in \<open>auto intro: div_less_dividend Nat.gr0I\<close>)
  qed
  then show ?thesis by (simp add: printint_def printint_buf_def Let_def)
qed

text \<open>A NUL-terminated string in memory.\<close>

fun str_at :: "memory \<Rightarrow> u32 \<Rightarrow> u8 list \<Rightarrow> bool" where
  "str_at m a [] \<longleftrightarrow> m a = 0"
| "str_at m a (c # cs) \<longleftrightarrow> m a = c \<and> str_at m (a + 1) cs"

lemma atoi_digits:
  assumes "\<forall>d\<in>set ds. d < 10" and "str_at m a (map (\<lambda>d. 48 + of_nat d) ds)"
  shows "atoi_from m a n = Some (fold (\<lambda>d n. n * 10 + of_nat d) ds n)"
  using assms
proof (induction ds arbitrary: a n)
  case Nil
  then show ?case by (subst atoi_from.simps) simp
next
  case (Cons d ds)
  have d: "d < 10" using Cons.prems by simp
  then have "d \<in> {0, 1, 2, 3, 4, 5, 6, 7, 8, 9}" by auto
  then have m: "48 \<le> (48 + of_nat d :: u8) \<and> (48 + of_nat d :: u8) \<le> 57" "ucast (48 + of_nat d :: u8) - 48 = (of_nat d :: u32)"
    by auto
  have e: "n * 10 + ucast (48 + of_nat d :: u8) - 48 = n * 10 + (of_nat d :: u32)"
    using m(2) by (metis add_diff_eq)
  have ma: "m a = 48 + of_nat d" and rest: "str_at m (a + 1) (map (\<lambda>d. 48 + of_nat d) ds)" using Cons.prems by simp_all
  have "atoi_from m a n = atoi_from m (a + 1) (n * 10 + ucast (m a) - 48)"
    by (subst atoi_from.simps) (use m(1) ma in simp)
  also have "\<dots> = Some (fold (\<lambda>d n. n * 10 + of_nat d) ds (n * 10 + of_nat d))"
    unfolding ma e by (rule Cons.IH) (use Cons.prems rest in simp_all)
  finally show ?case by simp
qed

lemma fold_val_rev: "fold (\<lambda>d n. n * 10 + of_nat d) (rev ds) (0 :: u32) = of_nat (val_rev 10 ds)"
  by (induction ds) (simp_all add: algebra_simps)

section \<open>Properties\<close>



text \<open>
  C8. The buffer of \<open>printint\<close> is large enough: for both bases in use, and for every integer with or without
  a sign, at most 11 of the 16 bytes of \<open>buf\<close> are written.
\<close>

theorem printint_fits: "length (printint_buf dg xx 10 sg) \<le> 11 \<and> length (printint_buf dg xx 16 sg) \<le> 9"
proof -
  have b: "unat x < 10 ^ 10" "unat x < 16 ^ 8" for x :: u32
    using unsigned_less [of x, where ?'a = nat] by simp_all
  have "length (num_rev dg 10 (unat x)) \<le> 10" "length (num_rev dg 16 (unat x)) \<le> 8" for x :: u32
    using length_num_rev [of 10 "unat x" 10 dg] length_num_rev [of 16 "unat x" 8 dg] b [of x] by simp_all
  note this [of xx] this [of "- xx"]
  then show ?thesis
    by (auto simp: printint_buf_def Let_def)
qed

text \<open>A format without hexadecimal and character conversions.\<close>

fun common :: "u8 list \<Rightarrow> bool" where
  "common [] = True"
| "common [c] = True"
| "common (c # d # f) = (if c = chr CHR ''%'' then d \<notin> {chr CHR ''x'', chr CHR ''p'', chr CHR ''c''} \<and> common f else common (d # f))"



end
