(* ===== verification/Ring.thy ===== *)
theory Ring
  imports Prelude
begin

text \<open>
  Ring buffers as the console and the pipes have them: an array of \<open>N\<close> slots and free-running 32-bit
  counters, used modulo \<open>N\<close>. The locale is the interface: the slot of a counter value, and the list of
  elements between two counters. Both arrays have a size that divides \<open>2 ^ 32\<close>, so counters may wrap.
\<close>

lemma unat_Suc_diff: "unat (w - r) < 2 ^ 32 - 1 \<Longrightarrow> unat (w + 1 - r) = Suc (unat (w - r))" for w r :: u32
proof -
  assume "unat (w - r) < 2 ^ 32 - 1"
  then have "unat (w - r + 1) = Suc (unat (w - r))" by (simp add: unat_word_ariths)
  then show ?thesis by (simp add: algebra_simps)
qed

definition slot :: "nat \<Rightarrow> u32 \<Rightarrow> nat" where
  "slot N r = unat r mod N"

definition content :: "nat \<Rightarrow> 'a list \<Rightarrow> u32 \<Rightarrow> nat \<Rightarrow> 'a list" where
  "content N b r n = map (\<lambda>i. b ! slot N (r + of_nat i)) [0..<n]"

locale ring_buffer =
  fixes N :: nat
  assumes size_pos: "0 < N" and size_dvd: "N dvd 2 ^ 32"
begin

lemma slot_less: "slot N r < N"
  using size_pos by (simp add: slot_def)

lemma slot_add: "slot N (r + of_nat i) = (unat r + i) mod N"
proof -
  have "unat (r + of_nat i) = (unat r + i) mod 2 ^ 32"
    by (simp add: unat_word_ariths unat_of_nat mod_simps)
  then show ?thesis using size_dvd by (simp add: slot_def mod_mod_cancel)
qed

lemma slot_distinct: "i < n \<Longrightarrow> n < N \<Longrightarrow> slot N (r + of_nat i) \<noteq> slot N (r + of_nat n)"
proof
  assume i: "i < n" "n < N" and "slot N (r + of_nat i) = slot N (r + of_nat n)"
  then have "(unat r + i) mod N = (unat r + n) mod N" by (simp add: slot_add)
  then have "N dvd (unat r + n) - (unat r + i)"
    using i(1) by (metis mod_eq_dvd_iff_nat add_le_cancel_left less_imp_le)
  with i show False by (auto dest: dvd_imp_le)
qed

lemma length_content [simp]: "length (content N b r n) = n"
  by (simp add: content_def)

lemma content_0 [simp]: "content N b r 0 = []"
  by (simp add: content_def)

lemma content_add: "content N b r (m + n) = content N b r m @ content N b (r + of_nat m) n"
proof -
  have "[m..<m + n] = map (\<lambda>i. i + m) [0..<n]" by (simp add: map_add_upt add.commute)
  then have "[0..<m + n] = [0..<m] @ map (\<lambda>i. i + m) [0..<n]"
    using upt_add_eq_append [of 0 m n] by simp
  then show ?thesis by (simp add: content_def o_def add.commute add.left_commute)
qed

lemma content_Suc: "content N b r (Suc n) = b ! slot N r # content N b (r + 1) n"
  using content_add [of b r 1 n] by (simp add: content_def)

lemma content_snoc: "content N b r (Suc n) = content N b r n @ [b ! slot N (r + of_nat n)]"
  by (simp add: content_def)

lemma content_put: "n < N \<Longrightarrow> length b = N \<Longrightarrow> m \<le> n \<Longrightarrow> content N (b[slot N (r + of_nat n) := x]) r m = content N b r m"
proof -
  assume a: "n < N" "length b = N" "m \<le> n"
  have "b[slot N (r + of_nat n) := x] ! slot N (r + of_nat i) = b ! slot N (r + of_nat i)" if "i < m" for i
    using slot_distinct [of i n r] that a by (simp add: nth_list_update)
  then show ?thesis by (simp add: content_def)
qed

lemma content_push:
  "n < N \<Longrightarrow> length b = N \<Longrightarrow> content N (b[slot N (r + of_nat n) := x]) r (Suc n) = content N b r n @ [x]"
  using content_put [of n b n r x] slot_less [of "r + of_nat n"] by (simp add: content_snoc)

end

end
