(* ===== verification/Console.thy ===== *)
theory Console
  imports Sleeplock Fmt Ring
begin

text \<open>
  The console: screen, serial line and keyboard (\<^verbatim>\<open>console.c\<close>, \<^verbatim>\<open>uart.c\<close>, \<^verbatim>\<open>kbd.c\<close>). The record holds the static
  variables of the three files and the devices behind them: the CGA memory with its cursor register, the bytes
  sent to the serial line, and the bytes waiting in the serial and the keyboard controller. \<open>panic\<close> is the
  outcome \<open>Panic\<close>; a processor that prints after another one has panicked stops for ever.

  The lemmas show that the cursor never leaves the screen and that the input ring is a line editor: a queue
  of committed characters and a line being edited.
\<close>

section \<open>State\<close>

record console =
  locking :: bool
  panicked :: bool
  ibuf :: "u8 list"
  ir :: u32
  iw :: u32
  ie :: u32
  crt :: "nat \<Rightarrow> u16"
  cursor :: u16
  uart :: bool
  uartout :: "u8 list"
  uartin :: "u8 list"
  kbdin :: "u8 list"
  kshift :: u32
  kpcs :: "nat \<Rightarrow> u32 list"

record cst = kst +
  cns :: console

definition console0 :: console where
  "console0 = \<lparr>locking = True, panicked = False, ibuf = replicate 128 0, ir = 0, iw = 0, ie = 0, crt = (\<lambda>_. 0), cursor = 0,
     uart = True, uartout = [], uartin = [], kbdin = [], kshift = 0, kpcs = (\<lambda>_. [])\<rparr>"

definition upd_cns :: "(console \<Rightarrow> console) \<Rightarrow> ('x cst_scheme, unit) sm" where
  "upd_cns f = modify (\<lambda>s. s\<lparr>cns := f (cns s)\<rparr>)"

definition INPUT_BUF :: nat where "INPUT_BUF = 128"
definition BACKSPACE :: u32 where "BACKSPACE = 0x100"

section \<open>Output\<close>

text \<open>\<open>uartputc\<close> waits a bounded time for the transmitter and sends the byte in any case.\<close>

definition uartputc :: "u32 \<Rightarrow> ('x cst_scheme, unit) sm" where
  "uartputc c = bind (gets (\<lambda>s. uart (cns s))) (\<lambda>u.
     whenM u (upd_cns (\<lambda>k. k\<lparr>uartout := uartout k @ [ucast c]\<rparr>)))"

text \<open>\<open>uartinit\<close> finds a serial port unless the status register reads \<open>0xFF\<close>.\<close>

definition uartinit :: "u8 \<Rightarrow> ('x cst_scheme, unit) sm" where
  "uartinit status = (if status = 0xFF then ret () else
     bind (upd_cns (\<lambda>k. k\<lparr>uart := True\<rparr>)) (\<lambda>_.
     forM (bytes ''xv6...'' @ [10]) (\<lambda>c. uartputc (ucast c))))"

definition cga_scroll :: "(nat \<Rightarrow> u16) \<Rightarrow> nat \<Rightarrow> nat \<Rightarrow> u16" where
  "cga_scroll m pos = (\<lambda>i. if pos \<le> i \<and> i < 24 * 80 then 0 else if i < 23 * 80 then m (i + 80) else m i)"

definition cgaputc :: "u32 \<Rightarrow> ('x cst_scheme, unit) sm" where
  "cgaputc c = bind (gets (\<lambda>s. unat (cursor (cns s)))) (\<lambda>pos0.
     bind (whenM (c \<noteq> 10 \<and> c \<noteq> BACKSPACE)
       (upd_cns (\<lambda>k. k\<lparr>crt := (crt k)(pos0 := ucast (c AND 0xFF) OR 0x0700)\<rparr>))) (\<lambda>_.
     let pos = (if c = 10 then pos0 + (80 - pos0 mod 80) else if c = BACKSPACE then pos0 - 1 else pos0 + 1) in
     if pos > 25 * 80 then panic ''pos under/overflow'' else
     let scroll = pos div 80 \<ge> 24; pos = (if scroll then pos - 80 else pos) in
     bind (whenM scroll (upd_cns (\<lambda>k. k\<lparr>crt := cga_scroll (crt k) pos\<rparr>))) (\<lambda>_.
     bind (upd_cns (\<lambda>k. k\<lparr>cursor := of_nat pos\<rparr>)) (\<lambda>_.
     upd_cns (\<lambda>k. k\<lparr>crt := (crt k)(pos := 0x0720)\<rparr>)))))"

definition consputc :: "u32 \<Rightarrow> ('x cst_scheme, unit) sm" where
  "consputc c = bind (gets (\<lambda>s. panicked (cns s))) (\<lambda>p.
     if p then bind cli (\<lambda>_. wait_on Frozen) else
     bind (if c = BACKSPACE then bind (uartputc 8) (\<lambda>_. bind (uartputc 32) (\<lambda>_. uartputc 8)) else uartputc c) (\<lambda>_.
     cgaputc c))"

definition cprintf :: "u8 list \<Rightarrow> farg list \<Rightarrow> ('x cst_scheme, unit) sm" where
  "cprintf fmt ap = bind (gets (\<lambda>s. locking (cns s))) (\<lambda>l.
     bind (whenM l (acquire ConsLk)) (\<lambda>_.
     case cprintf_out fmt ap of None \<Rightarrow> fault ''cprintf'' | Some out \<Rightarrow>
     bind (forM out (\<lambda>c. consputc (ucast c))) (\<lambda>_.
     whenM l (release ConsLk))))"

section \<open>The process listing\<close>

definition state_name :: "procstate \<Rightarrow> u8 list" where
  "state_name st = bytes (case st of UNUSED \<Rightarrow> ''unused'' | EMBRYO \<Rightarrow> ''embryo'' | SLEEPING \<Rightarrow> ''sleep ''
     | RUNNABLE \<Rightarrow> ''runble'' | RUNNING \<Rightarrow> ''run   '' | ZOMBIE \<Rightarrow> ''zombie'')"

text \<open>The return addresses \<open>getcallerpcs\<close> finds on the kernel stack of process \<open>i\<close> are \<open>kpcs\<close>.\<close>

definition procdump :: "('x cst_scheme, unit) sm" where
  "procdump = forM [0..<NPROC] (\<lambda>i.
     bind (gets (\<lambda>s. procs (core s) ! i)) (\<lambda>p.
     if state p = UNUSED then ret () else
     bind (cprintf (bytes ''%d %s %s'') [Word (pid p), Str (Some (state_name (state p))), Str (Some (takeWhile (\<lambda>c. c \<noteq> 0) (pname p)))]) (\<lambda>_.
     bind (whenM (state p = SLEEPING) (bind (gets (\<lambda>s. takeWhile (\<lambda>pc. pc \<noteq> 0) (take 10 (kpcs (cns s) i)))) (\<lambda>pcs.
       forM pcs (\<lambda>pc. cprintf (bytes '' %p'') [Word pc])))) (\<lambda>_.
     cprintf [10] []))))"

section \<open>Input\<close>

definition uartgetc :: "('x cst_scheme, int) sm" where
  "uartgetc = bind (gets cns) (\<lambda>k.
     if \<not> uart k then ret (- 1) else
     case uartin k of [] \<Rightarrow> ret (- 1)
     | c # cs \<Rightarrow> bind (upd_cns (\<lambda>k. k\<lparr>uartin := cs\<rparr>)) (\<lambda>_. ret (uint c)))"

text \<open>\<open>kill_line\<close> is the loop for control-U; its fuel is the number of characters that can be erased.\<close>

definition erase :: "('x cst_scheme, unit) sm" where
  "erase = bind (upd_cns (\<lambda>k. k\<lparr>ie := ie k - 1\<rparr>)) (\<lambda>_. consputc BACKSPACE)"

primrec kill_line :: "nat \<Rightarrow> ('x cst_scheme, unit) sm" where
  "kill_line 0 = ret ()"
| "kill_line (Suc n) = bind (gets cns) (\<lambda>k.
     if ie k \<noteq> iw k \<and> ibuf k ! slot INPUT_BUF (ie k - 1) \<noteq> 10 then bind erase (\<lambda>_. kill_line n) else ret ())"

text \<open>The \<open>switch\<close> of \<open>consoleintr\<close>: the result is the new value of \<open>doprocdump\<close>.\<close>

definition cons_char :: "int \<Rightarrow> bool \<Rightarrow> ('x cst_scheme, bool) sm" where
  "cons_char c dump = bind (gets cns) (\<lambda>k.
     if c = 16 then ret True
     else if c = 21 then bind (kill_line (unat (ie k - iw k))) (\<lambda>_. ret dump)
     else if c = 8 \<or> c = 127 then bind (whenM (ie k \<noteq> iw k) erase) (\<lambda>_. ret dump)
     else if c \<noteq> 0 \<and> unat (ie k - ir k) < INPUT_BUF then
       let c = (if c = 13 then 10 else c) in
       bind (upd_cns (\<lambda>k. k\<lparr>ibuf := (ibuf k)[slot INPUT_BUF (ie k) := of_int c], ie := ie k + 1\<rparr>)) (\<lambda>_.
       bind (consputc (of_int c)) (\<lambda>_.
       bind (gets cns) (\<lambda>k.
       bind (whenM (c = 10 \<or> c = 4 \<or> ie k = ir k + of_nat INPUT_BUF)
         (bind (upd_cns (\<lambda>k. k\<lparr>iw := ie k\<rparr>)) (\<lambda>_. wakeup ChInput))) (\<lambda>_.
       ret dump))))
     else ret dump)"

text \<open>
  The loop over the characters \<open>getc\<close> delivers. Both controllers give one byte per call; the fuel is one
  more than the bytes that wait.
\<close>

primrec cons_loop :: "nat \<Rightarrow> ('x cst_scheme, int) sm \<Rightarrow> bool \<Rightarrow> ('x cst_scheme, bool) sm" where
  "cons_loop 0 getc dump = fault ''consoleintr: fuel''"
| "cons_loop (Suc n) getc dump = bind getc (\<lambda>c.
     if c < 0 then ret dump else bind (cons_char c dump) (\<lambda>dump. cons_loop n getc dump))"

definition consoleintr :: "nat \<Rightarrow> ('x cst_scheme, int) sm \<Rightarrow> ('x cst_scheme, unit) sm" where
  "consoleintr n getc = bind (acquire ConsLk) (\<lambda>_.
     bind (cons_loop (n + 1) getc False) (\<lambda>dump.
     bind (release ConsLk) (\<lambda>_.
     whenM dump procdump)))"

definition uartintr :: "('x cst_scheme, unit) sm" where
  "uartintr = bind (gets (\<lambda>s. length (uartin (cns s)))) (\<lambda>n. consoleintr n uartgetc)"

section \<open>The keyboard\<close>

definition key_table :: "u8 list \<Rightarrow> (nat \<times> u8) list \<Rightarrow> u8 list" where
  "key_table row kvs = fold (\<lambda>(i, v) t. t[i := v]) kvs (row @ replicate (256 - length row) 0)"

definition shiftcode :: "u8 list" where
  "shiftcode = key_table [] [(0x1D, 2), (0x2A, 1), (0x36, 1), (0x38, 4), (0x9D, 2), (0xB8, 4)]"

definition togglecode :: "u8 list" where
  "togglecode = key_table [] [(0x3A, 8), (0x45, 16), (0x46, 32)]"

text \<open>The keys of the keypad and the cursor keys, the same in all three maps.\<close>

definition pad_keys :: "(nat \<times> u8) list" where
  "pad_keys = [(0xC8, 0xE2), (0xD0, 0xE3), (0xC9, 0xE6), (0xD1, 0xE7), (0xCB, 0xE4), (0xCD, 0xE5),
     (0x97, 0xE0), (0xCF, 0xE1), (0xD2, 0xE8), (0xD3, 0xE9)]"

definition normalmap :: "u8 list" where
  "normalmap = key_table ([0, 0x1B] @ bytes ''1234567890-='' @ [8, 9] @ bytes ''qwertyuiop[]'' @ [10, 0] @
     bytes ''asdfghjkl;'' @ [39, 96, 0, 92] @ bytes ''zxcvbnm,./'' @ [0, 42, 0, 32] @ replicate 13 0 @
     bytes ''789-456+1230.'') ([(0x9C, 10), (0xB5, 47)] @ pad_keys)"

definition shiftmap :: "u8 list" where
  "shiftmap = key_table ([0, 0x1B] @ bytes ''!@#$%^&*()_+'' @ [8, 9] @ bytes ''QWERTYUIOP{}'' @ [10, 0] @
     bytes ''ASDFGHJKL:'' @ [34, 126, 0, 124] @ bytes ''ZXCVBNM<>?'' @ [0, 42, 0, 32] @ replicate 13 0 @
     bytes ''789-456+1230.'') ([(0x9C, 10), (0xB5, 47)] @ pad_keys)"

definition ctl :: "u8 \<Rightarrow> u8" where
  "ctl c = c - 64"

definition ctlmap :: "u8 list" where
  "ctlmap = key_table (replicate 16 0 @ map ctl (bytes ''QWERTYUIOP'') @ [0, 0, 13, 0] @
     map ctl (bytes ''ASDFGHJKL'') @ [0, 0, 0, 0, ctl 92] @ map ctl (bytes ''ZXCVBNM'') @ [0, 0, ctl 47, 0, 0])
     ([(0x9C, 13), (0xB5, ctl 47)] @ pad_keys)"

text \<open>\<open>kbd_step\<close>: what \<open>kbdgetc\<close> makes of a scan code, and the new \<open>shift\<close>.\<close>

definition kbd_step :: "u32 \<Rightarrow> u32 \<Rightarrow> u32 \<times> u32" where
  "kbd_step shift data =
    (if data = 0xE0 then (0, shift OR 0x40)
     else if data AND 0x80 \<noteq> 0 then
       (let data = (if shift AND 0x40 \<noteq> 0 then data else data AND 0x7F) in
        (0, shift AND NOT (ucast (shiftcode ! unat data) OR 0x40)))
     else
       (let (data, shift) = (if shift AND 0x40 \<noteq> 0 then (data OR 0x80, shift AND NOT 0x40) else (data, shift));
            shift = shift OR ucast (shiftcode ! unat data);
            shift = shift XOR ucast (togglecode ! unat data);
            c = ucast ((if shift AND 3 = 0 then normalmap else if shift AND 3 = 1 then shiftmap else ctlmap) ! unat data) in
        (if shift AND 8 \<noteq> 0 then (if 97 \<le> c \<and> c \<le> 122 then c - 32 else if 65 \<le> c \<and> c \<le> 90 then c + 32 else c) else c,
         shift)))"

definition kbdgetc :: "('x cst_scheme, int) sm" where
  "kbdgetc = bind (gets cns) (\<lambda>k.
     case kbdin k of [] \<Rightarrow> ret (- 1)
     | d # ds \<Rightarrow> (let (c, sh) = kbd_step (kshift k) (ucast d) in
         bind (upd_cns (\<lambda>k. k\<lparr>kbdin := ds, kshift := sh\<rparr>)) (\<lambda>_. ret (sint c))))"

definition kbdintr :: "('x cst_scheme, unit) sm" where
  "kbdintr = bind (gets (\<lambda>s. length (kbdin (cns s)))) (\<lambda>n. consoleintr n kbdgetc)"

section \<open>Reading a line\<close>

text \<open>
  The loop of \<open>consoleread\<close> without its waits: it takes characters until \<open>n\<close> are there, a line ends, or the
  buffer is empty. \<open>acc\<close> are the characters stored so far, \<open>target\<close> the number asked for; the last
  component tells whether the loop is over.
\<close>

primrec cons_take :: "nat \<Rightarrow> nat \<Rightarrow> u8 list \<Rightarrow> console \<Rightarrow> console \<times> u8 list \<times> nat \<times> bool" where
  "cons_take target 0 acc k = (k, acc, 0, True)"
| "cons_take target (Suc n) acc k = (if ir k = iw k then (k, acc, Suc n, False)
     else let c = ibuf k ! slot INPUT_BUF (ir k); k' = k\<lparr>ir := ir k + 1\<rparr> in
       if c = 4 then (if Suc n < target then k else k', acc, Suc n, True)
       else if c = 10 then (k', acc @ [c], n, True)
       else cons_take target n (acc @ [c]) k')"

section \<open>The cursor stays on the screen\<close>

text \<open>
  \<open>shown k k'\<close>: from \<open>k\<close> to \<open>k'\<close> only the screen and the serial output have changed, and the cursor is on one of
  the first 24 rows.
\<close>

definition shown :: "console \<Rightarrow> console \<Rightarrow> bool" where
  "shown k k' \<longleftrightarrow> unat (cursor k') < 24 * 80 \<and> (\<exists>m p u. k' = k\<lparr>crt := m, cursor := p, uartout := u\<rparr>)"

lemma shownD: "shown k k' \<Longrightarrow> unat (cursor k') < 24 * 80 \<and> locking k' = locking k \<and> panicked k' = panicked k \<and> ibuf k' = ibuf k \<and> ir k' = ir k \<and>
    iw k' = iw k \<and> ie k' = ie k \<and> uart k' = uart k \<and> uartin k' = uartin k \<and> kbdin k' = kbdin k \<and> kshift k' = kshift k \<and> kpcs k' = kpcs k"
  by (auto simp: shown_def)

lemma shown_trans: "shown k k' \<Longrightarrow> shown k' k'' \<Longrightarrow> shown k k''"
  unfolding shown_def by auto blast

lemma shownI: "unat p < 24 * 80 \<Longrightarrow> shown k (k\<lparr>crt := m, cursor := p, uartout := u\<rparr>)"
  by (auto simp: shown_def)

lemma unat_u16: "n < 65536 \<Longrightarrow> unat (of_nat n :: u16) = n"
  by (simp add: unat_of_nat)

lemma cursor_crt: "k\<lparr>cursor := p, crt := m\<rparr> = k\<lparr>crt := m, cursor := p\<rparr>" for k :: console
  by simp

lemma cgaputc_wp:
  assumes "unat (cursor (cns s)) < 24 * 80"
    and "\<And>m p. unat p < 24 * 80 \<Longrightarrow> Q () (s\<lparr>cns := (cns s)\<lparr>crt := m, cursor := p\<rparr>\<rparr>)"
  shows "wp (cgaputc c) Q s"
proof -
  define p0 where "p0 = unat (cursor (cns s))"
  define pos where "pos = (if c = 10 then p0 + (80 - p0 mod 80) else if c = BACKSPACE then p0 - 1 else p0 + 1)"
  have p0: "p0 < 1920" using assms(1) by (simp add: p0_def)
  have m: "p0 div 80 < 24" using p0 by (simp add: div_less_iff_less_mult)
  have "p0 + (80 - p0 mod 80) = 80 * (p0 div 80 + 1)" by presburger
  then have pos: "pos \<le> 1920" using p0 m by (auto simp: pos_def)
  define q where "q = (if pos div 80 \<ge> 24 then pos - 80 else pos)"
  have q: "q < 1920" using pos by (auto simp: q_def not_le div_less_iff_less_mult)
  have u: "unat (of_nat q :: u16) < 24 * 80" using q by (simp add: unat_u16)
  have r: "Q () (s\<lparr>cns := (cns s)\<lparr>crt := m, cursor := of_nat q\<rparr>\<rparr>)" for m
    by (rule assms(2) [OF u])
  have r': "Q () (s\<lparr>cns := (cns s)\<lparr>cursor := of_nat q, crt := m\<rparr>\<rparr>)" for m
    unfolding cursor_crt by (rule r)
  show ?thesis
    unfolding cgaputc_def wp_bind wp_gets p0_def [symmetric] pos_def [symmetric] Let_def
    using pos by (simp add: wp_whenM wp_bind upd_cns_def wp_modify q_def [symmetric] r r' cong: if_cong)
qed

lemma uartputc_wp:
  assumes "\<And>u. Q () (s\<lparr>cns := (cns s)\<lparr>uartout := u\<rparr>\<rparr>)"
  shows "wp (uartputc c) Q s"
proof -
  have "s\<lparr>cns := (cns s)\<lparr>uartout := uartout (cns s)\<rparr>\<rparr> = s" by simp
  with assms [of "uartout (cns s)"] assms show ?thesis
    by (simp add: uartputc_def wp_bind wp_gets wp_whenM upd_cns_def wp_modify)
qed

lemma consputc_wp:
  assumes "unat (cursor (cns s)) < 24 * 80" and "\<not> panicked (cns s)"
    and "\<And>k. shown (cns s) k \<Longrightarrow> Q () (s\<lparr>cns := k\<rparr>)"
  shows "wp (consputc c) Q s"
proof -
  have fin: "wp (cgaputc c') Q (s\<lparr>cns := (cns s)\<lparr>uartout := u\<rparr>\<rparr>)" for u c'
  proof (rule cgaputc_wp)
    fix m and p :: u16 assume "unat p < 24 * 80"
    then have "shown (cns s) ((cns s)\<lparr>crt := m, cursor := p, uartout := u\<rparr>)" by (rule shownI)
    then have "Q () (s\<lparr>cns := (cns s)\<lparr>crt := m, cursor := p, uartout := u\<rparr>\<rparr>)" by (rule assms(3))
    moreover have "s\<lparr>cns := (cns s)\<lparr>uartout := u\<rparr>, cns := (cns (s\<lparr>cns := (cns s)\<lparr>uartout := u\<rparr>\<rparr>))\<lparr>crt := m, cursor := p\<rparr>\<rparr>
      = s\<lparr>cns := (cns s)\<lparr>crt := m, cursor := p, uartout := u\<rparr>\<rparr>" by simp
    ultimately show "Q () (s\<lparr>cns := (cns s)\<lparr>uartout := u\<rparr>, cns := (cns (s\<lparr>cns := (cns s)\<lparr>uartout := u\<rparr>\<rparr>))\<lparr>crt := m, cursor := p\<rparr>\<rparr>)"
      by (simp only:)
  qed (use assms(1) in simp)
  show ?thesis
    unfolding consputc_def wp_bind wp_gets
    using assms(2) by (auto simp: wp_bind intro!: uartputc_wp fin)
qed

section \<open>The input ring is a line editor\<close>

interpretation cring: ring_buffer INPUT_BUF
  by unfold_locales (simp_all add: INPUT_BUF_def)

text \<open>The characters ready for \<open>consoleread\<close>, and the line being edited.\<close>

definition ready :: "console \<Rightarrow> u8 list" where
  "ready k = content INPUT_BUF (ibuf k) (ir k) (unat (iw k - ir k))"

definition editing :: "console \<Rightarrow> u8 list" where
  "editing k = content INPUT_BUF (ibuf k) (iw k) (unat (ie k - iw k))"

definition cons_ok :: "console \<Rightarrow> bool" where
  "cons_ok k \<longleftrightarrow> length (ibuf k) = INPUT_BUF \<and> unat (iw k - ir k) + unat (ie k - iw k) \<le> INPUT_BUF \<and> 10 \<notin> set (editing k) \<and>
     unat (cursor k) < 24 * 80 \<and> \<not> panicked k"

text \<open>The abstract editor: what a character does to the two lists.\<close>

definition edit :: "int \<Rightarrow> u8 list \<times> u8 list \<Rightarrow> u8 list \<times> u8 list" where
  "edit c = (\<lambda>(rdy, ed).
     if c = 16 then (rdy, ed)
     else if c = 21 then (rdy, [])
     else if c = 8 \<or> c = 127 then (rdy, butlast ed)
     else if c \<noteq> 0 \<and> length rdy + length ed < INPUT_BUF then
       let c = (if c = 13 then 10 else c) in
       if c = 10 \<or> c = 4 \<or> length rdy + length ed + 1 = INPUT_BUF then (rdy @ ed @ [of_int c], [])
       else (rdy, ed @ [of_int c])
     else (rdy, ed))"

lemma length_ready [simp]: "length (ready k) = unat (iw k - ir k)" and length_editing [simp]: "length (editing k) = unat (ie k - iw k)"
  by (simp_all add: ready_def editing_def)

lemma unat_add3: "unat (w - r) + unat (e - w) < 2 ^ 32 \<Longrightarrow> unat (e - r) = unat (w - r) + unat (e - w)" for e w r :: u32
proof -
  assume a: "unat (w - r) + unat (e - w) < 2 ^ 32"
  have "e - r = (w - r) + (e - w)" by simp
  then have "unat (e - r) = unat ((w - r) + (e - w))" by (rule arg_cong)
  also have "\<dots> = unat (w - r) + unat (e - w)" unfolding unat_word_ariths using a by simp
  finally show ?thesis .
qed

lemma cons_ok_total: "cons_ok k \<Longrightarrow> unat (ie k - ir k) = length (ready k) + length (editing k)"
proof -
  assume "cons_ok k"
  then have "unat (iw k - ir k) + unat (ie k - iw k) \<le> 128" by (simp add: cons_ok_def INPUT_BUF_def)
  then show ?thesis unfolding length_ready length_editing by (intro unat_add3) simp
qed

lemma shown_cons_ok: "shown k k' \<Longrightarrow> cons_ok k \<Longrightarrow> cons_ok k' \<and> ready k' = ready k \<and> editing k' = editing k"
  using shownD [of k k'] by (simp add: cons_ok_def ready_def editing_def)

text \<open>Erasing the last character of the line.\<close>

lemma erase_ring:
  assumes "cons_ok k" and "ie k \<noteq> iw k"
  shows "cons_ok (k\<lparr>ie := ie k - 1\<rparr>) \<and> ready (k\<lparr>ie := ie k - 1\<rparr>) = ready k \<and> editing (k\<lparr>ie := ie k - 1\<rparr>) = butlast (editing k)
    \<and> ibuf k ! slot INPUT_BUF (ie k - 1) = last (editing k) \<and> editing k \<noteq> []"
proof -
  have z: "0 < unat (ie k - iw k)" using assms(2) by (simp add: unat_gt_0)
  then obtain n where n: "unat (ie k - iw k) = Suc n" by (cases "unat (ie k - iw k)") auto
  have e: "ie k - 1 - iw k = ie k - iw k - 1" by simp
  have s: "unat (ie k - 1 - iw k) = n" unfolding e using z n by (subst unat_minus_one) auto
  have "of_nat n = ie k - 1 - iw k" unfolding s [symmetric] by simp
  then have l: "iw k + of_nat n = ie k - 1" by simp
  have ed: "editing k = content INPUT_BUF (ibuf k) (iw k) n @ [ibuf k ! slot INPUT_BUF (ie k - 1)]"
    unfolding editing_def n cring.content_snoc l ..
  have ed': "editing (k\<lparr>ie := ie k - 1\<rparr>) = content INPUT_BUF (ibuf k) (iw k) n"
    unfolding editing_def using s by simp
  have "set (butlast (editing k)) \<subseteq> set (editing k)" by (auto dest: in_set_butlastD)
  with assms(1) s n ed ed' show ?thesis by (auto simp: cons_ok_def ready_def)
qed

text \<open>Appending a character to the line.\<close>

lemma append_ring:
  fixes k :: console and c :: u8
  assumes "cons_ok k" and "length (ready k) + length (editing k) < INPUT_BUF"
  defines "k' \<equiv> k\<lparr>ibuf := (ibuf k)[slot INPUT_BUF (ie k) := c], ie := ie k + 1\<rparr>"
  shows "ready k' = ready k" and "editing k' = editing k @ [c]" and "length (ibuf k') = INPUT_BUF"
    and "unat (iw k' - ir k') + unat (ie k' - iw k') = length (ready k) + length (editing k) + 1"
    and "content INPUT_BUF (ibuf k') (ir k) (length (ready k) + length (editing k) + 1) = ready k @ editing k @ [c]"
proof -
  let ?r = "unat (iw k - ir k)" and ?e = "unat (ie k - iw k)"
  have len: "length (ibuf k) = INPUT_BUF" using assms(1) by (simp add: cons_ok_def)
  have w: "iw k + of_nat ?e = ie k" "ir k + of_nat ?r = iw k" "ir k + of_nat (?r + ?e) = ie k" by simp_all
  have s: "unat (ie k + 1 - iw k) = Suc ?e"
    using assms(2) by (subst unat_Suc_diff) (simp_all add: INPUT_BUF_def)
  show r: "ready k' = ready k"
    using cring.content_put [of "?r + ?e" "ibuf k" ?r "ir k" c] len assms(2) by (simp add: ready_def k'_def w(3))
  show e: "editing k' = editing k @ [c]"
    using cring.content_push [of ?e "ibuf k" "iw k" c] len assms(2) by (simp add: editing_def k'_def s w(1))
  show "length (ibuf k') = INPUT_BUF" using len by (simp add: k'_def)
  show "unat (iw k' - ir k') + unat (ie k' - iw k') = length (ready k) + length (editing k) + 1" by (simp add: k'_def s)
  have "content INPUT_BUF (ibuf k') (ir k) (?r + Suc ?e) = ready k' @ editing k'"
    unfolding cring.content_add by (simp add: ready_def editing_def k'_def s w(2))
  with r e show "content INPUT_BUF (ibuf k') (ir k) (length (ready k) + length (editing k) + 1) = ready k @ editing k @ [c]" by simp
qed

lemma full_iff: "e = r + of_nat INPUT_BUF \<longleftrightarrow> unat (e - r) = INPUT_BUF" for e r :: u32
proof -
  have "e = r + of_nat INPUT_BUF \<longleftrightarrow> e - r = of_nat INPUT_BUF" by (auto simp: algebra_simps)
  also have "\<dots> \<longleftrightarrow> unat (e - r) = unat (of_nat INPUT_BUF :: u32)" by (simp only: word_unat_eq_iff)
  also have "unat (of_nat INPUT_BUF :: u32) = INPUT_BUF" by (simp add: INPUT_BUF_def)
  finally show ?thesis .
qed

definition view :: "console \<Rightarrow> u8 list \<times> u8 list" where
  "view k = (ready k, editing k)"

lemma erase_wp:
  assumes "cons_ok (cns s)" and "ie (cns s) \<noteq> iw (cns s)"
    and "\<And>k. cons_ok k \<Longrightarrow> ready k = ready (cns s) \<Longrightarrow> editing k = butlast (editing (cns s)) \<Longrightarrow>
      uartin k = uartin (cns s) \<Longrightarrow> uart k = uart (cns s) \<Longrightarrow> iw k = iw (cns s) \<Longrightarrow> ie k = ie (cns s) - 1 \<Longrightarrow> Q () (s\<lparr>cns := k\<rparr>)"
  shows "wp erase Q s"
proof -
  let ?k = "(cns s)\<lparr>ie := ie (cns s) - 1\<rparr>"
  note e = erase_ring [OF assms(1,2)]
  have "wp (consputc BACKSPACE) Q (s\<lparr>cns := ?k\<rparr>)"
  proof (rule consputc_wp)
    fix k assume "shown (cns (s\<lparr>cns := ?k\<rparr>)) k"
    then have s: "shown ?k k" by simp
    have "Q () (s\<lparr>cns := k\<rparr>)"
      by (rule assms(3)) (use shown_cons_ok [OF s] shownD [OF s] e in auto)
    then show "Q () (s\<lparr>cns := ?k, cns := k\<rparr>)" by simp
  qed (use assms(1) in \<open>auto simp: cons_ok_def\<close>)
  then show ?thesis by (simp add: erase_def wp_bind upd_cns_def wp_modify)
qed

lemma kill_line_wp:
  assumes "cons_ok (cns s)" and "n = unat (ie (cns s) - iw (cns s))"
    and "\<And>k. cons_ok k \<Longrightarrow> view k = (ready (cns s), []) \<Longrightarrow> uartin k = uartin (cns s) \<Longrightarrow> uart k = uart (cns s) \<Longrightarrow> Q () (s\<lparr>cns := k\<rparr>)"
  shows "wp (kill_line n) Q s"
  using assms
proof (induction n arbitrary: s)
  case 0
  then have "view (cns s) = (ready (cns s), [])" by (simp add: view_def editing_def)
  with 0 have "Q () (s\<lparr>cns := cns s\<rparr>)" by blast
  then show ?case by (simp add: wp_ret)
next
  case (Suc n)
  let ?k = "cns s"
  have ne: "ie ?k \<noteq> iw ?k" using Suc.prems(2) by auto
  have nl: "ibuf ?k ! slot INPUT_BUF (ie ?k - 1) \<noteq> 10"
    using erase_ring [OF Suc.prems(1) ne] Suc.prems(1) last_in_set [of "editing ?k"] unfolding cons_ok_def by metis
  have "wp erase (\<lambda>_. wp (kill_line n) Q) s"
  proof (rule erase_wp [OF Suc.prems(1) ne])
    fix k assume k: "cons_ok k" "ready k = ready ?k" "editing k = butlast (editing ?k)" "uartin k = uartin ?k" "uart k = uart ?k"
      "iw k = iw ?k" "ie k = ie ?k - 1"
    have n: "n = unat (ie k - iw k)"
      using Suc.prems(2) k(3) by (metis diff_Suc_1 length_butlast length_editing)
    show "wp (kill_line n) Q (s\<lparr>cns := k\<rparr>)"
      by (rule Suc.IH) (use k n Suc.prems(3) in auto)
  qed
  then show ?case using ne nl by (simp add: wp_bind wp_gets)
qed

lemma wp_ret_fun: "wp (ret x) Q = Q x"
  by (rule ext) (simp add: wp_ret)

lemma uint_eq_10: "uint (10 :: u8) = 10" and uint_numeral_16: "uint x = 16 \<Longrightarrow> x = (16 :: u8)"
  by (simp_all add: word_uint_eq_iff)

text \<open>One character: the ring follows the editor, and at most sleeping readers are woken.\<close>

lemma cons_char_wp:
  assumes "cons_ok (cns s)" and "lk_ok (core s)" and "slk (core s) PtableLk = free_lk" and "popped (core s) = core s"
    and c: "0 \<le> c" "c < 256" and post: "\<And>b k ps. cons_ok k \<Longrightarrow> view k = edit c (view (cns s)) \<Longrightarrow> uartin k = uartin (cns s) \<Longrightarrow> uart k = uart (cns s) \<Longrightarrow>
      (b \<longleftrightarrow> dump \<or> c = 16) \<Longrightarrow> Q b (s\<lparr>cns := k, core := set_sp (slp (core s)) ps (core s)\<rparr>)"
  shows "wp (cons_char c dump) Q s"
proof -
  let ?k = "cns s"
  have same: "Q b (s\<lparr>cns := k\<rparr>)" if "cons_ok k" "view k = edit c (view ?k)" "uartin k = uartin ?k" "uart k = uart ?k" "b \<longleftrightarrow> dump \<or> c = 16" for b k
    using post [OF that, of "procs (core s)"] by simp
  have id: "Q b s" if "edit c (view ?k) = view ?k" "b \<longleftrightarrow> dump \<or> c = 16" for b
    using same [of ?k b] assms(1) that by simp
  consider "c = 16" | "c = 21" | "c = 8 \<or> c = 127" "ie ?k = iw ?k" | "c = 8 \<or> c = 127" "ie ?k \<noteq> iw ?k"
    | "c \<notin> {16, 21, 8, 127}" "c = 0 \<or> \<not> length (ready ?k) + length (editing ?k) < INPUT_BUF"
    | "c \<notin> {16, 21, 8, 127}" "c \<noteq> 0" "length (ready ?k) + length (editing ?k) < INPUT_BUF" by fastforce
  then show ?thesis
  proof cases
    case 1
    then show ?thesis using id by (simp add: cons_char_def wp_bind wp_gets wp_ret edit_def view_def)
  next
    case 2
    have "wp (kill_line (unat (ie ?k - iw ?k))) (\<lambda>_. Q dump) s"
      by (rule kill_line_wp [OF assms(1) refl]) (use 2 in \<open>auto intro!: same simp: edit_def view_def\<close>)
    then show ?thesis using 2 by (simp add: cons_char_def wp_bind wp_gets wp_ret)
  next
    case 3
    then have "editing ?k = []" by (simp add: editing_def)
    then show ?thesis using 3 id by (auto simp: cons_char_def wp_bind wp_gets wp_ret wp_whenM edit_def view_def)
  next
    case 4
    have "wp erase (\<lambda>_. Q dump) s"
      by (rule erase_wp [OF assms(1) 4(2)]) (use 4 in \<open>auto intro!: same simp: edit_def view_def\<close>)
    then show ?thesis using 4 by (auto simp: cons_char_def wp_bind wp_gets wp_ret wp_whenM)
  next
    case 5
    then show ?thesis using id cons_ok_total [OF assms(1)]
      by (auto simp: cons_char_def wp_bind wp_gets wp_ret edit_def view_def)
  next
    case 6
    define d where "d = (if c = 13 then 10 else c)"
    let ?k1 = "?k\<lparr>ibuf := (ibuf ?k)[slot INPUT_BUF (ie ?k) := of_int d], ie := ie ?k + 1\<rparr>"
    note a = append_ring [OF assms(1) 6(3), of "of_int d"]
    have d: "of_int d = (10 :: u8) \<longleftrightarrow> d = 10"
    proof -
      have "uint (of_int d :: u8) = d" using c by (simp add: d_def uint_word_of_int)
      then have "of_int d = (10 :: u8) \<Longrightarrow> d = 10" by (metis uint_eq_10)
      then show ?thesis by auto
    qed
    have e: "edit c (view ?k) = (if d = 10 \<or> d = 4 \<or> length (ready ?k) + length (editing ?k) + 1 = INPUT_BUF
        then (ready ?k @ editing ?k @ [of_int d], []) else (ready ?k, editing ?k @ [of_int d]))"
      using 6 by (auto simp: edit_def view_def d_def Let_def)
    have "wp (consputc (of_int d)) (\<lambda>_. wp (bind (gets cns) (\<lambda>k.
       bind (whenM (d = 10 \<or> d = 4 \<or> ie k = ir k + of_nat INPUT_BUF)
         (bind (upd_cns (\<lambda>k. k\<lparr>iw := ie k\<rparr>)) (\<lambda>_. wakeup ChInput))) (\<lambda>_. ret dump))) Q) (s\<lparr>cns := ?k1\<rparr>)"
    proof (rule consputc_wp)
      fix k assume "shown (cns (s\<lparr>cns := ?k1\<rparr>)) k"
      then have k: "shown ?k1 k" by simp
      note kd = shownD [OF k]
      have tot: "unat (ie k - ir k) = length (ready ?k) + length (editing ?k) + 1"
        using unat_add3 [of "iw k" "ir k" "ie k"] a(4) 6(3) kd by (simp add: INPUT_BUF_def)
      have full: "ie k = ir k + of_nat INPUT_BUF \<longleftrightarrow> length (ready ?k) + length (editing ?k) + 1 = INPUT_BUF"
        unfolding tot [symmetric] by (rule full_iff)
      let ?k2 = "k\<lparr>iw := ie k\<rparr>"
      have v2: "view ?k2 = (ready ?k @ editing ?k @ [of_int d], [])"
        using a(5) kd tot by (simp add: view_def ready_def editing_def)
      have ok2: "cons_ok ?k2"
        using a(3) kd tot 6(3) assms(1) by (simp add: cons_ok_def editing_def)
      have v1: "view k = (ready ?k, editing ?k @ [of_int d])"
        using a(1,2) kd by (simp add: view_def ready_def editing_def)
      have ok1: "d \<noteq> 10 \<Longrightarrow> cons_ok k"
        using a(3,4) kd 6(3) assms(1) v1 d by (auto simp: cons_ok_def view_def)
      have "wp (wakeup ChInput) (\<lambda>_. Q dump) (s\<lparr>cns := ?k2\<rparr>)" if "d = 10 \<or> d = 4 \<or> ie k = ir k + of_nat INPUT_BUF"
      proof (rule wakeup_wp)
        have "Q dump (s\<lparr>cns := ?k2, core := set_sp (slp (core s)) (woken ChInput (procs (core s))) (core s)\<rparr>)"
          by (rule post) (use ok2 v2 e that full kd 6 in auto)
        then show "Q dump (s\<lparr>cns := ?k2\<rparr>\<lparr>core := set_sp (slp (core (s\<lparr>cns := ?k2\<rparr>))) (woken ChInput (procs (core (s\<lparr>cns := ?k2\<rparr>)))) (popped (core (s\<lparr>cns := ?k2\<rparr>)))\<rparr>)"
          using assms(4) by simp
      qed (use assms in simp_all)
      moreover have "Q dump (s\<lparr>cns := k\<rparr>)" if "\<not> (d = 10 \<or> d = 4 \<or> ie k = ir k + of_nat INPUT_BUF)"
        by (rule same) (use ok1 v1 e that full kd 6 in auto)
      ultimately show "wp (bind (gets cns) (\<lambda>k.
         bind (whenM (d = 10 \<or> d = 4 \<or> ie k = ir k + of_nat INPUT_BUF)
           (bind (upd_cns (\<lambda>k. k\<lparr>iw := ie k\<rparr>)) (\<lambda>_. wakeup ChInput))) (\<lambda>_. ret dump))) Q (s\<lparr>cns := ?k1, cns := k\<rparr>)"
        by (simp add: wp_bind wp_gets wp_whenM wp_ret upd_cns_def wp_modify)
    qed (use assms(1) in \<open>auto simp: cons_ok_def\<close>)
    then have "wp (consputc (of_int d)) (\<lambda>_ t. wp (whenM (d = 10 \<or> d = 4 \<or> ie (cns t) = ir (cns t) + of_nat INPUT_BUF)
         (bind (upd_cns (\<lambda>k. k\<lparr>iw := ie k\<rparr>)) (\<lambda>_. wakeup ChInput))) (\<lambda>_. Q dump) t) (s\<lparr>cns := ?k1\<rparr>)"
      by (rule wp_mono) (simp add: wp_bind wp_gets wp_whenM wp_ret upd_cns_def wp_modify split: if_splits)
    then show ?thesis using 6 cons_ok_total [OF assms(1)]
      by (simp add: cons_char_def wp_bind wp_gets upd_cns_def wp_modify wp_ret_fun Let_def flip: d_def)
  qed
qed

lemma wp_uartgetc:
  "uart (cns s) \<Longrightarrow> wp uartgetc Q s \<longleftrightarrow>
    (case uartin (cns s) of [] \<Rightarrow> Q (- 1) s | c # cs \<Rightarrow> Q (uint c) (s\<lparr>cns := (cns s)\<lparr>uartin := cs\<rparr>\<rparr>))"
  by (simp add: uartgetc_def wp_bind wp_gets wp_ret upd_cns_def wp_modify split: list.split)

lemma cons_loop_uart:
  assumes "cons_ok (cns s)" and "uart (cns s)" and "core s = set_sp g p (acquired ConsLk c)" and "lk_ok c" and "slk c PtableLk = free_lk"
    and "16 \<notin> set (uartin (cns s))"
    and "\<And>k ps. cons_ok k \<Longrightarrow> view k = fold (\<lambda>x. edit (uint x)) (uartin (cns s)) (view (cns s)) \<Longrightarrow> uartin k = [] \<Longrightarrow>
      Q False (s\<lparr>cns := k, core := set_sp g ps (acquired ConsLk c)\<rparr>)"
  shows "wp (cons_loop (Suc (length (uartin (cns s)))) uartgetc False) Q s"
  using assms
proof (induction "uartin (cns s)" arbitrary: s p)
  case Nil
  have "s\<lparr>cns := cns s, core := set_sp g p (acquired ConsLk c)\<rparr> = s" using Nil.prems(3) by simp
  with Nil.prems(7) [of "cns s" p] Nil.prems(1) Nil.hyps have "Q False s" by simp
  then show ?case using Nil.prems(2) Nil.hyps by (simp add: wp_bind wp_uartgetc wp_ret del: One_nat_def)
next
  case (Cons x xs)
  let ?s = "s\<lparr>cns := (cns s)\<lparr>uartin := xs\<rparr>\<rparr>"
  have v: "view (cns ?s) = view (cns s)" "cons_ok (cns ?s)" using Cons.prems(1) by (simp_all add: view_def cons_ok_def ready_def editing_def)
  have x: "uint x \<noteq> 16" using Cons.prems(6) Cons.hyps(2) by (metis list.set_intros(1) uint_numeral_16)
  have b: "0 \<le> uint x" "uint x < 256" using unsigned_less [of x, where ?'a = int] by simp_all
  have "wp (cons_char (uint x) False) (\<lambda>d. wp (cons_loop (Suc (length xs)) uartgetc d) Q) ?s"
  proof (rule cons_char_wp)
    fix d k ps
    assume k: "cons_ok k" "view k = edit (uint x) (view (cns ?s))" "uartin k = uartin (cns ?s)" "uart k = uart (cns ?s)" "d \<longleftrightarrow> False \<or> uint x = 16"
    let ?t = "s\<lparr>cns := k, core := set_sp g ps (acquired ConsLk c)\<rparr>"
    have t: "?s\<lparr>cns := k, core := set_sp (slp (core ?s)) ps (core ?s)\<rparr> = ?t" using Cons.prems(3) by simp
    have "wp (cons_loop (Suc (length (uartin (cns ?t)))) uartgetc False) Q ?t"
    proof (rule Cons.hyps(1))
      show "xs = uartin (cns ?t)" "cons_ok (cns ?t)" "uart (cns ?t)" "core ?t = set_sp g ps (acquired ConsLk c)"
        using k Cons.prems(2) by simp_all
      show "16 \<notin> set (uartin (cns ?t))" using k(3) Cons.prems(6) by (simp flip: Cons.hyps(2))
      fix k' ps'
      assume k': "cons_ok k'" "view k' = fold (\<lambda>x. edit (uint x)) (uartin (cns ?t)) (view (cns ?t))" "uartin k' = []"
      have "Q False (s\<lparr>cns := k', core := set_sp g ps' (acquired ConsLk c)\<rparr>)"
        by (rule Cons.prems(7)) (use k' k v in \<open>simp_all flip: Cons.hyps(2)\<close>)
      then show "Q False (?t\<lparr>cns := k', core := set_sp g ps' (acquired ConsLk c)\<rparr>)" by simp
    qed (use Cons.prems in simp_all)
    then show "wp (cons_loop (Suc (length xs)) uartgetc d) Q (?s\<lparr>cns := k, core := set_sp (slp (core ?s)) ps (core ?s)\<rparr>)"
      using k x t by simp
  qed (use v b Cons.prems in \<open>simp_all\<close>)
  then show ?case unfolding Cons.hyps(2) [symmetric] list.size(4) add_Suc_right add_0_right cons_loop.simps(2) [of "Suc (length xs)"] wp_bind
      wp_uartgetc [OF Cons.prems(2)]
    using Cons.hyps(2) [symmetric] by (simp del: cons_loop.simps add: wp_bind)
qed

lemma uartintr_ready:
  assumes "quiet (core s)" and "cons_ok (cns s)" and "uart (cns s)" and "16 \<notin> set (uartin (cns s))"
  shows "\<exists>t. uartintr s = Ret () t \<and> view (cns t) = fold (\<lambda>x. edit (uint x)) (uartin (cns s)) (view (cns s)) \<and>
    uartin (cns t) = [] \<and> cons_ok (cns t)"
proof -
  let ?c = "core s"
  let ?P = "\<lambda>t. view (cns t) = fold (\<lambda>x. edit (uint x)) (uartin (cns s)) (view (cns s)) \<and> uartin (cns t) = [] \<and> cons_ok (cns t)"
  have q: "lk_ok ?c" "slk ?c l = free_lk" for l using assms(1) by (simp_all add: quiet_def)
  have rel: "wp (release ConsLk) (\<lambda>_. ?P) (s\<lparr>cns := k, core := set_sp (slp ?c) ps (acquired ConsLk ?c)\<rparr>)"
    if "?P (s\<lparr>cns := k\<rparr>)" for k ps
    using that by (subst wp_release_acquired [of _ "slp ?c" ps ConsLk ?c]) (simp_all add: q)
  have "wp (cons_loop (Suc (length (uartin (cns (s\<lparr>core := acquired ConsLk ?c\<rparr>))))) uartgetc False)
      (\<lambda>d. wp (bind (release ConsLk) (\<lambda>_. whenM d procdump)) (\<lambda>_. ?P)) (s\<lparr>core := acquired ConsLk ?c\<rparr>)"
  proof (rule cons_loop_uart [where g = "slp ?c" and p = "procs ?c" and c = ?c])
    fix k ps
    assume k: "cons_ok k" "view k = fold (\<lambda>x. edit (uint x)) (uartin (cns (s\<lparr>core := acquired ConsLk ?c\<rparr>))) (view (cns (s\<lparr>core := acquired ConsLk ?c\<rparr>)))" "uartin k = []"
    then have "wp (release ConsLk) (\<lambda>_. ?P) (s\<lparr>cns := k, core := set_sp (slp ?c) ps (acquired ConsLk ?c)\<rparr>)"
      by (intro rel) simp
    then show "wp (bind (release ConsLk) (\<lambda>_. whenM False procdump)) (\<lambda>_. ?P)
       (s\<lparr>core := acquired ConsLk ?c, cns := k, core := set_sp (slp ?c) ps (acquired ConsLk ?c)\<rparr>)"
      by (simp add: wp_bind wp_whenM)
  qed (use assms q set_sp_same [of "acquired ConsLk ?c"] in simp_all)
  then have "wp uartintr (\<lambda>_. ?P) s"
    by (simp add: uartintr_def consoleintr_def wp_bind wp_bind_fun wp_gets wp_acquire_free [OF q])
  then show ?thesis unfolding wp_iff by auto
qed

text \<open>
  C19. The serial interrupt handler is a line editor. Whatever bytes wait at the port (control-P, which lists the
  processes, aside), \<open>uartintr\<close> takes them all, returns, and leaves the input ring as the abstract editor \<open>edit\<close>
  does: characters join the line, backspace and control-U erase only the line, and newline, control-D or a full
  buffer hands the line to the readers.
\<close>

theorem uartintr_edits:
  assumes "quiet (core s)" and "cons_ok (cns s)" and "uart (cns s)" and "16 \<notin> set (uartin (cns s))"
  shows "\<exists>t. uartintr s = Ret () t \<and> (ready (cns t), editing (cns t)) = fold (\<lambda>x. edit (uint x)) (uartin (cns s)) (ready (cns s), editing (cns s)) \<and>
    uartin (cns t) = [] \<and> cons_ok (cns t)"
  using uartintr_ready [OF assms] by (simp add: view_def)

theorem uartintr_edits_witness:
  "\<exists>t. uartintr (\<lparr>core = core0, cns = console0\<lparr>uartin := [104, 106, 8, 105, 13, 108]\<rparr>\<rparr> :: cst) = Ret () t \<and>
    ready (cns t) = [104, 105, 10] \<and> editing (cns t) = [108] \<and> uartin (cns t) = [] \<and> cons_ok (cns t)"
proof -
  let ?s = "\<lparr>core = core0, cns = console0\<lparr>uartin := [104, 106, 8, 105, 13, 108]\<rparr>\<rparr> :: cst"
  have ok: "cons_ok (cns ?s)" by (simp add: cons_ok_def console0_def editing_def content_def INPUT_BUF_def)
  have v: "ready (cns ?s) = []" "editing (cns ?s) = []" by (simp_all add: ready_def editing_def console0_def)
  have "fold (\<lambda>x. edit (uint x)) (uartin (cns ?s)) ([], []) = ([104, 105, 10], [108])"
    by (simp add: edit_def INPUT_BUF_def)
  then show ?thesis using uartintr_edits [of ?s] ok quiet_core0 v
    by (simp add: console0_def)
qed

lemma ready_pop:
  assumes "ready k = x # xs"
  shows "ir k \<noteq> iw k" and "ibuf k ! slot INPUT_BUF (ir k) = x" and "ready (k\<lparr>ir := ir k + 1\<rparr>) = xs"
proof -
  have l: "unat (iw k - ir k) = Suc (length xs)" using assms length_ready [of k] by simp
  then show "ir k \<noteq> iw k" by auto
  then have "iw k - ir k \<noteq> 0" by auto
  then have "unat (iw k - (ir k + 1)) = length xs" using l unat_minus_one [of "iw k - ir k"] by (simp add: algebra_simps)
  then show "ibuf k ! slot INPUT_BUF (ir k) = x" "ready (k\<lparr>ir := ir k + 1\<rparr>) = xs"
    using assms l by (simp_all add: ready_def cring.content_Suc)
qed

lemma cons_take_line:
  assumes "ready k = xs @ 10 # ys" and "4 \<notin> set xs" and "10 \<notin> set xs" and "length xs < n"
  shows "\<exists>k'. cons_take m n acc k = (k', acc @ xs @ [10], n - Suc (length xs), True) \<and> ready k' = ys"
  using assms
proof (induction xs arbitrary: n acc k)
  case Nil
  then obtain n' where n: "n = Suc n'" by (cases n) auto
  with Nil ready_pop [of k 10 ys] show ?case by simp
next
  case (Cons x xs)
  then obtain n' where n: "n = Suc n'" by (cases n) auto
  have p: "ir k \<noteq> iw k" "ibuf k ! slot INPUT_BUF (ir k) = x" "ready (k\<lparr>ir := ir k + 1\<rparr>) = xs @ 10 # ys"
    using ready_pop [of k x "xs @ 10 # ys"] Cons.prems(1) by simp_all
  show ?case using Cons.IH [OF p(3), of n' "acc @ [x]"] Cons.prems p n by simp
qed

lemma edit_plain:
  "set line \<inter> {0, 4, 8, 10, 13, 16, 21, 127} = {} \<Longrightarrow> length rdy + length ed + length line < INPUT_BUF \<Longrightarrow>
    fold (\<lambda>x. edit (uint x)) line (rdy, ed) = (rdy, ed @ line)"
proof (induction line arbitrary: ed)
  case (Cons x line)
  have "uint x \<notin> {0, 4, 8, 10, 13, 16, 21, 127}"
    using Cons.prems(1) by (auto simp: word_uint_eq_iff)
  then have "edit (uint x) (rdy, ed) = (rdy, ed @ [x])" using Cons.prems(2) by (simp add: edit_def)
  then show ?case using Cons.IH [of "ed @ [x]"] Cons.prems by simp
qed simp

text \<open>
  C20. What is typed is what is read. A line of at most 127 ordinary characters followed by the return key, arriving
  while the input ring is empty, is accepted by \<open>uartintr\<close>; the reader's loop then returns exactly that line
  ended by a newline, and the ring is empty again.
\<close>

theorem typed_line_read:
  assumes "quiet (core s)" and "cons_ok (cns s)" and "uart (cns s)" and "ir (cns s) = iw (cns s)" and "iw (cns s) = ie (cns s)"
    and "uartin (cns s) = line @ [13]" and "set line \<inter> {0, 4, 8, 10, 13, 16, 21, 127} = {}" and "length line < 128" and "length line < n"
  shows "\<exists>t k. uartintr s = Ret () t \<and> cons_take n n [] (cns t) = (k, line @ [10], n - Suc (length line), True) \<and> ir k = iw k"
proof -
  have e: "ready (cns s) = []" "editing (cns s) = []" using assms(4,5) by (simp_all add: ready_def editing_def)
  have "fold (\<lambda>x. edit (uint x)) (line @ [13]) ([], []) = (line @ [10], [])"
    using edit_plain [of line "[]" "[]"] assms(7,8) by (simp add: INPUT_BUF_def edit_def)
  with uartintr_ready [OF assms(1-3)] obtain t where t: "uartintr s = Ret () t" "ready (cns t) = line @ 10 # []"
    using assms(6,7) e by (auto simp: view_def)
  obtain k where k: "cons_take n n [] (cns t) = (k, [] @ line @ [10], n - Suc (length line), True)" "ready k = []"
    using cons_take_line [OF t(2), of n n "[]"] assms(7,9) by blast
  have "ir k = iw k" using k(2) length_ready [of k] by (simp add: unat_eq_0 del: length_ready)
  with t(1) k(1) show ?thesis by simp
qed

theorem typed_line_read_witness:
  "\<exists>t k. uartintr (\<lparr>core = core0, cns = console0\<lparr>uartin := [108, 115, 13]\<rparr>\<rparr> :: cst) = Ret () t \<and>
    cons_take 100 100 [] (cns t) = (k, [108, 115, 10], 97, True) \<and> ir k = iw k"
proof -
  let ?s = "\<lparr>core = core0, cns = console0\<lparr>uartin := [108, 115, 13]\<rparr>\<rparr> :: cst"
  have ok: "cons_ok (cns ?s)" by (simp add: cons_ok_def console0_def editing_def content_def INPUT_BUF_def)
  show ?thesis using typed_line_read [of ?s "[108, 115]" 100] ok quiet_core0 by (simp add: console0_def)
qed

end
