(* ===== verification/Kalloc.thy ===== *)
theory Kalloc
  imports Console
begin

text \<open>
  The physical memory and its page allocator, \<^verbatim>\<open>kalloc.c\<close>. Memory is addressed by the kernel's
  virtual addresses (\<open>P2V\<close> of the physical ones), one byte per address. The free list is threaded
  through the free pages themselves: the first word of a free page is the address of the next one. Its correctness is in
  the theory \<open>Pages\<close>.
\<close>

section \<open>Memory\<close>

text \<open>
  Per processor, by its index: the page-table register, the kernel stack and the segment descriptors the
  processor uses; and addresses the linker gives: \<open>data\<close>, where the kernel's data begins, \<open>forkret\<close>, and the
  task state segment of each processor.
\<close>

record segdesc =
  sg_lim :: u32
  sg_base :: u32
  sg_type :: nat
  sg_s :: bool
  sg_dpl :: nat
  sg_db :: bool
  sg_g :: bool

record mmust =
  kpgdir :: u32
  cr3 :: "nat \<Rightarrow> u32"
  ss0 :: "nat \<Rightarrow> u16"
  esp0 :: "nat \<Rightarrow> u32"
  iomb :: "nat \<Rightarrow> u16"
  gdt :: "nat \<Rightarrow> nat \<Rightarrow> segdesc option"
  kdata :: u32
  kforkret :: u32
  tsaddr :: "nat \<Rightarrow> u32"

record kmst = cst +
  mmu :: mmust
  mem :: "u32 \<Rightarrow> u8"
  freelist :: u32
  use_lock :: bool
  kend :: u32

definition mmu0 :: mmust where
  "mmu0 = \<lparr>kpgdir = 0, cr3 = (\<lambda>_. 0), ss0 = (\<lambda>_. 0), esp0 = (\<lambda>_. 0), iomb = (\<lambda>_. 0), gdt = (\<lambda>_ _. None), kdata = 0x80108000, kforkret = 0x80103D00, tsaddr = (\<lambda>_. 0x80112800)\<rparr>"

definition PGSIZE :: nat where "PGSIZE = 4096"
definition KERNBASE :: u32 where "KERNBASE = 0x80000000"
definition PHYSTOP :: u32 where "PHYSTOP = 0xE000000"
definition EXTMEM :: u32 where "EXTMEM = 0x100000"
definition DEVSPACE :: u32 where "DEVSPACE = 0xFE000000"

definition V2P :: "u32 \<Rightarrow> u32" where "V2P a = a - KERNBASE"
definition P2V :: "u32 \<Rightarrow> u32" where "P2V a = a + KERNBASE"

definition PGROUNDUP :: "u32 \<Rightarrow> u32" where
  "PGROUNDUP a = (a + 4096 - 1) AND NOT (4096 - 1)"

definition PGROUNDDOWN :: "u32 \<Rightarrow> u32" where
  "PGROUNDDOWN a = a AND NOT (4096 - 1)"

definition ld32 :: "(u32 \<Rightarrow> u8) \<Rightarrow> u32 \<Rightarrow> u32" where
  "ld32 m a = rd32 [m a, m (a + 1), m (a + 2), m (a + 3)] 0"

text \<open>\<open>write_bytes m a bs\<close> stores the bytes \<open>bs\<close> from address \<open>a\<close> on.\<close>

definition write_bytes :: "(u32 \<Rightarrow> u8) \<Rightarrow> u32 \<Rightarrow> u8 list \<Rightarrow> u32 \<Rightarrow> u8" where
  "write_bytes m a bs = (\<lambda>x. if unat (x - a) < length bs then bs ! unat (x - a) else m x)"

definition st32 :: "(u32 \<Rightarrow> u8) \<Rightarrow> u32 \<Rightarrow> u32 \<Rightarrow> u32 \<Rightarrow> u8" where
  "st32 m a v = write_bytes m a (le32 v)"

definition fill :: "(u32 \<Rightarrow> u8) \<Rightarrow> u32 \<Rightarrow> u8 \<Rightarrow> nat \<Rightarrow> u32 \<Rightarrow> u8" where
  "fill m a c n = (\<lambda>x. if unat (x - a) < n then c else m x)"

definition read_bytes :: "(u32 \<Rightarrow> u8) \<Rightarrow> u32 \<Rightarrow> nat \<Rightarrow> u8 list" where
  "read_bytes m a n = map (\<lambda>i. m (a + of_nat i)) [0..<n]"

section \<open>The allocator\<close>

definition lock_if :: "bool \<Rightarrow> lockid \<Rightarrow> ('x, 'r) kk \<Rightarrow> ('x, 'r) kk" where
  "lock_if b l m = (if b then with_lock l m else m)"

definition kfree :: "u32 \<Rightarrow> ('x kmst_scheme, unit) sm" where
  "kfree v = bind (gets kend) (\<lambda>e.
     if unat v mod PGSIZE \<noteq> 0 \<or> v < e \<or> V2P v \<ge> PHYSTOP then panic ''kfree'' else
     bind (modify (\<lambda>s. s\<lparr>mem := fill (mem s) v 1 PGSIZE\<rparr>)) (\<lambda>_.
     bind (gets use_lock) (\<lambda>ul.
     lock_if ul KmemLk
       (modify (\<lambda>s. s\<lparr>mem := st32 (mem s) v (freelist s), freelist := v\<rparr>)))))"

definition kalloc :: "('x kmst_scheme, u32) sm" where
  "kalloc = bind (gets use_lock) (\<lambda>ul.
     lock_if ul KmemLk
       (bind (gets freelist) (\<lambda>r.
        bind (whenM (r \<noteq> 0) (modify (\<lambda>s. s\<lparr>freelist := ld32 (mem s) r\<rparr>))) (\<lambda>_.
        ret r))))"

text \<open>
  The loop of \<open>freerange\<close>. The fuel is the number of pages of the address space; a run that
  needs more has come back to a page it freed before, and \<open>kfree\<close> panics on the way, at the
  first page above \<open>PHYSTOP\<close>.
\<close>

primrec freerange_from :: "nat \<Rightarrow> u32 \<Rightarrow> u32 \<Rightarrow> ('x kmst_scheme, unit) sm" where
  "freerange_from 0 p vend = fault ''freerange''"
| "freerange_from (Suc n) p vend =
     (if p + 4096 \<le> vend then bind (kfree p) (\<lambda>_. freerange_from n (p + 4096) vend) else ret ())"

definition freerange :: "u32 \<Rightarrow> u32 \<Rightarrow> ('x kmst_scheme, unit) sm" where
  "freerange vstart vend = freerange_from (2 ^ 20 + 1) (PGROUNDUP vstart) vend"

definition kinit1 :: "u32 \<Rightarrow> u32 \<Rightarrow> ('x kmst_scheme, unit) sm" where
  "kinit1 vstart vend = bind (initlock KmemLk) (\<lambda>_.
     bind (modify (\<lambda>s. s\<lparr>use_lock := False\<rparr>)) (\<lambda>_.
     freerange vstart vend))"

definition kinit2 :: "u32 \<Rightarrow> u32 \<Rightarrow> ('x kmst_scheme, unit) sm" where
  "kinit2 vstart vend = bind (freerange vstart vend) (\<lambda>_.
     modify (\<lambda>s. s\<lparr>use_lock := True\<rparr>))"

end
