(* ===== verification/Pages.thy ===== *)
theory Pages
  imports Kalloc "HOL-Library.Multiset"
begin

text \<open>
  Correctness of the page allocator of \<^verbatim>\<open>kalloc.c\<close>. First the laws of the byte memory: loads and stores of aligned words and
  of whole pages do not interfere when they are apart. Then \<open>flist\<close>, the list of pages reachable from the head of the
  free list through the words stored in the free pages, and the invariant \<open>pages_ok\<close>. \<open>kfree\<close> pushes a page,
  \<open>kalloc\<close> pops one or fails exactly when the list is empty, and \<open>freerange\<close> frees every whole page of its range.
  The locale \<open>page_pool\<close> is what the rest of the kernel relies on.
\<close>

section \<open>Pages of memory\<close>

definition pg :: "u32 \<Rightarrow> nat" where
  "pg a = unat a div 4096"

definition aligned :: "u32 \<Rightarrow> bool" where
  "aligned a \<longleftrightarrow> unat a mod 4096 = 0"

lemma PGSIZE_eq: "PGSIZE = 4096"
  by (simp add: PGSIZE_def)

lemma unat_diff: "unat (x - a) = (if unat a \<le> unat x then unat x - unat a else unat x + 2 ^ 32 - unat a)" for x a :: u32
proof (cases "a \<le> x")
  case True
  then show ?thesis by (simp add: unat_sub_if' word_le_nat_alt)
next
  case False
  then show ?thesis using unsigned_less [of a, where ?'a = nat] by (simp add: unat_sub_if' word_le_nat_alt)
qed

lemma unat_lt [simp]: "unat a < 4294967296" for a :: u32
  using unsigned_less [of a, where ?'a = nat] by simp

lemma in_page: "aligned a \<Longrightarrow> unat (x - a) < 4096 \<longleftrightarrow> pg x = pg a"
proof -
  assume "aligned a"
  then have "4096 dvd unat a" by (simp add: aligned_def dvd_eq_mod_eq_0)
  then obtain k where k: "unat a = 4096 * k" by (rule dvdE)
  have "k < 1048576" using unat_lt [of a] k by simp
  then have "4096 * k \<le> 4294963200" by simp
  moreover have "(unat x div 4096 = k) = (4096 * k \<le> unat x \<and> unat x < 4096 * k + 4096)" by (auto simp: div_nat_eqI)
  ultimately show ?thesis using unat_lt [of x] unfolding unat_diff pg_def k by (cases "4096 * k \<le> unat x") auto
qed

lemma aligned_eq: "aligned a \<Longrightarrow> aligned b \<Longrightarrow> pg a = pg b \<Longrightarrow> a = b"
  unfolding aligned_def pg_def word_unat_eq_iff by (metis div_mult_mod_eq)

lemma unat_add_small: "unat a mod 4 = 0 \<Longrightarrow> k < 4 \<Longrightarrow> unat (a + of_nat k) = unat a + k" for a :: u32
proof -
  assume a: "unat a mod 4 = 0" "k < 4"
  then obtain q where q: "unat a = 4 * q" by (meson dvdE mod_0_imp_dvd)
  have "q < 1073741824" using unat_lt [of a] q by simp
  then show ?thesis using q a by (simp add: unat_word_ariths unat_of_nat)
qed

lemma pg_word: "unat a mod 4 = 0 \<Longrightarrow> k < 4 \<Longrightarrow> pg (a + of_nat k) = pg a"
proof -
  assume a: "unat a mod 4 = 0" "k < 4"
  then obtain q where q: "unat a = 4 * q" by (meson dvdE mod_0_imp_dvd)
  have "(4 * q + k) div (4 * 1024) = 4 * q div (4 * 1024)" unfolding div_mult2_eq using a(2) by simp
  then show ?thesis using unat_add_small [OF a] q by (simp add: pg_def)
qed

lemma aligned_4: "aligned a \<Longrightarrow> unat a mod 4 = 0"
  unfolding aligned_def using mod_mod_cancel [of 4 4096 "unat a"] by simp

section \<open>Words in memory\<close>

lemma ld32_cong: "(\<And>k. k < 4 \<Longrightarrow> m (a + of_nat k) = n (b + of_nat k)) \<Longrightarrow> ld32 m a = ld32 n b"
proof -
  assume e: "\<And>k. k < 4 \<Longrightarrow> m (a + of_nat k) = n (b + of_nat k)"
  show ?thesis using e [of 0] e [of 1] e [of 2] e [of 3] by (simp add: ld32_def)
qed

lemma ld32_st32: "ld32 (st32 m a v) a = v"
proof -
  have "ld32 (st32 m a v) a = rd32 (le32 v) 0"
    by (simp add: ld32_def st32_def write_bytes_def rd32_def le32_def)
  then show ?thesis by (simp add: rd32_le32)
qed

lemma ld32_st32_other: "unat a mod 4 = 0 \<Longrightarrow> unat b mod 4 = 0 \<Longrightarrow> a \<noteq> b \<Longrightarrow> ld32 (st32 m a v) b = ld32 m b"
proof (rule ld32_cong)
  fix k :: nat
  assume a: "unat a mod 4 = 0" "unat b mod 4 = 0" "a \<noteq> b" "k < 4"
  then obtain p q where p: "unat a = 4 * p" "unat b = 4 * q" by (meson dvdE mod_0_imp_dvd)
  have "p \<noteq> q" "p < 1073741824" using a(3) p unat_lt [of a] by (auto simp: word_unat_eq_iff)
  then have "\<not> unat (b + of_nat k - a) < 4"
    unfolding unat_diff unat_add_small [OF a(2,4)] p using a(4) by auto
  then show "st32 m a v (b + of_nat k) = m (b + of_nat k)" by (simp add: st32_def write_bytes_def)
qed

lemma ld32_page: "unat a mod 4 = 0 \<Longrightarrow> (\<And>x. pg x = pg a \<Longrightarrow> m x = n x) \<Longrightarrow> ld32 m a = ld32 n a"
  by (rule ld32_cong) (simp add: pg_word)

lemma fill_other: "aligned p \<Longrightarrow> pg x \<noteq> pg p \<Longrightarrow> fill m p c PGSIZE x = m x"
  by (simp add: fill_def PGSIZE_eq in_page)

lemma fill_same: "aligned p \<Longrightarrow> pg x = pg p \<Longrightarrow> fill m p c PGSIZE x = c"
  by (simp add: fill_def PGSIZE_eq in_page)

lemma st32_other: "unat a mod 4 = 0 \<Longrightarrow> pg x \<noteq> pg a \<Longrightarrow> st32 m a v x = m x"
proof -
  assume a: "unat a mod 4 = 0" "pg x \<noteq> pg a"
  have "\<not> unat (x - a) < 4"
  proof
    assume "unat (x - a) < 4"
    then have "pg (a + of_nat (unat (x - a))) = pg a" by (rule pg_word [OF a(1)])
    then show False using a(2) by simp
  qed
  then show ?thesis by (simp add: st32_def write_bytes_def)
qed

lemma ld32_zero: "aligned p \<Longrightarrow> unat a mod 4 = 0 \<Longrightarrow> pg a = pg p \<Longrightarrow> ld32 (fill m p 0 PGSIZE) a = 0"
  using ld32_page [of a "fill m p 0 PGSIZE" "\<lambda>_. 0"] fill_same [of p _ m 0] by (simp add: ld32_def rd32_def)

section \<open>The free list\<close>

primrec flist :: "(u32 \<Rightarrow> u8) \<Rightarrow> u32 \<Rightarrow> u32 list \<Rightarrow> bool" where
  "flist m a [] \<longleftrightarrow> a = 0"
| "flist m a (p # ps) \<longleftrightarrow> a = p \<and> a \<noteq> 0 \<and> aligned a \<and> flist m (ld32 m a) ps"

lemma flist_cong:
  assumes "\<forall>p\<in>set ps. \<forall>x. pg x = pg p \<longrightarrow> m x = n x"
  shows "flist m a ps = flist n a ps"
  using assms
proof (induction ps arbitrary: a)
  case (Cons p ps)
  have p: "ld32 m p = ld32 n p" if "aligned p"
    by (rule ld32_page [OF aligned_4 [OF that]]) (metis Cons.prems list.set_intros(1))
  have "flist m b ps = flist n b ps" for b by (rule Cons.IH) (metis Cons.prems list.set_intros(2))
  with p show ?case by (metis flist.simps(2))
qed simp

lemma flist_aligned: "flist m a ps \<Longrightarrow> p \<in> set ps \<Longrightarrow> aligned p \<and> p \<noteq> 0"
  by (induction ps arbitrary: a) auto

text \<open>A page \<open>kfree\<close> accepts.\<close>

definition page_ok :: "u32 \<Rightarrow> u32 \<Rightarrow> bool" where
  "page_ok e v \<longleftrightarrow> aligned v \<and> e \<le> v \<and> V2P v < PHYSTOP \<and> v \<noteq> 0"

definition pages_ok :: "('x kmst_scheme) \<Rightarrow> u32 list \<Rightarrow> bool" where
  "pages_ok s ps \<longleftrightarrow> flist (mem s) (freelist s) ps \<and> distinct ps \<and> (\<forall>p\<in>set ps. page_ok (kend s) p)"

text \<open>The lock of the allocator is free, and may be taken here.\<close>

definition can_lock :: "lockid \<Rightarrow> ('x kmst_scheme) \<Rightarrow> bool" where
  "can_lock l s \<longleftrightarrow> lk_ok (core s) \<and> slk (core s) l = free_lk"

definition unlocked :: "('x kmst_scheme) \<Rightarrow> core" where
  "unlocked s = (if use_lock s then popped (core s) else core s)"

lemma unlocked_upd [simp]: "unlocked (s\<lparr>mem := m\<rparr>) = unlocked s" "unlocked (s\<lparr>freelist := f\<rparr>) = unlocked s"
  by (simp_all add: unlocked_def)

lemma can_lock_upd [simp]: "can_lock l (s\<lparr>mem := m\<rparr>) = can_lock l s" "can_lock l (s\<lparr>freelist := f\<rparr>) = can_lock l s"
  by (simp_all add: can_lock_def)

lemma kmst_frame:
  assumes "can_lock l s"
  shows "t = s\<lparr>mem := m, freelist := f, core := unlocked s\<rparr> \<Longrightarrow> can_lock l t \<and> kend t = kend s \<and> use_lock t = use_lock s"
    and "t = s\<lparr>freelist := f, core := unlocked s\<rparr> \<Longrightarrow> can_lock l t \<and> kend t = kend s \<and> use_lock t = use_lock s"
  using assms by (auto simp: can_lock_def unlocked_def)

lemma wp_lock_if:
  assumes "can_lock l s" and "\<And>c. wp m (\<lambda>x s'. core s' = c \<and> Q x (s'\<lparr>core := unlocked s\<rparr>)) (s\<lparr>core := c\<rparr>)"
  shows "wp (lock_if (use_lock s) l m) Q s"
proof (cases "use_lock s")
  case True
  then show ?thesis using assms(1) assms(2) [of "acquired l (core s)"]
    by (simp add: lock_if_def can_lock_def unlocked_def) (rule with_lock_wp_plain, simp_all)
next
  case False
  then show ?thesis using assms(2) [of "core s"] unfolding lock_if_def unlocked_def
    by simp (erule wp_mono, metis (no_types, lifting) kst.surjective kst.update_convs(1))
qed

lemma kfree_wp:
  assumes "can_lock KmemLk s" and "page_ok (kend s) v"
    and "Q () (s\<lparr>mem := st32 (fill (mem s) v 1 PGSIZE) v (freelist s), freelist := v, core := unlocked s\<rparr>)"
  shows "wp (kfree v) Q s"
proof -
  let ?s = "s\<lparr>mem := fill (mem s) v 1 PGSIZE\<rparr>"
  have "wp (lock_if (use_lock ?s) KmemLk (modify (\<lambda>s. s\<lparr>mem := st32 (mem s) v (freelist s), freelist := v\<rparr>))) Q ?s"
    using assms(1,3) by (intro wp_lock_if) (simp_all add: wp_modify)
  then show ?thesis using assms(2) by (simp add: kfree_def wp_simps page_ok_def aligned_def PGSIZE_eq not_le not_less)
qed

lemma kalloc_wp:
  assumes "can_lock KmemLk s"
    and "if freelist s = 0 then Q 0 (s\<lparr>core := unlocked s\<rparr>)
      else Q (freelist s) (s\<lparr>freelist := ld32 (mem s) (freelist s), core := unlocked s\<rparr>)"
  shows "wp kalloc Q s"
proof -
  have "wp (lock_if (use_lock s) KmemLk (bind (gets freelist) (\<lambda>r.
        bind (whenM (r \<noteq> 0) (modify (\<lambda>s. s\<lparr>freelist := ld32 (mem s) r\<rparr>))) (\<lambda>_. ret r)))) Q s"
    using assms by (intro wp_lock_if) (simp_all add: wp_simps split: if_splits)
  then show ?thesis by (simp add: kalloc_def wp_simps)
qed

lemma kfree_pushes:
  assumes "can_lock KmemLk s" and "pages_ok s ps" and "page_ok (kend s) v" and "v \<notin> set ps"
  shows "wp (kfree v) (\<lambda>_ t. pages_ok t (v # ps) \<and> (\<forall>x. pg x \<noteq> pg v \<longrightarrow> mem t x = mem s x) \<and>
    t = s\<lparr>mem := mem t, freelist := v, core := unlocked s\<rparr>) s"
proof (rule kfree_wp [OF assms(1,3)])
  let ?m = "st32 (fill (mem s) v 1 PGSIZE) v (freelist s)"
  have v: "aligned v" "unat v mod 4 = 0" "v \<noteq> 0" using assms(3) aligned_4 by (auto simp: page_ok_def)
  have o: "?m x = mem s x" if "pg x \<noteq> pg v" for x using that v by (simp add: st32_other fill_other)
  have "flist ?m (freelist s) ps = flist (mem s) (freelist s) ps"
  proof (rule flist_cong, intro ballI allI impI)
    fix p x
    assume "p \<in> set ps" "pg x = pg p"
    moreover have "aligned p" using assms(2) calculation flist_aligned by (auto simp: pages_ok_def)
    ultimately show "?m x = mem s x" using aligned_eq [of p v] v assms(4) by (intro o) auto
  qed
  then show "pages_ok (s\<lparr>mem := ?m, freelist := v, core := unlocked s\<rparr>) (v # ps) \<and>
    (\<forall>x. pg x \<noteq> pg v \<longrightarrow> mem (s\<lparr>mem := ?m, freelist := v, core := unlocked s\<rparr>) x = mem s x) \<and>
    s\<lparr>mem := ?m, freelist := v, core := unlocked s\<rparr> =
      s\<lparr>mem := mem (s\<lparr>mem := ?m, freelist := v, core := unlocked s\<rparr>), freelist := v, core := unlocked s\<rparr>"
    using assms v o by (simp add: pages_ok_def ld32_st32)
qed

lemma kalloc_pops:
  assumes "can_lock KmemLk s" and "pages_ok s ps"
  shows "wp kalloc (\<lambda>r t. (case ps of [] \<Rightarrow> r = 0 \<and> pages_ok t [] | p # qs \<Rightarrow> r = p \<and> r \<noteq> 0 \<and> pages_ok t qs) \<and>
    t = s\<lparr>freelist := freelist t, core := unlocked s\<rparr>) s"
  by (rule kalloc_wp [OF assms(1)]) (use assms(2) in \<open>auto simp: pages_ok_def split: list.split\<close>)

section \<open>The contract of the allocator\<close>

text \<open>
  What the clients rely on: \<open>alloc\<close> takes the first page of the pool and returns 0 when there is none, \<open>free\<close> puts a page back.
\<close>

datatype page_op = PAlloc | PFree nat

text \<open>A client that allocates and frees pages it holds, in any order; \<open>held\<close> are the pages it has.\<close>

fun page_run :: "('w, 's, u32) km \<Rightarrow> (u32 \<Rightarrow> ('w, 's, unit) km) \<Rightarrow> page_op list \<Rightarrow> u32 list \<Rightarrow> ('w, 's, u32 list) km" where
  "page_run alloc free [] held = ret held"
| "page_run alloc free (PAlloc # ops) held = bind alloc (\<lambda>r. page_run alloc free ops (if r = 0 then held else r # held))"
| "page_run alloc free (PFree i # ops) held =
     (if i < length held then bind (free (held ! i)) (\<lambda>_. page_run alloc free ops (take i held @ drop (Suc i) held))
      else page_run alloc free ops held)"

locale page_pool =
  fixes alloc :: "('w, 's, u32) km" and free :: "u32 \<Rightarrow> ('w, 's, unit) km"
    and pool :: "'s \<Rightarrow> u32 list \<Rightarrow> bool" and fit :: "u32 \<Rightarrow> bool"
  assumes alloc_pop: "pool s ps \<Longrightarrow> wp alloc (\<lambda>r t. case ps of [] \<Rightarrow> r = 0 \<and> pool t [] | p # qs \<Rightarrow> r = p \<and> r \<noteq> 0 \<and> pool t qs) s"
    and free_push: "pool s ps \<Longrightarrow> fit v \<Longrightarrow> v \<notin> set ps \<Longrightarrow> wp (free v) (\<lambda>_ t. pool t (v # ps)) s"
    and pool_fit: "pool s ps \<Longrightarrow> p \<in> set ps \<Longrightarrow> fit p"
begin

lemma conserved:
  assumes "pool s ps" and "distinct (held @ ps)" and "\<forall>p\<in>set held. fit p"
  shows "wp (page_run alloc free ops held) (\<lambda>held' t. \<exists>ps'. pool t ps' \<and> distinct (held' @ ps') \<and> mset (held' @ ps') = mset (held @ ps)) s"
  using assms
proof (induction ops arbitrary: held ps s)
  case Nil
  then show ?case by (auto simp: wp_ret)
next
  case (Cons op ops)
  show ?case
  proof (cases op)
    case PAlloc
    have "wp alloc (\<lambda>r. wp (page_run alloc free ops (if r = 0 then held else r # held))
      (\<lambda>held' t. \<exists>ps'. pool t ps' \<and> distinct (held' @ ps') \<and> mset (held' @ ps') = mset (held @ ps))) s"
    proof (rule wp_mono [OF alloc_pop [OF Cons.prems(1)]])
      fix r t
      assume r: "case ps of [] \<Rightarrow> r = 0 \<and> pool t [] | p # qs \<Rightarrow> r = p \<and> r \<noteq> 0 \<and> pool t qs"
      show "wp (page_run alloc free ops (if r = 0 then held else r # held))
        (\<lambda>held' t. \<exists>ps'. pool t ps' \<and> distinct (held' @ ps') \<and> mset (held' @ ps') = mset (held @ ps)) t"
      proof (cases ps)
        case Nil
        then show ?thesis using r Cons.IH [of t "[]" held] Cons.prems by simp
      next
        case (Cons p qs)
        then show ?thesis using r Cons.IH [of t qs "p # held"] Cons.prems pool_fit [OF Cons.prems(1), of p] by auto
      qed
    qed
    then show ?thesis using PAlloc by (simp add: wp_bind)
  next
    case (PFree i)
    show ?thesis
    proof (cases "i < length held")
      case True
      let ?h = "take i held @ drop (Suc i) held"
      have h: "held = take i held @ held ! i # drop (Suc i) held" using True by (simp add: id_take_nth_drop [symmetric])
      have m: "mset held = add_mset (held ! i) (mset ?h)" by (subst h) simp
      have d: "distinct (?h @ held ! i # ps)"
        using Cons.prems(2) m by (metis (no_types, lifting) add_mset_add_single mset.simps(2) mset_append mset_eq_imp_distinct_iff union_mset_add_mset_left union_mset_add_mset_right)
      have f: "\<forall>p\<in>set ?h. fit p" "fit (held ! i)"
        using Cons.prems(3) True by (auto dest: in_set_takeD in_set_dropD)
      have "wp (free (held ! i)) (\<lambda>_. wp (page_run alloc free ops ?h)
        (\<lambda>held' t. \<exists>ps'. pool t ps' \<and> distinct (held' @ ps') \<and> mset (held' @ ps') = mset (held @ ps))) s"
      proof (rule wp_mono [OF free_push [OF Cons.prems(1) f(2)]])
        show "held ! i \<notin> set ps" using d by simp
        fix x t
        assume "pool t (held ! i # ps)"
        from Cons.IH [OF this d f(1)] show "wp (page_run alloc free ops ?h)
          (\<lambda>held' t. \<exists>ps'. pool t ps' \<and> distinct (held' @ ps') \<and> mset (held' @ ps') = mset (held @ ps)) t"
          using m by (simp add: add.assoc)
      qed
      then show ?thesis using PFree True by (simp add: wp_bind)
    next
      case False
      then show ?thesis using PFree Cons by simp
    qed
  qed
qed

end

interpretation kpool: page_pool kalloc kfree "\<lambda>s ps. can_lock KmemLk s \<and> pages_ok s ps \<and> kend s = e" "page_ok e" for e
proof
  fix s :: "'a kmst_scheme" and ps v p
  assume s: "can_lock KmemLk s \<and> pages_ok s ps \<and> kend s = e"
  show "wp kalloc (\<lambda>r t. case ps of [] \<Rightarrow> r = 0 \<and> can_lock KmemLk t \<and> pages_ok t [] \<and> kend t = e
    | p # qs \<Rightarrow> r = p \<and> r \<noteq> 0 \<and> can_lock KmemLk t \<and> pages_ok t qs \<and> kend t = e) s"
  proof (rule wp_mono [OF kalloc_pops [of s ps]], goal_cases)
    case (3 r t)
    then have "can_lock KmemLk t \<and> kend t = kend s" using kmst_frame(2) [of KmemLk s t "freelist t"] s by blast
    then show ?case using conjunct1 [OF 3] s by (cases ps) auto
  qed (use s in simp_all)
  show "wp (kfree v) (\<lambda>_ t. can_lock KmemLk t \<and> pages_ok t (v # ps) \<and> kend t = e) s" if "page_ok e v" "v \<notin> set ps"
  proof (rule wp_mono [OF kfree_pushes [of s ps v]], goal_cases)
    case (5 r t)
    then have "can_lock KmemLk t \<and> kend t = kend s" using kmst_frame(1) [of KmemLk s t v "mem t"] s by blast
    then show ?case using conjunct1 [OF 5] s by simp
  qed (use s that in simp_all)
  show "page_ok e p" if "p \<in> set ps" using s that by (auto simp: pages_ok_def)
qed

text \<open>
  C21. Pages are neither lost nor handed out twice. Whatever sequence of \<open>kalloc\<close> and \<open>kfree\<close> of held pages is run, every call
  returns, the free list stays well formed, the pages held and the pages free are all distinct, and together they are
  the same pages as before.
\<close>

theorem pages_conserved:
  assumes "can_lock KmemLk s" and "pages_ok s ps" and "distinct (held @ ps)" and "\<forall>p\<in>set held. page_ok (kend s) p"
  shows "\<exists>held' t ps'. page_run kalloc kfree ops held s = Ret held' t \<and> pages_ok t ps' \<and> distinct (held' @ ps') \<and>
    mset (held' @ ps') = mset (held @ ps)"
  using kpool.conserved [of s ps "kend s" held ops] assms unfolding wp_iff by blast

theorem pages_conserved_witness:
  "\<exists>held' t ps'. page_run kalloc kfree [PAlloc, PFree 1, PAlloc, PAlloc] [0x80200000]
      (\<lparr>core = core0, cns = console0, mmu = mmu0, mem = (\<lambda>_. 0), freelist = 0x80300000, use_lock = True, kend = 0x80114FF0\<rparr> :: kmst) = Ret held' t \<and>
    pages_ok t ps' \<and> distinct (held' @ ps') \<and> mset (held' @ ps') = mset [0x80200000, 0x80300000]"
proof -
  have "ld32 (\<lambda>_. 0) 0x80300000 = 0" by (simp add: ld32_def rd32_def)
  then show ?thesis
    using pages_conserved [of "\<lparr>core = core0, cns = console0, mmu = mmu0, mem = (\<lambda>_. 0), freelist = 0x80300000, use_lock = True, kend = 0x80114FF0\<rparr> :: kmst" "[0x80300000]" "[0x80200000]" "[PAlloc, PFree 1, PAlloc, PAlloc]"] quiet_core0
    by (simp add: can_lock_def quiet_def pages_ok_def page_ok_def aligned_def V2P_def PHYSTOP_def KERNBASE_def add_mset_commute)
qed

section \<open>Giving a range of memory to the allocator\<close>

lemma unat_round: "unat (a AND NOT 0xFFF) = 4096 * (unat a div 4096)" for a :: u32
proof -
  have m: "(0xFFF :: u32) = mask 12" by (simp add: mask_eq_exp_minus_1)
  have "a = (a AND NOT (mask 12)) + (a AND mask 12)"
    by (subst disjunctive_add) (auto simp: bit_simps intro: bit_word_eqI)
  then have "a AND NOT 0xFFF = a - (a AND mask 12)" unfolding m by (metis add_diff_cancel_right')
  moreover have u: "unat (a AND mask 12) = unat a mod 4096"
    by (simp only: take_bit_eq_mask [symmetric] unsigned_take_bit_eq) (simp add: take_bit_eq_mod)
  ultimately have "unat (a AND NOT 0xFFF) = unat a - unat a mod 4096"
    using unat_diff [of a "a AND mask 12"] by simp
  then show ?thesis by (simp add: minus_mod_eq_mult_div)
qed

lemma PGROUNDDOWN_unat: "unat (PGROUNDDOWN a) = 4096 * (unat a div 4096)"
  unfolding PGROUNDDOWN_def using unat_round [of a] by simp

lemma PGROUNDUP_unat: "unat a \<le> 0xFFFFF000 \<Longrightarrow> unat (PGROUNDUP a) = 4096 * ((unat a + 4095) div 4096)"
proof -
  assume "unat a \<le> 0xFFFFF000"
  then have "unat (a + 4095) = unat a + 4095" by (simp add: unat_word_ariths)
  moreover have "PGROUNDUP a = (a + 4095) AND NOT 0xFFF" by (simp add: PGROUNDUP_def add_diff_eq [symmetric])
  ultimately show ?thesis using unat_round [of "a + 4095"] by simp
qed

lemma freerange_from_wp:
  assumes "can_lock KmemLk s" and "pages_ok s ps" and "k < n" and "aligned p" and "unat p + 4096 * k \<le> unat e" and "unat e < unat p + 4096 * k + 4096"
    and "e \<le> P2V PHYSTOP" and "kend s \<le> p" and "KERNBASE \<le> p" and "\<forall>q\<in>set ps. q < p \<or> e \<le> q"
  shows "wp (freerange_from n p e) (\<lambda>_ t. pages_ok t (rev (map (\<lambda>i. p + 4096 * of_nat i) [0..<k]) @ ps) \<and> can_lock KmemLk t \<and>
    kend t = kend s \<and> use_lock t = use_lock s) s"
  using assms
proof (induction k arbitrary: n p s ps)
  case 0
  then obtain n' where n: "n = Suc n'" by (cases n) auto
  have e: "unat e \<le> 0x8E000000" using 0(7) by (simp add: word_le_nat_alt P2V_def PHYSTOP_def KERNBASE_def)
  have "unat (p + 4096) = unat p + 4096" using 0(5) e by (simp add: unat_word_ariths)
  then have "\<not> p + 4096 \<le> e" using 0(6) by (simp add: word_le_nat_alt)
  then show ?case using 0 n by (simp add: wp_ret)
next
  case (Suc k)
  then obtain n' where n: "n = Suc n'" by (cases n) auto
  have e: "unat e \<le> 0x8E000000" using Suc.prems(7) by (simp add: word_le_nat_alt P2V_def PHYSTOP_def KERNBASE_def)
  have p4: "unat (p + 4096) = unat p + 4096" using Suc.prems(5) e by (simp add: unat_word_ariths)
  have le: "p + 4096 \<le> e" using Suc.prems(5) p4 by (simp add: word_le_nat_alt)
  have pb: "0x80000000 \<le> unat p" using Suc.prems(9) by (simp add: word_le_nat_alt KERNBASE_def)
  have ok: "page_ok (kend s) p"
    using Suc.prems(4,5,8,9) e pb by (auto simp: page_ok_def V2P_def PHYSTOP_def KERNBASE_def word_less_nat_alt unat_diff)
  have np: "p \<notin> set ps" using Suc.prems(10) le p4 by (force simp: word_le_nat_alt)
  have l: "map (\<lambda>i. p + 4096 * of_nat i) [0..<Suc k] = p # map (\<lambda>i. p + 4096 + 4096 * of_nat i) [0..<k]"
    by (simp del: upt_Suc add: upt_rec [of 0 "Suc k"] map_Suc_upt [symmetric])
  have "wp (kfree p) (\<lambda>_. wp (freerange_from n' (p + 4096) e) (\<lambda>_ t. pages_ok t (rev (map (\<lambda>i. p + 4096 * of_nat i) [0..<Suc k]) @ ps) \<and>
    can_lock KmemLk t \<and> kend t = kend s \<and> use_lock t = use_lock s)) s"
  proof (rule wp_mono [OF kfree_pushes [OF Suc.prems(1,2) ok np]], elim conjE)
    fix x :: unit and t
    assume t: "pages_ok t (p # ps)" "t = s\<lparr>mem := mem t, freelist := p, core := unlocked s\<rparr>"
    note fr = kmst_frame(1) [OF Suc.prems(1) t(2)]
    have "wp (freerange_from n' (p + 4096) e) (\<lambda>_ u. pages_ok u (rev (map (\<lambda>i. p + 4096 + 4096 * of_nat i) [0..<k]) @ p # ps) \<and>
      can_lock KmemLk u \<and> kend u = kend t \<and> use_lock u = use_lock t) t"
    proof (rule Suc.IH)
      show "aligned (p + 4096)" using Suc.prems(4) p4 by (simp add: aligned_def)
      show "kend t \<le> p + 4096" "KERNBASE \<le> p + 4096" using fr Suc.prems(8,9) p4 by (auto simp: word_le_nat_alt)
      show "\<forall>q\<in>set (p # ps). q < p + 4096 \<or> e \<le> q" using Suc.prems(10) p4 by (auto simp: word_less_nat_alt)
    qed (use fr t Suc.prems n p4 in simp_all)
    then show "wp (freerange_from n' (p + 4096) e) (\<lambda>_ t. pages_ok t (rev (map (\<lambda>i. p + 4096 * of_nat i) [0..<Suc k]) @ ps) \<and>
      can_lock KmemLk t \<and> kend t = kend s \<and> use_lock t = use_lock s) t"
      unfolding l using fr by simp
  qed
  then show ?case using n le by (simp add: wp_bind)
qed

lemma of_nat_page: "i < 2 ^ 20 \<Longrightarrow> unat (4096 * of_nat i :: u32) = 4096 * i"
  by (simp add: unat_word_ariths unat_of_nat)

lemma page_between:
  assumes "unat vs \<le> 0x8E000000" and "e \<le> P2V PHYSTOP" and "KERNBASE \<le> vs" and "PGROUNDUP vs \<le> e"
  defines "k \<equiv> (unat e - unat (PGROUNDUP vs)) div 4096"
  shows "unat (PGROUNDUP vs) + 4096 * k \<le> unat e" and "unat e < unat (PGROUNDUP vs) + 4096 * k + 4096" and "k < 2 ^ 20" and "vs \<le> PGROUNDUP vs"
    and "aligned (PGROUNDUP vs)"
    and "(\<lambda>i. PGROUNDUP vs + 4096 * of_nat i) ` {0..<k} = {p. aligned p \<and> vs \<le> p \<and> unat p + 4096 \<le> unat e}"
proof -
  let ?p = "PGROUNDUP vs"
  have p: "unat ?p = 4096 * ((unat vs + 4095) div 4096)" using assms(1) by (simp add: PGROUNDUP_unat)
  have e: "unat e \<le> 0x8E000000" using assms(2) by (simp add: word_le_nat_alt P2V_def PHYSTOP_def KERNBASE_def)
  have pe: "unat ?p \<le> unat e" using assms(4) by (simp add: word_le_nat_alt)
  show 1: "unat ?p + 4096 * k \<le> unat e" and 2: "unat e < unat ?p + 4096 * k + 4096"
    using pe div_mult_mod_eq [of "unat e - unat ?p" 4096] mod_less_divisor [of 4096 "unat e - unat ?p"] unfolding k_def by linarith+
  show 3: "k < 2 ^ 20" unfolding k_def using e by (simp add: div_less_iff_less_mult)
  show 4: "vs \<le> ?p" unfolding word_le_nat_alt p by simp
  show 5: "aligned ?p" by (simp add: aligned_def p)
  have u: "unat (?p + 4096 * of_nat i) = unat ?p + 4096 * i" if "i < k" for i
    using that 1 e 3 of_nat_page [of i] by (simp add: unat_word_ariths)
  show "(\<lambda>i. ?p + 4096 * of_nat i) ` {0..<k} = {p. aligned p \<and> vs \<le> p \<and> unat p + 4096 \<le> unat e}"
  proof (intro set_eqI iffI)
    fix x
    assume "x \<in> (\<lambda>i. ?p + 4096 * of_nat i) ` {0..<k}"
    then obtain i where i: "i < k" "x = ?p + 4096 * of_nat i" by auto
    then show "x \<in> {p. aligned p \<and> vs \<le> p \<and> unat p + 4096 \<le> unat e}"
      using u [OF i(1)] 1 4 p by (auto simp: aligned_def word_le_nat_alt)
  next
    fix x
    assume "x \<in> {p. aligned p \<and> vs \<le> p \<and> unat p + 4096 \<le> unat e}"
    then have x: "unat x mod 4096 = 0" "unat vs \<le> unat x" "unat x + 4096 \<le> unat e" by (auto simp: aligned_def word_le_nat_alt)
    then obtain q where q: "unat x = 4096 * q" by (meson dvdE mod_0_imp_dvd)
    define i where "i = q - (unat vs + 4095) div 4096"
    have "(unat vs + 4095) div 4096 \<le> q" using x(2) q by simp
    then have xi: "unat x = unat ?p + 4096 * i" unfolding i_def p q by simp
    then have "i < k" using x(3) 2 by simp
    then show "x \<in> (\<lambda>i. ?p + 4096 * of_nat i) ` {0..<k}"
      using u [of i] xi by (intro image_eqI [of _ _ i]) (simp_all add: word_unat_eq_iff)
  qed
qed

definition pages_between :: "u32 \<Rightarrow> u32 \<Rightarrow> u32 set" where
  "pages_between a b = {p. aligned p \<and> a \<le> p \<and> unat p + 4096 \<le> unat b}"

lemma freerange_wp:
  assumes "can_lock KmemLk s" and "pages_ok s ps" and "kend s \<le> vs" and "KERNBASE \<le> vs" and "vs \<le> e" and "e \<le> P2V PHYSTOP"
    and "\<forall>q\<in>set ps. q < vs \<or> e \<le> q"
  shows "wp (freerange vs e) (\<lambda>_ t. (\<exists>qs. pages_ok t qs \<and> set qs = pages_between vs e \<union> set ps) \<and> can_lock KmemLk t \<and>
    kend t = kend s \<and> use_lock t = use_lock s) s"
proof -
  let ?p = "PGROUNDUP vs"
  let ?k = "(unat e - unat ?p) div 4096"
  have e: "unat e \<le> 0x8E000000" "unat vs \<le> unat e" using assms(5,6) by (simp_all add: word_le_nat_alt P2V_def PHYSTOP_def KERNBASE_def)
  show ?thesis
  proof (cases "?p \<le> e")
    case True
    note b = page_between [OF _ assms(6,4) True]
    have v: "unat vs \<le> 0x8E000000" using e by simp
    have "wp (freerange_from (2 ^ 20 + 1) ?p e) (\<lambda>_ t. pages_ok t (rev (map (\<lambda>i. ?p + 4096 * of_nat i) [0..<?k]) @ ps) \<and> can_lock KmemLk t \<and>
      kend t = kend s \<and> use_lock t = use_lock s) s"
      by (rule freerange_from_wp [OF assms(1,2)]) (use b [OF v] assms in \<open>auto intro: order_trans less_le_trans\<close>)
    then show ?thesis unfolding freerange_def
      by (rule wp_mono) (use b(6) [OF v] in \<open>force simp: pages_between_def\<close>)
  next
    case False
    have p: "unat ?p = 4096 * ((unat vs + 4095) div 4096)" using e by (simp add: PGROUNDUP_unat)
    have "unat (?p + 4096) = unat ?p + 4096" using p e by (simp add: unat_word_ariths)
    then have n: "\<not> ?p + 4096 \<le> e" using False by (simp add: word_le_nat_alt)
    have "\<not> (aligned x \<and> vs \<le> x \<and> unat x + 4096 \<le> unat e)" for x
    proof
      assume x: "aligned x \<and> vs \<le> x \<and> unat x + 4096 \<le> unat e"
      then obtain q where q: "unat x = 4096 * q" by (metis aligned_def dvdE mod_0_imp_dvd)
      have "(unat vs + 4095) div 4096 \<le> q" using x q by (simp add: word_le_nat_alt less_mult_imp_div_less div_le_mono [of "unat vs + 4095" "4096 * q + 4095" 4096, simplified])
      then show False using False x p q by (simp add: word_le_nat_alt)
    qed
    then have "pages_between vs e = {}" by (auto simp: pages_between_def)
    then show ?thesis using assms(1,2) n unfolding freerange_def Suc_eq_plus1 [symmetric] freerange_from.simps by (auto simp: wp_ret)
  qed
qed

text \<open>
  C22. Booting the allocator. \<open>kinit1\<close> on the memory from \<open>vs\<close>, at or above the end of the kernel, to \<open>vm\<close>, and then \<open>kinit2\<close> from \<open>vm\<close> to
  \<open>e\<close>, return and put on the free list exactly the whole pages of the two ranges, each once; from then on
  the allocator locks.
\<close>

theorem kinit_frees_memory:
  assumes "freelist s = 0" and "lk_ok (core s)" and "kend s \<le> vs" and "KERNBASE \<le> vs" and "vs \<le> vm" and "vm \<le> e" and "e \<le> P2V PHYSTOP"
  shows "\<exists>t ps. bind (kinit1 vs vm) (\<lambda>_. kinit2 vm e) s = Ret () t \<and> pages_ok t ps \<and> set ps = pages_between vs vm \<union> pages_between vm e \<and>
    use_lock t \<and> can_lock KmemLk t"
proof -
  let ?s = "s\<lparr>core := (core s)\<lparr>slk := (slk (core s))(KmemLk := free_lk)\<rparr>, use_lock := False\<rparr>"
  let ?Q = "\<lambda>_ t. (\<exists>ps. pages_ok t ps \<and> set ps = pages_between vs vm \<union> pages_between vm e) \<and> can_lock KmemLk t"
  have s: "can_lock KmemLk ?s" "pages_ok ?s []" using assms by (simp_all add: can_lock_def pages_ok_def lk_ok_def my_def)
  have b: "vm \<le> P2V PHYSTOP" "kend s \<le> vm" "KERNBASE \<le> vm" using assms by (auto intro: order_trans)
  have "wp (freerange vs vm) (\<lambda>_. wp (freerange vm e) ?Q) ?s"
  proof (rule wp_mono [OF freerange_wp [OF s _ assms(4,5) b(1)]], goal_cases)
    case (3 x t)
    then obtain qs where qs: "pages_ok t qs" "set qs = pages_between vs vm" and t: "can_lock KmemLk t" "kend t = kend s" by auto
    have "wp (freerange vm e) (\<lambda>_ t'. (\<exists>ps. pages_ok t' ps \<and> set ps = pages_between vm e \<union> set qs) \<and> can_lock KmemLk t' \<and> kend t' = kend t \<and>
      use_lock t' = use_lock t) t"
      by (rule freerange_wp [OF t(1) qs(1)]) (use t b assms(6,7) qs in \<open>auto simp: pages_between_def word_less_nat_alt\<close>)
    then show ?case by (rule wp_mono) (use qs in \<open>auto simp: Un_commute\<close>)
  qed (use assms in simp_all)
  then have "wp (bind (kinit1 vs vm) (\<lambda>_. kinit2 vm e)) (\<lambda>_ t. use_lock t \<and> ?Q () t) s"
    by (simp add: kinit1_def kinit2_def initlock_def upd_core_def wp_bind wp_modify free_lk_def [symmetric])
      (erule wp_mono, erule wp_mono, auto simp: pages_ok_def can_lock_def)
  then show ?thesis unfolding wp_iff by auto
qed

theorem kinit_frees_memory_witness:
  "\<exists>t ps. bind (kinit1 0x80115000 0x80400000) (\<lambda>_. kinit2 0x80400000 0x8E000000)
      (\<lparr>core = core0, cns = console0, mmu = mmu0, mem = (\<lambda>_. 0), freelist = 0, use_lock = False, kend = 0x80114FF0\<rparr> :: kmst) = Ret () t \<and>
    pages_ok t ps \<and> set ps = pages_between 0x80115000 0x80400000 \<union> pages_between 0x80400000 0x8E000000 \<and> use_lock t \<and> can_lock KmemLk t"
  by (rule kinit_frees_memory) (use quiet_core0 in \<open>simp_all add: quiet_def KERNBASE_def P2V_def PHYSTOP_def\<close>)

end
