(* ===== verification/Vm.thy ===== *)
theory Vm
  imports Pages
begin

text \<open>
  Page tables, \<^verbatim>\<open>vm.c\<close>. A page directory and its page tables are pages of kernel memory, read and written as
  32-bit little-endian words, so that every function works on the same bytes the processor walks. A pointer to a
  page-table entry is its address, 0 for a null pointer. Loops over addresses carry the number of pages left
  as fuel.
\<close>

section \<open>Addresses and entries\<close>

definition PDX :: "u32 \<Rightarrow> u32" where "PDX va = drop_bit 22 va AND 0x3FF"
definition PTX :: "u32 \<Rightarrow> u32" where "PTX va = drop_bit 12 va AND 0x3FF"
definition PGADDR :: "u32 \<Rightarrow> u32 \<Rightarrow> u32 \<Rightarrow> u32" where "PGADDR d t off = push_bit 22 d OR push_bit 12 t OR off"
definition NPDENTRIES :: nat where "NPDENTRIES = 1024"
definition PTE_P :: u32 where "PTE_P = 1"
definition PTE_W :: u32 where "PTE_W = 2"
definition PTE_U :: u32 where "PTE_U = 4"
definition PTE_ADDR :: "u32 \<Rightarrow> u32" where "PTE_ADDR pte = pte AND NOT 0xFFF"
definition PTE_FLAGS :: "u32 \<Rightarrow> u32" where "PTE_FLAGS pte = pte AND 0xFFF"
definition KERNLINK :: u32 where "KERNLINK = KERNBASE + EXTMEM"

definition ldw :: "u32 \<Rightarrow> ('x kmst_scheme, u32) sm" where
  "ldw a = gets (\<lambda>s. ld32 (mem s) a)"

definition stw :: "u32 \<Rightarrow> u32 \<Rightarrow> ('x kmst_scheme, unit) sm" where
  "stw a v = modify (\<lambda>s. s\<lparr>mem := st32 (mem s) a v\<rparr>)"

definition zero_page :: "u32 \<Rightarrow> ('x kmst_scheme, unit) sm" where
  "zero_page a = modify (\<lambda>s. s\<lparr>mem := fill (mem s) a 0 PGSIZE\<rparr>)"

section \<open>Segments\<close>

definition SEG_KCODE :: nat where "SEG_KCODE = 1"
definition SEG_KDATA :: nat where "SEG_KDATA = 2"
definition SEG_UCODE :: nat where "SEG_UCODE = 3"
definition SEG_UDATA :: nat where "SEG_UDATA = 4"
definition SEG_TSS :: nat where "SEG_TSS = 5"
definition DPL_USER :: nat where "DPL_USER = 3"

text \<open>\<open>SEG\<close> and \<open>SEG16\<close> of \<^verbatim>\<open>mmu.h\<close>; the bit fields are kept whole.\<close>

definition SEG :: "nat \<Rightarrow> u32 \<Rightarrow> u32 \<Rightarrow> nat \<Rightarrow> segdesc" where
  "SEG type base lim dpl = \<lparr>sg_lim = drop_bit 12 lim, sg_base = base, sg_type = type, sg_s = True, sg_dpl = dpl,
     sg_db = True, sg_g = True\<rparr>"

definition SEG16 :: "nat \<Rightarrow> u32 \<Rightarrow> u32 \<Rightarrow> nat \<Rightarrow> segdesc" where
  "SEG16 type base lim dpl = \<lparr>sg_lim = lim, sg_base = base, sg_type = type, sg_s = True, sg_dpl = dpl,
     sg_db = True, sg_g = False\<rparr>"

definition set_gdt :: "nat \<Rightarrow> nat \<Rightarrow> segdesc \<Rightarrow> ('x kmst_scheme, unit) sm" where
  "set_gdt i n d = modify (\<lambda>s. s\<lparr>mmu := (mmu s)\<lparr>gdt := (gdt (mmu s))(i := (gdt (mmu s) i)(n \<mapsto> d))\<rparr>\<rparr>)"

definition seginit :: "('x kmst_scheme, unit) sm" where
  "seginit = bind cpuid (\<lambda>i.
     bind (set_gdt i SEG_KCODE (SEG 10 0 0xFFFFFFFF 0)) (\<lambda>_.
     bind (set_gdt i SEG_KDATA (SEG 2 0 0xFFFFFFFF 0)) (\<lambda>_.
     bind (set_gdt i SEG_UCODE (SEG 10 0 0xFFFFFFFF DPL_USER)) (\<lambda>_.
     set_gdt i SEG_UDATA (SEG 2 0 0xFFFFFFFF DPL_USER)))))"

section \<open>Walking and mapping\<close>

definition walkpgdir :: "u32 \<Rightarrow> u32 \<Rightarrow> bool \<Rightarrow> ('x kmst_scheme, u32) sm" where
  "walkpgdir pd va alloc = bind (ldw (pd + 4 * PDX va)) (\<lambda>pde.
     if pde AND PTE_P \<noteq> 0 then ret (P2V (PTE_ADDR pde) + 4 * PTX va)
     else if \<not> alloc then ret 0
     else bind kalloc (\<lambda>pgtab.
       if pgtab = 0 then ret 0
       else bind (zero_page pgtab) (\<lambda>_.
         bind (stw (pd + 4 * PDX va) (V2P pgtab OR PTE_P OR PTE_W OR PTE_U)) (\<lambda>_.
         ret (pgtab + 4 * PTX va)))))"

text \<open>One round of the loop of \<open>mappages\<close>; \<open>False\<close> is its \<open>return -1\<close>.\<close>

definition map_one :: "u32 \<Rightarrow> u32 \<Rightarrow> u32 \<Rightarrow> u32 \<Rightarrow> ('x kmst_scheme, bool) sm" where
  "map_one pd a pa perm = bind (walkpgdir pd a True) (\<lambda>pte.
     if pte = 0 then ret False
     else bind (ldw pte) (\<lambda>v.
       if v AND PTE_P \<noteq> 0 then panic ''remap''
       else bind (stw pte (pa OR perm OR PTE_P)) (\<lambda>_. ret True)))"

primrec map_loop :: "nat \<Rightarrow> u32 \<Rightarrow> u32 \<Rightarrow> u32 \<Rightarrow> u32 \<Rightarrow> ('x kmst_scheme, bool) sm" where
  "map_loop 0 pd a pa perm = map_one pd a pa perm"
| "map_loop (Suc n) pd a pa perm = bind (map_one pd a pa perm) (\<lambda>ok.
     if ok then map_loop n pd (a + 4096) (pa + 4096) perm else ret False)"

definition mappages :: "u32 \<Rightarrow> u32 \<Rightarrow> u32 \<Rightarrow> u32 \<Rightarrow> u32 \<Rightarrow> ('x kmst_scheme, int) sm" where
  "mappages pd va n pa perm = (let a = PGROUNDDOWN va; last = PGROUNDDOWN (va + n - 1) in
     bind (map_loop (unat ((last - a) div 4096)) pd a pa perm) (\<lambda>ok. ret (if ok then 0 else - 1)))"

section \<open>Shrinking and freeing\<close>

primrec dealloc_loop :: "nat \<Rightarrow> u32 \<Rightarrow> u32 \<Rightarrow> u32 \<Rightarrow> ('x kmst_scheme, unit) sm" where
  "dealloc_loop 0 pd a oldsz = fault ''deallocuvm: fuel''"
| "dealloc_loop (Suc n) pd a oldsz =
     (if a < oldsz then
        bind (walkpgdir pd a False) (\<lambda>pte.
        if pte = 0 then dealloc_loop n pd (PGADDR (PDX a + 1) 0 0) oldsz
        else bind (ldw pte) (\<lambda>v.
          bind (whenM (v AND PTE_P \<noteq> 0)
            (let pa = PTE_ADDR v in
             if pa = 0 then panic ''kfree'' else bind (kfree (P2V pa)) (\<lambda>_. stw pte 0))) (\<lambda>_.
          dealloc_loop n pd (a + 4096) oldsz)))
      else ret ())"

definition deallocuvm :: "u32 \<Rightarrow> u32 \<Rightarrow> u32 \<Rightarrow> ('x kmst_scheme, u32) sm" where
  "deallocuvm pd oldsz newsz = (if newsz \<ge> oldsz then ret oldsz
     else bind (dealloc_loop (2 ^ 20 + 1) pd (PGROUNDUP newsz) oldsz) (\<lambda>_. ret newsz))"

definition freevm :: "u32 \<Rightarrow> ('x kmst_scheme, unit) sm" where
  "freevm pd = (if pd = 0 then panic ''freevm: no pgdir''
     else bind (deallocuvm pd KERNBASE 0) (\<lambda>_.
       bind (forM [0..<NPDENTRIES] (\<lambda>i.
         bind (ldw (pd + 4 * of_nat i)) (\<lambda>pde.
         whenM (pde AND PTE_P \<noteq> 0) (kfree (P2V (PTE_ADDR pde)))))) (\<lambda>_.
       kfree pd)))"

section \<open>The kernel part of a page table\<close>

definition kmap :: "u32 \<Rightarrow> (u32 \<times> u32 \<times> u32 \<times> u32) list" where
  "kmap data = [(KERNBASE, 0, EXTMEM, PTE_W), (KERNLINK, V2P KERNLINK, V2P data, 0),
     (data, V2P data, PHYSTOP, PTE_W), (DEVSPACE, DEVSPACE, 0, PTE_W)]"

primrec kmap_loop :: "(u32 \<times> u32 \<times> u32 \<times> u32) list \<Rightarrow> u32 \<Rightarrow> ('x kmst_scheme, u32) sm" where
  "kmap_loop [] pd = ret pd"
| "kmap_loop (k # ks) pd = (case k of (virt, pstart, pend, perm) \<Rightarrow>
     bind (mappages pd virt (pend - pstart) pstart perm) (\<lambda>r.
     if r < 0 then bind (freevm pd) (\<lambda>_. ret 0) else kmap_loop ks pd))"

definition setupkvm :: "('x kmst_scheme, u32) sm" where
  "setupkvm = bind kalloc (\<lambda>pd.
     if pd = 0 then ret 0
     else bind (zero_page pd) (\<lambda>_.
       if P2V PHYSTOP > DEVSPACE then panic ''PHYSTOP too high''
       else bind (gets (\<lambda>s. kdata (mmu s))) (\<lambda>data. kmap_loop (kmap data) pd)))"

definition lcr3 :: "u32 \<Rightarrow> ('x kmst_scheme, unit) sm" where
  "lcr3 a = modify (\<lambda>s. s\<lparr>mmu := (mmu s)\<lparr>cr3 := (cr3 (mmu s))(my (core s) := a)\<rparr>\<rparr>)"

definition switchkvm :: "('x kmst_scheme, unit) sm" where
  "switchkvm = bind (gets (\<lambda>s. kpgdir (mmu s))) (\<lambda>p. lcr3 (V2P p))"

definition kvmalloc :: "('x kmst_scheme, unit) sm" where
  "kvmalloc = bind setupkvm (\<lambda>p.
     bind (modify (\<lambda>s. s\<lparr>mmu := (mmu s)\<lparr>kpgdir := p\<rparr>\<rparr>)) (\<lambda>_. switchkvm))"

text \<open>\<open>struct taskstate\<close> has 104 bytes.\<close>

definition switchuvm :: "nat option \<Rightarrow> ('x kmst_scheme, unit) sm" where
  "switchuvm q = (case q of None \<Rightarrow> panic ''switchuvm: no process'' | Some j \<Rightarrow>
     bind (gets (\<lambda>s. procs (core s) ! j)) (\<lambda>p.
     if kstack p = 0 then panic ''switchuvm: no kstack''
     else if pgdir p = 0 then panic ''switchuvm: no pgdir''
     else bind pushcli (\<lambda>_.
       bind mycpu (\<lambda>i.
       bind (gets (\<lambda>s. tsaddr (mmu s) i)) (\<lambda>ts.
       bind (set_gdt i SEG_TSS ((SEG16 9 ts 103 0)\<lparr>sg_s := False\<rparr>)) (\<lambda>_.
       bind (modify (\<lambda>s. s\<lparr>mmu := (mmu s)\<lparr>ss0 := (ss0 (mmu s))(i := of_nat (SEG_KDATA * 8)),
           esp0 := (esp0 (mmu s))(i := kstack p + KSTACKSIZE), iomb := (iomb (mmu s))(i := 0xFFFF)\<rparr>\<rparr>)) (\<lambda>_.
       bind (lcr3 (V2P (pgdir p))) (\<lambda>_.
       popcli))))))))"

section \<open>User memory\<close>

definition inituvm :: "u32 \<Rightarrow> u8 list \<Rightarrow> ('x kmst_scheme, unit) sm" where
  "inituvm pd ini = (if length ini \<ge> PGSIZE then panic ''inituvm: more than a page''
     else bind kalloc (\<lambda>m.
       bind (zero_page m) (\<lambda>_.
       bind (mappages pd 0 4096 (V2P m) (PTE_W OR PTE_U)) (\<lambda>_.
       modify (\<lambda>s. s\<lparr>mem := write_bytes (mem s) m ini\<rparr>)))))"

primrec alloc_loop :: "nat \<Rightarrow> u32 \<Rightarrow> u32 \<Rightarrow> u32 \<Rightarrow> u32 \<Rightarrow> ('x kmst_scheme, u32) sm" where
  "alloc_loop 0 pd a oldsz newsz = fault ''allocuvm: fuel''"
| "alloc_loop (Suc n) pd a oldsz newsz =
     (if a < newsz then
        bind kalloc (\<lambda>m.
        if m = 0 then
          bind (cprintf (bytes ''allocuvm out of memory'' @ [10]) []) (\<lambda>_.
          bind (deallocuvm pd newsz oldsz) (\<lambda>_. ret 0))
        else bind (zero_page m) (\<lambda>_.
          bind (mappages pd a 4096 (V2P m) (PTE_W OR PTE_U)) (\<lambda>r.
          if r < 0 then
            bind (cprintf (bytes ''allocuvm out of memory (2)'' @ [10]) []) (\<lambda>_.
            bind (deallocuvm pd newsz oldsz) (\<lambda>_.
            bind (kfree m) (\<lambda>_. ret 0)))
          else alloc_loop n pd (a + 4096) oldsz newsz)))
      else ret newsz)"

definition allocuvm :: "u32 \<Rightarrow> u32 \<Rightarrow> u32 \<Rightarrow> ('x kmst_scheme, u32) sm" where
  "allocuvm pd oldsz newsz = (if newsz \<ge> KERNBASE then ret 0
     else if newsz < oldsz then ret oldsz
     else alloc_loop (2 ^ 19 + 1) pd (PGROUNDUP oldsz) oldsz newsz)"

definition clearpteu :: "u32 \<Rightarrow> u32 \<Rightarrow> ('x kmst_scheme, unit) sm" where
  "clearpteu pd uva = bind (walkpgdir pd uva False) (\<lambda>pte.
     if pte = 0 then panic ''clearpteu'' else bind (ldw pte) (\<lambda>v. stw pte (v AND NOT PTE_U)))"

primrec copy_loop :: "nat \<Rightarrow> u32 \<Rightarrow> u32 \<Rightarrow> u32 \<Rightarrow> u32 \<Rightarrow> ('x kmst_scheme, u32) sm" where
  "copy_loop 0 pd d i n = fault ''copyuvm: fuel''"
| "copy_loop (Suc f) pd d i n =
     (if i < n then
        bind (walkpgdir pd i False) (\<lambda>pte.
        if pte = 0 then panic ''copyuvm: pte should exist''
        else bind (ldw pte) (\<lambda>v.
          if v AND PTE_P = 0 then panic ''copyuvm: page not present''
          else bind kalloc (\<lambda>m.
            if m = 0 then bind (freevm d) (\<lambda>_. ret 0)
            else bind (modify (\<lambda>s. s\<lparr>mem := write_bytes (mem s) m (read_bytes (mem s) (P2V (PTE_ADDR v)) PGSIZE)\<rparr>)) (\<lambda>_.
              bind (mappages d i 4096 (V2P m) (PTE_FLAGS v)) (\<lambda>r.
              if r < 0 then bind (freevm d) (\<lambda>_. ret 0)
              else copy_loop f pd d (i + 4096) n)))))
      else ret d)"

definition copyuvm :: "u32 \<Rightarrow> u32 \<Rightarrow> ('x kmst_scheme, u32) sm" where
  "copyuvm pd n = bind setupkvm (\<lambda>d.
     if d = 0 then ret 0 else copy_loop (2 ^ 20 + 1) pd d 0 n)"

text \<open>\<open>uva2ka\<close> reads through the result of \<open>walkpgdir\<close> without a check for a null pointer.\<close>

definition uva2ka :: "u32 \<Rightarrow> u32 \<Rightarrow> ('x kmst_scheme, u32) sm" where
  "uva2ka pd uva = bind (walkpgdir pd uva False) (\<lambda>pte.
     if pte = 0 then fault ''uva2ka: null pointer''
     else bind (ldw pte) (\<lambda>v.
       if v AND PTE_P = 0 then ret 0
       else if v AND PTE_U = 0 then ret 0
       else ret (P2V (PTE_ADDR v))))"

lemma page_offset: "unat (va - PGROUNDDOWN va) < 4096"
proof -
  have "4096 * (unat va div 4096) \<le> unat va" by simp
  then have "unat (va - PGROUNDDOWN va) = unat va - 4096 * (unat va div 4096)" unfolding unat_diff PGROUNDDOWN_unat by (rule if_P)
  also have "\<dots> = unat va mod 4096" by (rule minus_mult_div_eq_mod)
  finally show ?thesis by simp
qed

text \<open>\<open>copyout\<close> with the bytes at \<open>p\<close> as a list.\<close>

function copyout :: "u32 \<Rightarrow> u32 \<Rightarrow> u8 list \<Rightarrow> ('x kmst_scheme, int) sm" where
  "copyout pd va bs = (if bs = [] then ret 0
     else let va0 = PGROUNDDOWN va in
       bind (uva2ka pd va0) (\<lambda>pa0.
       if pa0 = 0 then ret (- 1)
       else let n = min (4096 - unat (va - va0)) (length bs) in
         bind (modify (\<lambda>s. s\<lparr>mem := write_bytes (mem s) (pa0 + (va - va0)) (take n bs)\<rparr>)) (\<lambda>_.
         copyout pd (va0 + 4096) (drop n bs))))"
  by pat_completeness auto
termination
  by (relation "measure (\<lambda>(pd, va, bs). length bs)") (use page_offset in \<open>auto simp: Let_def\<close>)

declare copyout.simps [simp del]

section \<open>The processor's view\<close>

text \<open>The translation the processor makes for kernel code, and loads and stores through it.\<close>

definition translate :: "(u32 \<Rightarrow> u8) \<Rightarrow> u32 \<Rightarrow> u32 \<Rightarrow> u32 option" where
  "translate m pd va = (let pde = ld32 m (pd + 4 * PDX va) in
     if pde AND PTE_P = 0 then None
     else let pte = ld32 m (P2V (PTE_ADDR pde) + 4 * PTX va) in
       if pte AND PTE_P = 0 then None else Some (P2V (PTE_ADDR pte) + (va AND 0xFFF)))"

primrec uload :: "nat \<Rightarrow> u32 \<Rightarrow> u32 \<Rightarrow> ('x kmst_scheme, u8 list) sm" where
  "uload 0 pd va = ret []"
| "uload (Suc n) pd va = bind (gets (\<lambda>s. map_option (mem s) (translate (mem s) pd va))) (\<lambda>b.
     case b of None \<Rightarrow> fault ''page fault''
     | Some b \<Rightarrow> bind (uload n pd (va + 1)) (\<lambda>bs. ret (b # bs)))"

primrec ustore :: "u8 list \<Rightarrow> u32 \<Rightarrow> u32 \<Rightarrow> ('x kmst_scheme, unit) sm" where
  "ustore [] pd va = ret ()"
| "ustore (b # bs) pd va = bind (gets (\<lambda>s. translate (mem s) pd va)) (\<lambda>a.
     case a of None \<Rightarrow> fault ''page fault''
     | Some a \<Rightarrow> bind (modify (\<lambda>s. s\<lparr>mem := (mem s)(a := b)\<rparr>)) (\<lambda>_. ustore bs pd (va + 1)))"

end
