(* ===== verification/Paging.thy ===== *)
theory Paging
  imports Vm
begin

text \<open>
  Correctness of the page-table code of \<^verbatim>\<open>vm.c\<close> with respect to \<open>translate\<close>, the walk the processor makes. \<open>pt_ok\<close> is the
  invariant of a page directory: its page, the pages of its page tables and the free pages are all different. Under
  it \<open>walkpgdir\<close> leaves every translation as it is, also when it allocates a page table, and \<open>mappages\<close> adds exactly the
  translations it is asked for.
\<close>

section \<open>Indices, entries and flags\<close>

lemma unat_PDX: "unat (PDX va) = unat va div 2 ^ 22"
proof -
  have "unat (PDX va) = unat (take_bit 10 (drop_bit 22 va))"
    by (simp add: PDX_def take_bit_eq_mask mask_eq_exp_minus_1)
  also have "\<dots> = unat va div 2 ^ 22 mod 1024"
    by (simp add: unsigned_take_bit_eq unsigned_drop_bit_eq take_bit_eq_mod drop_bit_eq_div unat_div_distrib unat_mod_distrib)
  also have "\<dots> = unat va div 2 ^ 22" using unat_lt [of va] by (simp add: less_mult_imp_div_less)
  finally show ?thesis .
qed

lemma unat_PTX: "unat (PTX va) = unat va div 4096 mod 1024"
proof -
  have "unat (PTX va) = unat (take_bit 10 (drop_bit 12 va))"
    by (simp add: PTX_def take_bit_eq_mask mask_eq_exp_minus_1)
  then show ?thesis by (simp add: unsigned_take_bit_eq unsigned_drop_bit_eq take_bit_eq_mod drop_bit_eq_div unat_div_distrib unat_mod_distrib)
qed

lemma index_bounds [simp]: "unat (PDX va) < 1024" "unat (PTX va) < 1024"
  using unat_lt [of va] by (simp_all add: unat_PDX unat_PTX less_mult_imp_div_less)

lemma index_pg: "PDX a = PDX b \<and> PTX a = PTX b \<longleftrightarrow> pg a = pg b"
proof -
  have *: "unat x div 2 ^ 22 = pg x div 1024" for x :: u32 by (simp add: pg_def div_mult2_eq [symmetric])
  have "pg a div 1024 = pg b div 1024 \<and> pg a mod 1024 = pg b mod 1024 \<longleftrightarrow> pg a = pg b"
    by (metis div_mult_mod_eq)
  then show ?thesis unfolding word_unat_eq_iff unat_PDX unat_PTX * by (simp add: pg_def)
qed

lemma entry_addr:
  assumes "aligned t" and "unat i < 1024"
  shows "unat (t + 4 * i) = unat t + 4 * unat i" and "pg (t + 4 * i) = pg t" and "unat (t + 4 * i) mod 4 = 0"
proof -
  obtain q where q: "unat t = 4096 * q" using assms(1) by (metis aligned_def dvdE mod_0_imp_dvd)
  have "q < 1048576" using unat_lt [of t] q by simp
  then show u: "unat (t + 4 * i) = unat t + 4 * unat i" using q assms(2) by (simp add: unat_word_ariths)
  show "pg (t + 4 * i) = pg t" using assms(2) unfolding pg_def u q by simp
  show "unat (t + 4 * i) mod 4 = 0" unfolding u q using mod_mult_self2_is_0 [of "1024 * q + unat i" 4] by simp
qed

lemma entry_inj: "aligned t \<Longrightarrow> unat i < 1024 \<Longrightarrow> unat j < 1024 \<Longrightarrow> t + 4 * i = t + 4 * j \<longleftrightarrow> i = j"
  using entry_addr(1) [of t i] entry_addr(1) [of t j] by (auto simp: word_unat_eq_iff)

lemma four_inj: "unat i < 1024 \<Longrightarrow> unat j < 1024 \<Longrightarrow> 4 * i = 4 * j \<longleftrightarrow> i = j" for i j :: u32
  using entry_inj [of 0 i j] by (simp add: aligned_def)

lemmas entry = entry_addr(2,3)

lemma aligned_PTE_ADDR [simp]: "aligned (PTE_ADDR x)"
  unfolding PTE_ADDR_def aligned_def unat_round by simp

lemma aligned_P2V [simp]: "aligned (P2V a) = aligned a" and aligned_V2P [simp]: "aligned (V2P a) = aligned a"
  and P2V_V2P [simp]: "P2V (V2P a) = a" and V2P_P2V [simp]: "V2P (P2V a) = a"
proof -
  have *: "aligned (x + KERNBASE) = aligned x" for x :: u32
    using mod_mod_cancel [of 4096 "2 ^ 32" "unat x + 2147483648"] mod_add_right_eq [of "unat x" 2147483648 4096]
    by (simp add: aligned_def KERNBASE_def unat_word_ariths)
  show "aligned (P2V a) = aligned a" by (simp add: P2V_def *)
  show "aligned (V2P a) = aligned a" using * [of "a - KERNBASE"] by (simp add: V2P_def)
qed (simp_all add: P2V_def V2P_def)

lemma PTE_ADDR_aligned: "aligned a \<Longrightarrow> PTE_ADDR a = a"
  unfolding PTE_ADDR_def word_unat_eq_iff unat_round aligned_def by (metis add.right_neutral mult_div_mod_eq)

text \<open>The flags of an entry are below the address bits.\<close>

definition flags_ok :: "u32 \<Rightarrow> bool" where
  "flags_ok f \<longleftrightarrow> PTE_ADDR f = 0"

lemma PTE_ADDR_flags: "aligned a \<Longrightarrow> flags_ok f \<Longrightarrow> PTE_ADDR (a OR f) = a"
  using PTE_ADDR_aligned [of a] by (simp add: PTE_ADDR_def flags_ok_def bit.conj_disj_distrib2)

lemma flags_ok_or: "flags_ok f \<Longrightarrow> flags_ok g \<Longrightarrow> flags_ok (f OR g)"
  by (simp add: PTE_ADDR_def flags_ok_def bit.conj_disj_distrib2)

lemma flags_consts [simp, intro]: "flags_ok PTE_P" "flags_ok PTE_W" "flags_ok PTE_U"
  by (simp_all add: flags_ok_def PTE_ADDR_def PTE_P_def PTE_W_def PTE_U_def)

lemma present_or [simp]: "(a OR PTE_P) AND PTE_P \<noteq> 0" "(PTE_P OR a) AND PTE_P \<noteq> 0"
  by (simp_all add: PTE_P_def bit.conj_disj_distrib2)

section \<open>The invariant of a page directory\<close>

text \<open>The page of the page table of directory entry \<open>d\<close>, when there is one.\<close>

definition has_tab :: "(u32 \<Rightarrow> u8) \<Rightarrow> u32 \<Rightarrow> u32 \<Rightarrow> bool" where
  "has_tab m pd d \<longleftrightarrow> unat d < 1024 \<and> ld32 m (pd + 4 * d) AND PTE_P \<noteq> 0"

definition tab :: "(u32 \<Rightarrow> u8) \<Rightarrow> u32 \<Rightarrow> u32 \<Rightarrow> u32" where
  "tab m pd d = P2V (PTE_ADDR (ld32 m (pd + 4 * d)))"

definition pt_ok :: "(u32 \<Rightarrow> u8) \<Rightarrow> u32 \<Rightarrow> u32 list \<Rightarrow> bool" where
  "pt_ok m pd ps \<longleftrightarrow> aligned pd \<and> pd \<notin> set ps \<and>
     (\<forall>d. has_tab m pd d \<longrightarrow> tab m pd d \<noteq> pd \<and> tab m pd d \<notin> set ps \<and> tab m pd d \<noteq> 0) \<and>
     (\<forall>d e. has_tab m pd d \<longrightarrow> has_tab m pd e \<longrightarrow> tab m pd d = tab m pd e \<longrightarrow> d = e)"

text \<open>The pages a page table is made of, and the free ones: what mapping a page may write.\<close>

definition pt_pages :: "(u32 \<Rightarrow> u8) \<Rightarrow> u32 \<Rightarrow> u32 set" where
  "pt_pages m pd = insert pd {tab m pd d | d. has_tab m pd d}"

lemma aligned_tab [simp]: "aligned (tab m pd d)"
  by (simp add: tab_def)

lemma translate_tab: "translate m pd va = (if has_tab m pd (PDX va) then
    (let pte = ld32 m (tab m pd (PDX va) + 4 * PTX va) in
       if pte AND PTE_P = 0 then None else Some (P2V (PTE_ADDR pte) + (va AND 0xFFF))) else None)"
  by (simp add: translate_def has_tab_def tab_def Let_def)

lemma pde_cong: "aligned pd \<Longrightarrow> (\<And>x. pg x = pg pd \<Longrightarrow> m x = n x) \<Longrightarrow> has_tab m pd d = has_tab n pd d \<and> (has_tab m pd d \<longrightarrow> tab m pd d = tab n pd d)"
proof (cases "unat d < 1024")
  case True
  assume a: "aligned pd" "\<And>x. pg x = pg pd \<Longrightarrow> m x = n x"
  have "ld32 m (pd + 4 * d) = ld32 n (pd + 4 * d)"
    by (rule ld32_page [OF entry_addr(3) [OF a(1) True]]) (use a(2) entry_addr(2) [OF a(1) True] in simp)
  then show ?thesis by (simp add: has_tab_def tab_def)
qed (simp add: has_tab_def)

text \<open>Installing an empty page table for a directory entry that has none.\<close>

definition new_tab :: "(u32 \<Rightarrow> u8) \<Rightarrow> u32 \<Rightarrow> u32 \<Rightarrow> u32 \<Rightarrow> u32 \<Rightarrow> u8" where
  "new_tab m pd d p = st32 (fill m p 0 PGSIZE) (pd + 4 * d) (V2P p OR PTE_P OR PTE_W OR PTE_U)"

lemma new_tab_pde:
  assumes "aligned pd" and "aligned p" and "p \<noteq> pd" and "unat d < 1024" and "unat e < 1024"
  shows "ld32 (new_tab m pd d p) (pd + 4 * e) = (if e = d then V2P p OR PTE_P OR PTE_W OR PTE_U else ld32 m (pd + 4 * e))"
proof -
  have "pg pd \<noteq> pg p" using assms(1-3) aligned_eq by blast
  then have "ld32 (fill m p 0 PGSIZE) (pd + 4 * e) = ld32 m (pd + 4 * e)"
    using ld32_page [OF entry_addr(3) [OF assms(1,5)], of "fill m p 0 PGSIZE" m] entry_addr(2) [OF assms(1,5)] fill_other [OF assms(2)] by simp
  then show ?thesis using assms ld32_st32_other [of "pd + 4 * d" "pd + 4 * e" "fill m p 0 PGSIZE"]
    by (simp add: new_tab_def ld32_st32 entry four_inj)
qed

lemma new_tab_other: "aligned pd \<Longrightarrow> aligned p \<Longrightarrow> unat d < 1024 \<Longrightarrow> pg x \<noteq> pg p \<Longrightarrow> pg x \<noteq> pg pd \<Longrightarrow> new_tab m pd d p x = m x"
  by (simp add: new_tab_def st32_other entry fill_other)

lemma new_tab_tab:
  assumes "aligned pd" and "aligned p" and "p \<noteq> pd" and "unat d < 1024"
  shows "has_tab (new_tab m pd d p) pd e \<longleftrightarrow> e = d \<or> has_tab m pd e"
    and "has_tab (new_tab m pd d p) pd e \<Longrightarrow> tab (new_tab m pd d p) pd e = (if e = d then p else tab m pd e)"
proof -
  have p: "PTE_ADDR (V2P p OR (PTE_P OR (PTE_W OR PTE_U))) = V2P p"
    by (rule PTE_ADDR_flags) (use assms(2) in \<open>auto intro: flags_ok_or\<close>)
  have q: "(V2P p OR (PTE_P OR (PTE_W OR PTE_U))) AND PTE_P \<noteq> 0"
    using present_or(2) [of "V2P p OR (PTE_W OR PTE_U)"] by (simp add: or.left_commute)
  show "has_tab (new_tab m pd d p) pd e \<longleftrightarrow> e = d \<or> has_tab m pd e"
    using new_tab_pde [OF assms, of e m] q assms(4) by (cases "unat e < 1024") (auto simp: has_tab_def or.assoc)
  show "has_tab (new_tab m pd d p) pd e \<Longrightarrow> tab (new_tab m pd d p) pd e = (if e = d then p else tab m pd e)"
    using new_tab_pde [OF assms, of e m] p by (auto simp: has_tab_def tab_def or.assoc)
qed

lemma new_tab_ok:
  assumes "pt_ok m pd (p # ps)" and "\<not> has_tab m pd d" and "unat d < 1024" and "aligned p" and "p \<noteq> 0" and "p \<notin> set ps"
  shows "pt_ok (new_tab m pd d p) pd ps" and "translate (new_tab m pd d p) pd va = translate m pd va"
    and "pt_pages (new_tab m pd d p) pd = insert p (pt_pages m pd)"
proof -
  have a: "aligned pd" "p \<noteq> pd" using assms(1) by (auto simp: pt_ok_def)
  note t = new_tab_tab [OF a(1) assms(4) a(2) assms(3)]
  have pgne: "pg p \<noteq> pg pd" using a assms(4) aligned_eq by blast
  have np: "tab m pd e \<noteq> p" if "has_tab m pd e" for e using assms(1) that by (auto simp: pt_ok_def)
  show "pt_ok (new_tab m pd d p) pd ps"
    using assms a np unfolding pt_ok_def by (auto simp: t split: if_splits)
  show "pt_pages (new_tab m pd d p) pd = insert p (pt_pages m pd)"
    using assms(2) unfolding pt_pages_def by (auto simp: t split: if_splits) (metis t)+
  show "translate (new_tab m pd d p) pd va = translate m pd va"
  proof (cases "PDX va = d")
    case True
    have "ld32 (new_tab m pd d p) (p + 4 * PTX va) = ld32 (fill m p 0 PGSIZE) (p + 4 * PTX va)"
      by (rule ld32_page) (use a assms(3,4) pgne in \<open>simp_all add: entry new_tab_def st32_other\<close>)
    also have "\<dots> = 0" by (rule ld32_zero) (use assms(4) in \<open>simp_all add: entry\<close>)
    finally show ?thesis using True assms(2) t(2) [of m d] by (simp add: translate_tab t(1) Let_def)
  next
    case False
    show ?thesis
    proof (cases "has_tab m pd (PDX va)")
      case True
      let ?t = "tab m pd (PDX va)"
      have "?t \<noteq> pd" using assms(1) True by (auto simp: pt_ok_def)
      then have "pg ?t \<noteq> pg pd" "pg ?t \<noteq> pg p" using aligned_eq [of ?t pd] aligned_eq [of ?t p] np [OF True] a(1) assms(4) by auto
      then have "ld32 (new_tab m pd d p) (?t + 4 * PTX va) = ld32 m (?t + 4 * PTX va)"
        by (intro ld32_page) (simp_all add: entry new_tab_other [OF a(1) assms(4,3)])
      then show ?thesis using True False t(2) [of m "PDX va"] by (simp add: translate_tab t(1))
    qed (use False in \<open>simp add: translate_tab t(1)\<close>)
  qed
qed

text \<open>Storing an entry of a page table.\<close>

lemma st_entry:
  assumes "pt_ok m pd ps" and "has_tab m pd (PDX va)" and "aligned pa" and "flags_ok f" and "f AND PTE_P \<noteq> 0"
  defines "m' \<equiv> st32 m (tab m pd (PDX va) + 4 * PTX va) (pa OR f)"
  shows "pt_ok m' pd ps" and "pt_pages m' pd = pt_pages m pd"
    and "translate m' pd x = (if pg x = pg va then Some (P2V pa + (x AND 0xFFF)) else translate m pd x)"
proof -
  let ?t = "tab m pd (PDX va)"
  let ?a = "?t + 4 * PTX va"
  have a: "aligned pd" "?t \<noteq> pd" using assms(1,2) by (auto simp: pt_ok_def)
  have o: "m' y = m y" if "pg y \<noteq> pg ?t" for y using that unfolding m'_def by (simp add: st32_other entry)
  have "pg ?t \<noteq> pg pd" using a aligned_eq [of ?t pd] by auto
  then have pde: "has_tab m' pd d = has_tab m pd d" "has_tab m pd d \<Longrightarrow> tab m' pd d = tab m pd d" for d
    using pde_cong [OF a(1), of m' m d] o by auto
  show "pt_ok m' pd ps" using assms(1) unfolding pt_ok_def by (metis pde)
  show "pt_pages m' pd = pt_pages m pd" unfolding pt_pages_def using pde by metis
  show "translate m' pd x = (if pg x = pg va then Some (P2V pa + (x AND 0xFFF)) else translate m pd x)"
  proof (cases "has_tab m pd (PDX x)")
    case True
    let ?u = "tab m pd (PDX x)"
    show ?thesis
    proof (cases "PDX x = PDX va")
      case d: True
      have "ld32 m' (?t + 4 * PTX x) = (if PTX x = PTX va then pa OR f else ld32 m (?t + 4 * PTX x))"
        using ld32_st32_other [of ?a "?t + 4 * PTX x" m] by (simp add: m'_def ld32_st32 entry four_inj)
      moreover have "(pa OR f) AND PTE_P \<noteq> 0" using assms(5) by (metis bit.conj_disj_distrib2 or_eq_0_iff)
      moreover have "PTE_ADDR (pa OR f) = pa" by (rule PTE_ADDR_flags [OF assms(3,4)])
      ultimately show ?thesis using True d index_pg [of x va] by (simp add: translate_tab pde Let_def)
    next
      case False
      then have "?u \<noteq> ?t" using assms(1,2) True unfolding pt_ok_def by blast
      then have "pg ?u \<noteq> pg ?t" using aligned_eq by auto
      then have "ld32 m' (?u + 4 * PTX x) = ld32 m (?u + 4 * PTX x)"
        by (intro ld32_page) (simp_all add: entry o)
      then show ?thesis using False True index_pg [of x va] by (auto simp: translate_tab pde)
    qed
  next
    case False
    then show ?thesis using assms(2) index_pg [of x va] by (auto simp: translate_tab pde)
  qed
qed

section \<open>Walking\<close>

lemma wp_ldw [wp_simps]: "wp (ldw a) Q s = Q (ld32 (mem s) a) s"
  by (simp add: ldw_def wp_gets)

lemma wp_stw [wp_simps]: "wp (stw a v) Q s = Q () (s\<lparr>mem := st32 (mem s) a v\<rparr>)"
  by (simp add: stw_def wp_modify)

lemma wp_zero_page [wp_simps]: "wp (zero_page a) Q s = Q () (s\<lparr>mem := fill (mem s) a 0 PGSIZE\<rparr>)"
  by (simp add: zero_page_def wp_modify)

text \<open>The allocator is in order, and the page directory with it.\<close>

definition vm_ok :: "('x kmst_scheme) \<Rightarrow> u32 \<Rightarrow> u32 list \<Rightarrow> bool" where
  "vm_ok s pd ps \<longleftrightarrow> can_lock KmemLk s \<and> pages_ok s ps \<and> pt_ok (mem s) pd ps"

lemma vm_okD: "vm_ok s pd ps \<Longrightarrow> can_lock KmemLk s" "vm_ok s pd ps \<Longrightarrow> pages_ok s ps" "vm_ok s pd ps \<Longrightarrow> pt_ok (mem s) pd ps"
  by (simp_all add: vm_ok_def)

text \<open>Nothing but the pages \<open>R\<close>, the head of the free list and the processor's lock state has changed.\<close>

definition untouched :: "u32 set \<Rightarrow> ('x kmst_scheme) \<Rightarrow> ('x kmst_scheme) \<Rightarrow> bool" where
  "untouched R s t \<longleftrightarrow> (\<forall>x. (\<forall>p\<in>R. pg x \<noteq> pg p) \<longrightarrow> mem t x = mem s x) \<and>
     cns t = cns s \<and> mmu t = mmu s \<and> use_lock t = use_lock s \<and> kend t = kend s \<and> kmst.more t = kmst.more s"

lemma untouched_refl [simp]: "untouched R s s"
  by (simp add: untouched_def)

lemma untouched_trans: "untouched R s t \<Longrightarrow> untouched R t u \<Longrightarrow> untouched R s u"
  by (simp add: untouched_def)

text \<open>What \<open>walkpgdir\<close> promises when it may allocate; \<open>R\<close> are the pages of the page table and the free pages.\<close>

definition walk_post :: "u32 set \<Rightarrow> u32 \<Rightarrow> ('x kmst_scheme) \<Rightarrow> u32 \<Rightarrow> u32 \<Rightarrow> ('x kmst_scheme) \<Rightarrow> bool" where
  "walk_post R pd s va r t \<longleftrightarrow> (\<exists>qs. vm_ok t pd qs \<and> pt_pages (mem t) pd \<union> set qs = R \<and> (r = 0 \<longrightarrow> qs = [])) \<and>
     (\<forall>x. translate (mem t) pd x = translate (mem s) pd x) \<and> untouched R s t \<and>
     (r \<noteq> 0 \<longrightarrow> has_tab (mem t) pd (PDX va) \<and> r = tab (mem t) pd (PDX va) + 4 * PTX va)"

lemma entry_nonzero: "aligned t \<Longrightarrow> t \<noteq> 0 \<Longrightarrow> t + 4 * PTX va \<noteq> 0"
  using entry_addr(1) [of t "PTX va"] by (auto simp: word_unat_eq_iff)

lemma vm_ok_new_tab:
  assumes "vm_ok s pd (p # qs)" and "\<not> has_tab (mem s) pd (PDX va)" and "pages_ok t qs" and "can_lock KmemLk t" and "mem t = mem s"
  shows "vm_ok (t\<lparr>mem := new_tab (mem t) pd (PDX va) p\<rparr>) pd qs"
proof -
  have p: "aligned p" "p \<noteq> 0" "p \<notin> set qs" and pd: "aligned pd" "pd \<noteq> p" "pd \<notin> set qs"
    using vm_okD(2,3) [OF assms(1)] by (simp_all add: pages_ok_def pt_ok_def page_ok_def)
  have f: "flist (mem t) (freelist t) qs" using assms(3) by (simp add: pages_ok_def)
  have al: "aligned q" if "q \<in> set qs" for q using flist_aligned [OF f that] by simp
  have "flist (new_tab (mem t) pd (PDX va) p) (freelist t) qs = flist (mem t) (freelist t) qs"
  proof (rule flist_cong, intro ballI allI impI)
    fix q x
    assume q: "q \<in> set qs" "pg x = pg q"
    have "q \<noteq> p" "q \<noteq> pd" using p(3) pd(3) q(1) by auto
    then have "pg q \<noteq> pg p" "pg q \<noteq> pg pd" using aligned_eq [OF al [OF q(1)]] p(1) pd(1) by auto
    then show "new_tab (mem t) pd (PDX va) p x = mem t x" using p pd q by (simp add: new_tab_other)
  qed
  moreover have "pt_ok (new_tab (mem t) pd (PDX va) p) pd qs"
    using new_tab_ok(1) [of "mem s" pd p qs "PDX va"] assms p by (simp add: vm_ok_def)
  ultimately show ?thesis using assms(3,4) by (simp add: vm_ok_def pages_ok_def)
qed

lemma walkpgdir_alloc:
  assumes "vm_ok s pd ps"
  defines "R \<equiv> pt_pages (mem s) pd \<union> set ps"
  shows "wp (walkpgdir pd va True) (walk_post R pd s va) s"
proof (cases "has_tab (mem s) pd (PDX va)")
  case True
  have "tab (mem s) pd (PDX va) \<noteq> 0" using assms True by (auto simp: vm_ok_def pt_ok_def)
  then show ?thesis using True assms(1) entry_nonzero [of "tab (mem s) pd (PDX va)" va]
    by (auto simp: walkpgdir_def wp_simps has_tab_def tab_def walk_post_def R_def)
next
  case False
  have "wp kalloc (\<lambda>r. wp (if r = 0 then ret 0 else bind (zero_page r) (\<lambda>_. bind (stw (pd + 4 * PDX va) (V2P r OR PTE_P OR PTE_W OR PTE_U))
    (\<lambda>_. ret (r + 4 * PTX va)))) (walk_post R pd s va)) s"
  proof (rule wp_mono [OF kalloc_pops [OF vm_okD(1,2) [OF assms(1)]]], elim conjE)
    fix r t
    assume c: "case ps of [] \<Rightarrow> r = 0 \<and> pages_ok t [] | p # qs \<Rightarrow> r = p \<and> r \<noteq> 0 \<and> pages_ok t qs"
      and t: "t = s\<lparr>freelist := freelist t, core := unlocked s\<rparr>"
    have tm: "mem t = mem s" by (subst t) simp
    have u: "untouched R s t" by (subst t) (simp add: untouched_def)
    have cl: "can_lock KmemLk t" using kmst_frame(2) [OF vm_okD(1) [OF assms(1)] t] by simp
    show "wp (if r = 0 then ret 0 else bind (zero_page r) (\<lambda>_. bind (stw (pd + 4 * PDX va) (V2P r OR PTE_P OR PTE_W OR PTE_U))
      (\<lambda>_. ret (r + 4 * PTX va)))) (walk_post R pd s va) t"
    proof (cases ps)
      case Nil
      then show ?thesis using c tm u cl assms(1) by (auto simp: wp_ret walk_post_def R_def vm_ok_def)
    next
      case (Cons p qs)
      let ?m = "new_tab (mem t) pd (PDX va) p"
      have p: "r = p" "p \<noteq> 0" "aligned p" "p \<notin> set qs" "p \<noteq> pd" "aligned pd" and q: "pages_ok t qs" using c Cons assms(1) flist_aligned [of "mem s" "freelist s" ps p]
        by (auto simp: vm_ok_def pages_ok_def pt_ok_def)
      note n = new_tab_ok [OF vm_okD(3) [OF assms(1), unfolded Cons] False index_bounds(1) p(3,2,4)]
      have ht: "has_tab ?m pd (PDX va)" using new_tab_tab(1) [OF p(6,3,5), of "PDX va" "mem t" "PDX va"] by simp
      have "untouched R t (t\<lparr>mem := ?m\<rparr>)"
        using new_tab_other [OF p(6,3) index_bounds(1)] Cons unfolding untouched_def R_def pt_pages_def by auto
      then have "untouched R s (t\<lparr>mem := ?m\<rparr>)" by (rule untouched_trans [OF u])
      moreover have "vm_ok (t\<lparr>mem := ?m\<rparr>) pd qs" by (rule vm_ok_new_tab [OF assms(1) [unfolded Cons] False q cl tm])
      moreover have "tab ?m pd (PDX va) = p" using new_tab_tab(2) [OF p(6,3,5) index_bounds(1) ht] by simp
      ultimately have "walk_post R pd s va (p + 4 * PTX va) (t\<lparr>mem := ?m\<rparr>)"
        using n ht Cons entry_nonzero [OF p(3,2), of va] tm unfolding walk_post_def R_def by (intro conjI exI [of _ qs]) auto
      then show ?thesis using p by (simp add: wp_simps new_tab_def)
    qed
  qed
  then show ?thesis using False by (simp add: walkpgdir_def wp_simps has_tab_def wp_bind_fun)
qed

section \<open>Mapping\<close>

text \<open>The addresses of \<open>M\<close> are mapped to what \<open>F\<close> says; everything else is translated as before.\<close>

definition map_post :: "u32 set \<Rightarrow> u32 \<Rightarrow> ('x kmst_scheme) \<Rightarrow> (u32 \<Rightarrow> bool) \<Rightarrow> (u32 \<Rightarrow> u32) \<Rightarrow> ('x kmst_scheme) \<Rightarrow> bool" where
  "map_post R pd s M F t \<longleftrightarrow> (\<exists>qs. vm_ok t pd qs \<and> pt_pages (mem t) pd \<union> set qs = R) \<and> untouched R s t \<and>
     (\<forall>x. translate (mem t) pd x = (if M x then Some (F x) else translate (mem s) pd x))"

lemma not_present: "translate m pd va = None \<Longrightarrow> has_tab m pd (PDX va) \<Longrightarrow> ld32 m (tab m pd (PDX va) + 4 * PTX va) AND PTE_P = 0"
  by (simp add: translate_tab Let_def split: if_splits)

lemma vm_ok_st_entry:
  assumes "vm_ok s pd ps" and "has_tab (mem s) pd (PDX va)" and "pt_ok (st32 (mem s) (tab (mem s) pd (PDX va) + 4 * PTX va) v) pd ps"
  shows "vm_ok (s\<lparr>mem := st32 (mem s) (tab (mem s) pd (PDX va) + 4 * PTX va) v\<rparr>) pd ps"
proof -
  let ?t = "tab (mem s) pd (PDX va)"
  have t: "?t \<notin> set ps" using assms(1,2) by (simp add: vm_ok_def pt_ok_def)
  have "flist (st32 (mem s) (?t + 4 * PTX va) v) (freelist s) ps = flist (mem s) (freelist s) ps"
  proof (rule flist_cong, intro ballI allI impI)
    fix q x
    assume q: "q \<in> set ps" "pg x = pg q"
    have "aligned q" using vm_okD(2) [OF assms(1)] q(1) unfolding pages_ok_def by (meson flist_aligned)
    then have "pg q \<noteq> pg ?t" using aligned_eq [of q ?t] t q(1) by fastforce
    then show "st32 (mem s) (?t + 4 * PTX va) v x = mem s x" using q(2) by (simp add: st32_other entry)
  qed
  then show ?thesis using assms(1,3) by (simp add: vm_ok_def pages_ok_def can_lock_def)
qed

lemma map_one_wp:
  assumes "vm_ok s pd ps" and "translate (mem s) pd va = None" and "aligned pa" and "flags_ok perm"
  defines "R \<equiv> pt_pages (mem s) pd \<union> set ps"
  shows "wp (map_one pd va pa perm) (\<lambda>ok t. if ok then map_post R pd s (\<lambda>x. pg x = pg va) (\<lambda>x. P2V pa + (x AND 0xFFF)) t
    else freelist t = 0 \<and> map_post R pd s (\<lambda>_. False) id t) s"
proof -
  have "wp (walkpgdir pd va True) (\<lambda>r. wp (if r = 0 then ret False else bind (ldw r) (\<lambda>v. if v AND PTE_P \<noteq> 0 then panic ''remap''
     else bind (stw r (pa OR perm OR PTE_P)) (\<lambda>_. ret True))) (\<lambda>ok t. if ok then map_post R pd s (\<lambda>x. pg x = pg va) (\<lambda>x. P2V pa + (x AND 0xFFF)) t
    else freelist t = 0 \<and> map_post R pd s (\<lambda>_. False) id t)) s"
  proof (rule wp_mono [OF walkpgdir_alloc [OF assms(1)]])
    fix r t
    assume "walk_post (pt_pages (mem s) pd \<union> set ps) pd s va r t"
    then obtain qs where w: "vm_ok t pd qs" "pt_pages (mem t) pd \<union> set qs = R" "r = 0 \<longrightarrow> qs = []" "\<And>x. translate (mem t) pd x = translate (mem s) pd x"
        "untouched R s t" "r \<noteq> 0 \<longrightarrow> has_tab (mem t) pd (PDX va) \<and> r = tab (mem t) pd (PDX va) + 4 * PTX va"
      unfolding walk_post_def R_def by blast
    show "wp (if r = 0 then ret False else bind (ldw r) (\<lambda>v. if v AND PTE_P \<noteq> 0 then panic ''remap''
     else bind (stw r (pa OR perm OR PTE_P)) (\<lambda>_. ret True))) (\<lambda>ok t. if ok then map_post R pd s (\<lambda>x. pg x = pg va) (\<lambda>x. P2V pa + (x AND 0xFFF)) t
    else freelist t = 0 \<and> map_post R pd s (\<lambda>_. False) id t) t"
    proof (cases "r = 0")
      case True
      then have "freelist t = 0" using w(1,3) by (simp add: vm_ok_def pages_ok_def)
      then show ?thesis using True w by (auto simp: wp_ret map_post_def)
    next
      case False
      let ?u = "t\<lparr>mem := st32 (mem t) r (pa OR perm OR PTE_P)\<rparr>"
      have h: "has_tab (mem t) pd (PDX va)" and r: "r = tab (mem t) pd (PDX va) + 4 * PTX va" using w(6) False by simp_all
      have np: "ld32 (mem t) r AND PTE_P = 0" using not_present [OF _ h] w(4) assms(2) r by simp
      note e = st_entry [OF vm_okD(3) [OF w(1)] h assms(3) flags_ok_or [OF assms(4) flags_consts(1)] present_or(1) [of perm], folded r]
      have tR: "tab (mem t) pd (PDX va) \<in> R" using h w(2) unfolding pt_pages_def by auto
      have "vm_ok ?u pd qs" using vm_ok_st_entry [OF w(1) h] e(1) r by simp
      moreover have "untouched R t ?u"
        using tR st32_other [of r _ "mem t" "pa OR perm OR PTE_P"] unfolding untouched_def r by (auto simp: entry)
      then have "untouched R s ?u" by (rule untouched_trans [OF w(5)])
      ultimately have "map_post R pd s (\<lambda>x. pg x = pg va) (\<lambda>x. P2V pa + (x AND 0xFFF)) ?u"
        using e(2,3) w(2,4) unfolding map_post_def by auto
      then show ?thesis using False np by (simp add: wp_simps)
    qed
  qed
  then show ?thesis by (simp add: map_one_def wp_bind)
qed

lemma offset_eq: "aligned a \<Longrightarrow> pg x = pg a \<Longrightarrow> x AND 0xFFF = x - a"
proof -
  assume a: "aligned a" "pg x = pg a"
  have m: "(0xFFF :: u32) = mask 12" by (simp add: mask_eq_exp_minus_1)
  have u: "unat (x AND 0xFFF) = unat x mod 4096"
    unfolding m by (simp only: take_bit_eq_mask [symmetric] unsigned_take_bit_eq) (simp add: take_bit_eq_mod)
  have ua: "unat a = 4096 * (unat x div 4096)" using a mult_div_mod_eq [of 4096 "unat a"] by (simp add: aligned_def pg_def)
  then have "unat (x - a) = unat x - 4096 * (unat x div 4096)" unfolding unat_diff ua by (intro if_P) simp
  then show ?thesis unfolding word_unat_eq_iff u by (simp add: minus_mult_div_eq_mod)
qed

lemma unat_step: "unat (x - (a + 4096)) = (if 4096 \<le> unat (x - a) then unat (x - a) - 4096 else unat (x - a) + 2 ^ 32 - 4096)" for x a :: u32
proof -
  have "x - (a + 4096) = x - a - 4096" and n: "unat (4096 :: u32) = 4096" by simp_all
  then show ?thesis by (simp only: unat_diff [of "x - a" 4096] n)
qed

lemma range_Suc:
  fixes x a :: u32
  assumes "4096 * Suc (Suc n) \<le> 2 ^ 32"
  shows "unat (x - a) < 4096 * Suc (Suc n) \<longleftrightarrow> unat (x - a) < 4096 \<or> unat (x - (a + 4096)) < 4096 * Suc n"
  unfolding unat_step [of x a] using assms unat_lt [of "x - a"] by auto

lemma map_loop_wp:
  assumes "vm_ok s pd ps" and "aligned a" and "aligned pa" and "flags_ok perm" and "4096 * Suc n \<le> 2 ^ 32"
    and "\<forall>x. unat (x - a) < 4096 * Suc n \<longrightarrow> translate (mem s) pd x = None"
  defines "R \<equiv> pt_pages (mem s) pd \<union> set ps"
  shows "wp (map_loop n pd a pa perm) (\<lambda>ok t. if ok then map_post R pd s (\<lambda>x. unat (x - a) < 4096 * Suc n) (\<lambda>x. P2V (pa + (x - a))) t
    else freelist t = 0 \<and> untouched R s t) s"
  unfolding R_def using assms(1-6)
proof (induction n arbitrary: a pa s ps)
  case 0
  have n: "translate (mem s) pd a = None" using 0(6) by simp
  show ?case unfolding map_loop.simps
  proof (rule wp_mono [OF map_one_wp [OF 0(1) n 0(3,4)]])
    fix ok t
    assume t: "if ok then map_post (pt_pages (mem s) pd \<union> set ps) pd s (\<lambda>x. pg x = pg a) (\<lambda>x. P2V pa + (x AND 0xFFF)) t
      else freelist t = 0 \<and> map_post (pt_pages (mem s) pd \<union> set ps) pd s (\<lambda>_. False) id t"
    show "if ok then map_post (pt_pages (mem s) pd \<union> set ps) pd s (\<lambda>x. unat (x - a) < 4096 * Suc 0) (\<lambda>x. P2V (pa + (x - a))) t
      else freelist t = 0 \<and> untouched (pt_pages (mem s) pd \<union> set ps) s t"
      using t in_page [OF 0(2)] offset_eq [OF 0(2)] by (auto simp: map_post_def P2V_def algebra_simps)
  qed
next
  case (Suc n)
  let ?R = "pt_pages (mem s) pd \<union> set ps"
  let ?Q = "\<lambda>ok t. if ok then map_post ?R pd s (\<lambda>x. unat (x - a) < 4096 * Suc (Suc n)) (\<lambda>x. P2V (pa + (x - a))) t
    else freelist t = 0 \<and> untouched ?R s t"
  have n: "translate (mem s) pd a = None" using Suc.prems(6) by simp
  note rs = range_Suc [OF Suc.prems(5)]
  have al: "aligned (b + 4096) = aligned b" for b
    using mod_mod_cancel [of 4096 "2 ^ 32" "unat b + 4096"] by (simp add: aligned_def unat_word_ariths)
  have "wp (map_one pd a pa perm) (\<lambda>ok. wp (if ok then map_loop n pd (a + 4096) (pa + 4096) perm else ret False) ?Q) s"
  proof (rule wp_mono [OF map_one_wp [OF Suc.prems(1) n Suc.prems(3,4)]])
    fix ok t
    assume t: "if ok then map_post ?R pd s (\<lambda>x. pg x = pg a) (\<lambda>x. P2V pa + (x AND 0xFFF)) t
      else freelist t = 0 \<and> map_post ?R pd s (\<lambda>_. False) id t"
    show "wp (if ok then map_loop n pd (a + 4096) (pa + 4096) perm else ret False) ?Q t"
    proof (cases ok)
      case True
      then obtain qs where q: "vm_ok t pd qs" "pt_pages (mem t) pd \<union> set qs = ?R" and u: "untouched ?R s t"
          and tr: "\<And>x. translate (mem t) pd x = (if pg x = pg a then Some (P2V pa + (x AND 0xFFF)) else translate (mem s) pd x)"
        using t unfolding map_post_def by auto
      have apart: "pg x \<noteq> pg a" if "unat (x - (a + 4096)) < 4096 * Suc n" for x
        using that Suc.prems(5) in_page [OF Suc.prems(2), of x] unfolding unat_step [of x a] by auto
      have "wp (map_loop n pd (a + 4096) (pa + 4096) perm) (\<lambda>ok u. if ok then map_post (pt_pages (mem t) pd \<union> set qs) pd t
          (\<lambda>x. unat (x - (a + 4096)) < 4096 * Suc n) (\<lambda>x. P2V (pa + 4096 + (x - (a + 4096)))) u
        else freelist u = 0 \<and> untouched (pt_pages (mem t) pd \<union> set qs) t u) t"
        by (rule Suc.IH [OF q(1)]) (use Suc.prems al apart tr rs in auto)
      then have "wp (map_loop n pd (a + 4096) (pa + 4096) perm) ?Q t"
      proof (rule wp_mono)
        fix ok u'
        assume w: "if ok then map_post (pt_pages (mem t) pd \<union> set qs) pd t
          (\<lambda>x. unat (x - (a + 4096)) < 4096 * Suc n) (\<lambda>x. P2V (pa + 4096 + (x - (a + 4096)))) u'
          else freelist u' = 0 \<and> untouched (pt_pages (mem t) pd \<union> set qs) t u'"
        have un: "untouched ?R s u'" using w q(2) untouched_trans [OF u] unfolding map_post_def by (auto split: if_splits)
        have "map_post ?R pd s (\<lambda>x. unat (x - a) < 4096 * Suc (Suc n)) (\<lambda>x. P2V (pa + (x - a))) u'" if ok
          unfolding map_post_def
        proof (intro conjI allI)
          show "\<exists>qs. vm_ok u' pd qs \<and> pt_pages (mem u') pd \<union> set qs = ?R" using w that q(2) by (simp add: map_post_def)
          show "untouched ?R s u'" by (rule un)
          fix x
          have "translate (mem u') pd x = (if unat (x - (a + 4096)) < 4096 * Suc n then Some (P2V (pa + (x - a))) else translate (mem t) pd x)"
            using w that by (simp add: map_post_def)
          then show "translate (mem u') pd x = (if unat (x - a) < 4096 * Suc (Suc n) then Some (P2V (pa + (x - a))) else translate (mem s) pd x)"
            unfolding rs tr in_page [OF Suc.prems(2), symmetric]
            using offset_eq [OF Suc.prems(2), of x] in_page [OF Suc.prems(2), of x] by (simp add: P2V_def algebra_simps)
        qed
        then show "?Q ok u'" using w un by auto
      qed
      then show ?thesis using True by simp
    next
      case False
      then show ?thesis using t by (simp add: wp_ret map_post_def)
    qed
  qed
  then show ?case by (simp add: wp_bind)
qed

lemma aligned_PGROUNDDOWN [simp]: "aligned (PGROUNDDOWN a)" and pg_PGROUNDDOWN [simp]: "pg (PGROUNDDOWN a) = pg a"
  by (simp_all add: aligned_def pg_def PGROUNDDOWN_unat)

lemma page_count:
  assumes "0 < unat n" and "unat va + unat n \<le> 2 ^ 32"
  defines "k \<equiv> unat ((PGROUNDDOWN (va + n - 1) - PGROUNDDOWN va) div 4096)"
  shows "k = pg (va + n - 1) - pg va" and "pg va \<le> pg (va + n - 1)" and "4096 * Suc k \<le> 2 ^ 32"
    and "unat (x - PGROUNDDOWN va) < 4096 * Suc k \<longleftrightarrow> pg va \<le> pg x \<and> pg x \<le> pg (va + n - 1)"
proof -
  have "n - 1 = n + 0xFFFFFFFF" by simp
  have n1: "unat (n - 1) = unat n - 1" using assms(1) by (intro unat_minus_one) auto
  have l: "unat (va + n - 1) = unat va + unat n - 1"
    using assms(1,2) n1 by (simp add: add_diff_eq [symmetric] unat_word_ariths)
  show le: "pg va \<le> pg (va + n - 1)" unfolding pg_def l using assms(1) by (intro div_le_mono) simp
  have d: "unat (PGROUNDDOWN (va + n - 1) - PGROUNDDOWN va) = 4096 * (pg (va + n - 1) - pg va)"
    using le unfolding unat_diff PGROUNDDOWN_unat pg_def by (simp add: diff_mult_distrib2)
  then show k: "k = pg (va + n - 1) - pg va" unfolding k_def by (simp add: unat_div_distrib)
  have "pg (va + n - 1) < 1048576" unfolding pg_def using unat_lt [of "va + n - 1"] by (simp add: less_mult_imp_div_less)
  then show "4096 * Suc k \<le> 2 ^ 32" unfolding k by simp
  have a: "unat (PGROUNDDOWN va) = 4096 * pg va" by (simp add: PGROUNDDOWN_unat pg_def)
  have x: "unat x = 4096 * pg x + unat x mod 4096" "unat x mod 4096 < 4096" by (simp_all add: pg_def)
  have "pg va < 1048576" unfolding pg_def using unat_lt [of va] by (simp add: less_mult_imp_div_less)
  then show "unat (x - PGROUNDDOWN va) < 4096 * Suc k \<longleftrightarrow> pg va \<le> pg x \<and> pg x \<le> pg (va + n - 1)"
    using x le \<open>pg (va + n - 1) < 1048576\<close> unfolding unat_diff a k by auto
qed


text \<open>A machine with an empty page directory and one free page.\<close>

definition demo_mem :: kmst where
  "demo_mem = \<lparr>core = core0, cns = console0, mmu = mmu0, mem = (\<lambda>_. 0), freelist = 0x80300000, use_lock = True, kend = 0x80114FF0\<rparr>"

lemma vm_ok_demo: "vm_ok demo_mem 0x80200000 [0x80300000]" and translate_demo: "translate (mem demo_mem) pd x = None"
  and no_tab_demo: "\<not> has_tab (mem demo_mem) pd d"
proof -
  have z: "ld32 (\<lambda>_. 0) a = 0" for a by (simp add: ld32_def rd32_def)
  show "\<not> has_tab (mem demo_mem) pd d" for pd d by (simp add: has_tab_def demo_mem_def z)
  then show "vm_ok demo_mem 0x80200000 [0x80300000]" "translate (mem demo_mem) pd x = None"
    using quiet_core0 by (simp_all add: vm_ok_def can_lock_def quiet_def pages_ok_def page_ok_def pt_ok_def aligned_def demo_mem_def z V2P_def PHYSTOP_def KERNBASE_def translate_tab)
qed


end
