(* ===== verification/Ide.thy ===== *)
theory Ide
  imports Kalloc
begin

text \<open>
  Disk buffers and the IDE driver \<^verbatim>\<open>ide.c\<close>. The disk is part of the state: \<open>disk d b\<close> is the
  contents of sector \<open>b\<close> of drive \<open>d\<close>, and \<open>wrlog\<close> records every sector write the drive has
  performed, in order, so that a power failure after any of them can be stated. A command is
  latched in \<open>idecmd\<close> by \<open>idestart\<close>; the drive performs it and raises an interrupt, and
  \<open>ideintr\<close> runs. A thread that sleeps in \<open>iderw\<close> is woken by that interrupt only, so its wait
  loop is the sequence of interrupts up to the one that completes its buffer.

  \<open>iderw_wp\<close> is the contract of the driver: a dirty buffer reaches the disk, a clean one is
  filled from it.
\<close>

definition BSIZE :: nat where "BSIZE = 512"
definition FSSIZE :: u32 where "FSSIZE = 1000"
definition NBUF :: nat where "NBUF = 30"
definition B_VALID :: u32 where "B_VALID = 2"
definition B_DIRTY :: u32 where "B_DIRTY = 4"
definition IDE_BSY :: u8 where "IDE_BSY = 0x80"
definition IDE_DRDY :: u8 where "IDE_DRDY = 0x40"
definition IDE_DF :: u8 where "IDE_DF = 0x20"
definition IDE_ERR :: u8 where "IDE_ERR = 0x01"

record buf =
  flags :: u32
  bdev :: u32
  blockno :: u32
  refcnt :: u32
  bprev :: nat
  bnext :: nat
  qnext :: "nat option"
  bdata :: "u8 list"

text \<open>\<open>bufs i\<close> for \<open>i < NBUF\<close> is \<open>bcache.buf[i]\<close>, and \<open>bufs NBUF\<close> is \<open>bcache.head\<close>.\<close>

record bst = kmst +
  bufs :: "nat \<Rightarrow> buf"
  idequeue :: "nat option"
  havedisk1 :: bool
  idests :: u8
  probe1 :: u8
  idecmd :: "(u32 \<times> u32 \<times> u8 list option) option"
  disk :: "u32 \<Rightarrow> u32 \<Rightarrow> u8 list"
  wrlog :: "(u32 \<times> u32 \<times> u8 list) list"

definition upd_buf :: "nat \<Rightarrow> (buf \<Rightarrow> buf) \<Rightarrow> ('x bst_scheme, unit) sm" where
  "upd_buf i f = modify (\<lambda>s. s\<lparr>bufs := (bufs s)(i := f (bufs s i))\<rparr>)"

section \<open>The driver\<close>

definition idewait :: "bool \<Rightarrow> ('x bst_scheme, int) sm" where
  "idewait checkerr = bind (gets idests) (\<lambda>r.
     if r AND (IDE_BSY OR IDE_DRDY) \<noteq> IDE_DRDY then wait_on DiskBusy
     else if checkerr \<and> r AND (IDE_DF OR IDE_ERR) \<noteq> 0 then ret (-1) else ret 0)"

definition ideinit :: "('x bst_scheme, unit) sm" where
  "ideinit = bind (initlock IdeLk) (\<lambda>_.
     bind (idewait False) (\<lambda>_.
     modify (\<lambda>s. if probe1 s \<noteq> 0 then s\<lparr>havedisk1 := True\<rparr> else s)))"

text \<open>\<open>sector_per_block\<close> is \<open>BSIZE / SECTOR_SIZE = 1\<close>, so the sector is the block number.\<close>

definition idestart :: "nat option \<Rightarrow> ('x bst_scheme, unit) sm" where
  "idestart p = (case p of None \<Rightarrow> panic ''idestart'' | Some i \<Rightarrow>
     bind (gets (\<lambda>s. bufs s i)) (\<lambda>b.
     if blockno b \<ge> FSSIZE then panic ''incorrect blockno'' else
     bind (idewait False) (\<lambda>_.
     modify (\<lambda>s. s\<lparr>idecmd := Some (bdev b AND 1, blockno b,
       if flags b AND B_DIRTY \<noteq> 0 then Some (bdata b) else None)\<rparr>))))"

definition ideintr :: "('x bst_scheme, unit) sm" where
  "ideintr = with_lock IdeLk (bind (gets idequeue) (\<lambda>q.
     case q of None \<Rightarrow> ret () | Some i \<Rightarrow>
     bind (modify (\<lambda>s. s\<lparr>idequeue := qnext (bufs s i)\<rparr>)) (\<lambda>_.
     bind (gets (\<lambda>s. flags (bufs s i) AND B_DIRTY = 0)) (\<lambda>rd.
     bind (if rd then bind (idewait True) (\<lambda>r.
             if r \<ge> 0 then bind (gets idecmd) (\<lambda>c. case c of
                 Some (d, b, _) \<Rightarrow> bind (gets (\<lambda>s. disk s d b)) (\<lambda>x. upd_buf i (\<lambda>k. k\<lparr>bdata := x\<rparr>))
               | None \<Rightarrow> fault ''insl'') else ret ()) else ret ()) (\<lambda>_.
     bind (upd_buf i (\<lambda>k. k\<lparr>flags := flags k OR B_VALID\<rparr>)) (\<lambda>_.
     bind (upd_buf i (\<lambda>k. k\<lparr>flags := flags k AND NOT B_DIRTY\<rparr>)) (\<lambda>_.
     bind (wakeup (ChBuf i)) (\<lambda>_.
     bind (gets idequeue) (\<lambda>q'.
     whenM (q' \<noteq> None) (idestart q'))))))))))"

text \<open>The drive performs the latched command, then its interrupt is taken.\<close>

definition ide_complete :: "'x bst_scheme \<Rightarrow> 'x bst_scheme" where
  "ide_complete s = (case idecmd s of
       Some (d, b, Some x) \<Rightarrow> s\<lparr>disk := (disk s)(d := (disk s d)(b := x)), wrlog := wrlog s @ [(d, b, x)]\<rparr>
     | _ \<Rightarrow> s)"

definition disk_interrupt :: "('x bst_scheme, unit) sm" where
  "disk_interrupt = bind (modify ide_complete) (\<lambda>_. ideintr)"

text \<open>The walk \<open>for(pp=&idequeue; *pp; pp=&(*pp)->qnext)\<close>: the last buffer of the queue.\<close>

primrec q_last :: "nat \<Rightarrow> (nat \<Rightarrow> buf) \<Rightarrow> nat \<Rightarrow> nat option" where
  "q_last 0 B i = None"
| "q_last (Suc n) B i = (case qnext (B i) of None \<Rightarrow> Some i | Some j \<Rightarrow> q_last n B j)"

definition q_append :: "nat \<Rightarrow> ('x bst_scheme, unit) sm" where
  "q_append i = bind (upd_buf i (\<lambda>k. k\<lparr>qnext := None\<rparr>)) (\<lambda>_.
     bind (gets idequeue) (\<lambda>q. case q of
       None \<Rightarrow> modify (\<lambda>s. s\<lparr>idequeue := Some i\<rparr>)
     | Some h \<Rightarrow> bind (gets (\<lambda>s. q_last NBUF (bufs s) h)) (\<lambda>l. case l of
         None \<Rightarrow> fault ''idequeue'' | Some j \<Rightarrow> upd_buf j (\<lambda>k. k\<lparr>qnext := Some i\<rparr>))))"

text \<open>
  \<open>while((b->flags & (B_VALID|B_DIRTY)) != B_VALID) sleep(b, &idelock)\<close>: each turn gives the lock
  up, takes one disk interrupt and takes the lock back. At most \<open>NBUF\<close> requests are queued, so
  that many interrupts complete any of them; after more the thread is still asleep.
\<close>

primrec iderw_wait :: "nat \<Rightarrow> nat \<Rightarrow> ('x bst_scheme, unit) sm" where
  "iderw_wait 0 i = wait_on (SleepOn (ChBuf i))"
| "iderw_wait (Suc n) i = bind (gets (\<lambda>s. flags (bufs s i))) (\<lambda>f.
     if f AND (B_VALID OR B_DIRTY) \<noteq> B_VALID
     then bind (release IdeLk) (\<lambda>_. bind disk_interrupt (\<lambda>_. bind (acquire IdeLk) (\<lambda>_. iderw_wait n i)))
     else ret ())"

definition iderw :: "nat \<Rightarrow> ('x bst_scheme, unit) sm" where
  "iderw i = bind (holdingsleep (BufL i)) (\<lambda>h.
     if \<not> h then panic ''iderw: buf not locked'' else
     bind (gets (\<lambda>s. bufs s i)) (\<lambda>b.
     if flags b AND (B_VALID OR B_DIRTY) = B_VALID then panic ''iderw: nothing to do'' else
     bind (gets havedisk1) (\<lambda>hd.
     if bdev b \<noteq> 0 \<and> \<not> hd then panic ''iderw: ide disk 1 not present'' else
     bind (acquire IdeLk) (\<lambda>_.
     bind (q_append i) (\<lambda>_.
     bind (gets idequeue) (\<lambda>q.
     bind (whenM (q = Some i) (idestart (Some i))) (\<lambda>_.
     bind (iderw_wait (Suc NBUF) i) (\<lambda>_.
     release IdeLk))))))))"

section \<open>The contract of the driver\<close>

definition bvalid :: "buf \<Rightarrow> bool" where "bvalid b \<longleftrightarrow> flags b AND B_VALID \<noteq> 0"
definition bdirty :: "buf \<Rightarrow> bool" where "bdirty b \<longleftrightarrow> flags b AND B_DIRTY \<noteq> 0"

lemma bvalid_bit: "bvalid b = bit (flags b) 1"
  using and_exp_eq_0_iff_not_bit [of "flags b" 1] by (simp add: bvalid_def B_VALID_def)

lemma bdirty_bit: "bdirty b = bit (flags b) 2"
  using and_exp_eq_0_iff_not_bit [of "flags b" 2] by (simp add: bdirty_def B_DIRTY_def)

lemma and_exp_word: "x AND 2 ^ n = (if bit x n then 2 ^ n else 0)" for x :: "'a::len word"
  by (rule bit_word_eqI) (auto simp: bit_simps)

lemma flags_done: "flags b AND (B_VALID OR B_DIRTY) = B_VALID \<longleftrightarrow> bvalid b \<and> \<not> bdirty b"
proof -
  have "flags b AND (B_VALID OR B_DIRTY) = (flags b AND B_VALID) OR (flags b AND B_DIRTY)"
    by (rule bit_word_eqI) (auto simp: bit_simps)
  then show ?thesis
    using and_exp_word [of "flags b" 1] and_exp_word [of "flags b" 2]
    by (auto simp: bvalid_bit bdirty_bit B_VALID_def B_DIRTY_def)
qed

lemma flags_set: "((f OR B_VALID) AND NOT B_DIRTY) AND (B_VALID OR B_DIRTY) = B_VALID"
  using flags_done [of "undefined\<lparr>flags := (f OR B_VALID) AND NOT B_DIRTY\<rparr>"]
  by (simp add: bvalid_bit bdirty_bit B_VALID_def B_DIRTY_def bit_simps)

lemma bvalid_set_valid [simp]: "bvalid (b\<lparr>flags := flags b OR B_VALID\<rparr>)"
  and bdirty_set_valid [simp]: "bdirty (b\<lparr>flags := flags b OR B_VALID\<rparr>) = bdirty b"
  and bvalid_set_dirty [simp]: "bvalid (b\<lparr>flags := flags b OR B_DIRTY\<rparr>) = bvalid b"
  and bdirty_set_dirty [simp]: "bdirty (b\<lparr>flags := flags b OR B_DIRTY\<rparr>)"
  and bvalid_clear [simp]: "bvalid (b\<lparr>flags := f AND NOT B_DIRTY\<rparr>) = bit f 1"
  and bdirty_clear [simp]: "\<not> bdirty (b\<lparr>flags := f AND NOT B_DIRTY\<rparr>)"
  by (simp_all add: bvalid_bit bdirty_bit B_VALID_def B_DIRTY_def bit_simps)

definition ide_ready :: "'x bst_scheme \<Rightarrow> bool" where
  "ide_ready s \<longleftrightarrow> idests s AND (IDE_BSY OR IDE_DRDY) = IDE_DRDY \<and> idests s AND (IDE_DF OR IDE_ERR) = 0"

lemma wp_idewait: "ide_ready s \<Longrightarrow> wp (idewait b) Q s = Q 0 s"
  by (simp add: idewait_def ide_ready_def wp_simps)

lemma quiet_nested_ptable:
  "lk_ok c \<Longrightarrow> (\<And>l. slk c l = free_lk) \<Longrightarrow> l \<noteq> PtableLk \<Longrightarrow> slk (acquired l c) PtableLk = free_lk"
  by simp

text \<open>The interrupt that completes the only queued request.\<close>

definition intr_done :: "nat \<Rightarrow> 'x bst_scheme \<Rightarrow> u32 \<Rightarrow> u32 \<Rightarrow> buf" where
  "intr_done i s d n = (let b = bufs s i in
     b\<lparr>bdata := (if bdirty b then bdata b else disk s d n), flags := (flags b OR B_VALID) AND NOT B_DIRTY\<rparr>)"

lemma intr_done_simps:
  "flags (bufs s i) AND B_DIRTY \<noteq> 0 \<Longrightarrow>
     intr_done i s d n = (bufs s i)\<lparr>flags := (flags (bufs s i) OR B_VALID) AND NOT B_DIRTY\<rparr>"
  "flags (bufs s i) AND B_DIRTY = 0 \<Longrightarrow> intr_done i s d n =
     (bufs s i)\<lparr>bdata := disk s d n, flags := (flags (bufs s i) OR B_VALID) AND NOT B_DIRTY\<rparr>"
  by (simp_all add: intr_done_def bdirty_def Let_def)

lemma ideintr_wp:
  assumes q: "quiet (core s)" and rdy: "ide_ready s" and idq: "idequeue s = Some i" and qn: "qnext (bufs s i) = None"
    and cmd: "idecmd s = Some (d, n, x)"
    and post: "\<And>c'. env c' = env (core s) \<Longrightarrow> slp c' = slp (core s) \<Longrightarrow>
      Q () (s\<lparr>idequeue := None, bufs := (bufs s)(i := intr_done i s d n), core := c'\<rparr>)"
  shows "wp ideintr Q s"
proof -
  let ?c = "core s"
  have ok: "lk_ok ?c" and fr: "slk ?c l = free_lk" for l
    using q by (simp_all add: quiet_lk_ok quiet_free)
  have "Q () (s\<lparr>idequeue := None, bufs := (bufs s)(i := intr_done i s d n),
      core := set_sp (slp ?c) (woken (ChBuf i) (procs ?c)) (popped ?c)\<rparr>)"
    by (rule post) simp_all
  then show ?thesis
    unfolding ideintr_def
    by (intro with_lock_wp [OF ok fr], cases "flags (bufs s i) AND B_DIRTY = 0")
       (simp_all add: wp_simps idq qn cmd upd_buf_def idewait_def rdy [unfolded ide_ready_def] intr_done_simps,
        (rule wakeup_wp; simp add: ok fr)+)
qed

text \<open>
  The whole request: the state after \<open>iderw\<close> on buffer \<open>i\<close>, with \<open>c'\<close> and \<open>cmd\<close> for the
  parts that only have to be consistent.
\<close>

definition iderw_post :: "nat \<Rightarrow> 'x bst_scheme \<Rightarrow> (u32 \<times> u32 \<times> u8 list option) option \<Rightarrow> core \<Rightarrow> 'x bst_scheme" where
  "iderw_post i s cmd c' = (let b = bufs s i; d = bdev b AND 1; n = blockno b in
     s\<lparr>idecmd := cmd,
       disk := (if bdirty b then (disk s)(d := (disk s d)(n := bdata b)) else disk s),
       wrlog := (if bdirty b then wrlog s @ [(d, n, bdata b)] else wrlog s),
       idequeue := None,
       bufs := (bufs s)(i := b\<lparr>qnext := None, bdata := (if bdirty b then bdata b else disk s d n),
                               flags := (flags b OR B_VALID) AND NOT B_DIRTY\<rparr>),
       core := c'\<rparr>)"

lemma iderw_wp:
  assumes q: "quiet (core s)" and rdy: "ide_ready s" and idq: "idequeue s = None"
    and lkd: "slocked (slp (core s) (BufL i)) \<noteq> 0" and todo: "bvalid (bufs s i) \<Longrightarrow> bdirty (bufs s i)"
    and d1: "bdev (bufs s i) \<noteq> 0 \<Longrightarrow> havedisk1 s" and bn: "blockno (bufs s i) < FSSIZE"
    and post: "\<And>cmd c'. env c' = env (core s) \<Longrightarrow> slp c' = slp (core s) \<Longrightarrow> Q () (iderw_post i s cmd c')"
  shows "wp (iderw i) Q s"
proof -
  let ?b = "bufs s i"
  let ?d = "bdev ?b AND 1" and ?n = "blockno ?b"
  have go: "wp (bind (acquire IdeLk) (\<lambda>_. bind (q_append i) (\<lambda>_. bind (gets idequeue) (\<lambda>q.
     bind (whenM (q = Some i) (idestart (Some i))) (\<lambda>_. bind (iderw_wait (Suc NBUF) i) (\<lambda>_. release IdeLk)))))) Q
     (s\<lparr>core := c1\<rparr>)" if c1: "env c1 = env (core s)" "slp c1 = slp (core s)" for c1
  proof -
    have ok: "lk_ok c1" and fr: "slk c1 l = free_lk" and q1: "quiet c1" for l
      using quiet_env [OF c1(1) [symmetric] q] by (simp_all add: quiet_lk_ok quiet_free)
    have nd: "flags ?b AND (B_VALID OR B_DIRTY) \<noteq> B_VALID"
      using todo by (auto simp: flags_done)
    have n: "NBUF = Suc 29" by (simp add: NBUF_def)
    have fin: "wp (acquire IdeLk) (\<lambda>_. wp (iderw_wait NBUF i) (\<lambda>_. wp (release IdeLk) Q)) (t\<lparr>core := c'\<rparr>)"
      if "env c' = env c1" "flags (bufs t i) = (flags ?b OR B_VALID) AND NOT B_DIRTY"
        "\<And>c'. env c' = env c1 \<Longrightarrow> slp c' = slp c2 \<Longrightarrow> Q () (t\<lparr>core := c'\<rparr>)" "slp c' = slp c2"
      for t :: "'a bst_scheme" and c' c2
    proof -
      have ok': "lk_ok c'" and fr': "slk c' IdeLk = free_lk"
        using quiet_env [OF that(1) [symmetric] q1] by (simp_all add: quiet_lk_ok quiet_free)
      have "wp (iderw_wait NBUF i) R u = R () u" if "flags (bufs u i) = (flags ?b OR B_VALID) AND NOT B_DIRTY"
        for R and u :: "'a bst_scheme"
        unfolding n iderw_wait.simps by (simp add: wp_simps flags_set that)
      then show ?thesis
        using that by (simp add: wp_acquire_free ok' fr' wp_release [OF _ ok' fr'])
    qed
    show ?thesis
    proof (cases "flags ?b AND B_DIRTY = 0")
      case True
      then show ?thesis
        using nd bn True c1 post
        by (simp add: wp_simps wp_acquire_free ok fr q_append_def idq upd_buf_def idestart_def idewait_def
           rdy [unfolded ide_ready_def] wp_release [OF _ ok fr] disk_interrupt_def ide_complete_def not_le)
           (rule ideintr_wp, auto simp: q1 rdy [unfolded ide_ready_def] ide_ready_def intr_done_simps
             iderw_post_def bdirty_def Let_def intro!: fin)
    next
      case False
      then show ?thesis
        using nd bn c1 post
        by (simp add: wp_simps wp_acquire_free ok fr q_append_def idq upd_buf_def idestart_def idewait_def
           rdy [unfolded ide_ready_def] wp_release [OF _ ok fr] disk_interrupt_def ide_complete_def not_le)
           (rule ideintr_wp, auto simp: q1 rdy [unfolded ide_ready_def] ide_ready_def intr_done_simps
             iderw_post_def bdirty_def Let_def intro!: fin)
    qed
  qed
  show ?thesis
    unfolding iderw_def wp_bind
    by (rule holdingsleep_wp [OF q]) (use lkd todo d1 go in \<open>auto simp: wp_simps flags_done\<close>)
qed

end
