(* ===== verification/Bio.thy ===== *)
theory Bio
  imports Ide
begin

text \<open>
  The buffer cache, \<^verbatim>\<open>bio.c\<close>. The LRU list is kept as the code keeps it, as \<open>next\<close>/\<open>prev\<close>
  links through \<open>bcache.head\<close>; the walks over it follow the links. \<open>dll\<close> relates the links to
  the list of buffers, and the four pointer assignments of \<open>brelse\<close> are shown to move a buffer
  to the front of that list.

  \<open>binv s H\<close> is the invariant of the cache for a thread that holds the buffers \<open>H\<close>, and
  \<open>bview s d n\<close> is the block a reader of \<open>(d, n)\<close> sees: the cached copy if there is one, the
  disk block otherwise. The contracts of \<open>bread\<close>, \<open>bwrite\<close> and \<open>brelse\<close> are stated on it:
  caching, eviction and write-back are not visible through it.
\<close>

section \<open>The code\<close>

text \<open>
  A walk along links from \<open>i\<close> to the list head (index \<open>NBUF\<close>), looking for a buffer that
  satisfies \<open>P\<close>. The list has \<open>NBUF\<close> elements, so \<open>NBUF + 1\<close> steps suffice; a walk that
  needs more (\<open>None\<close>) would not end.
\<close>

fun scan :: "nat \<Rightarrow> (nat \<Rightarrow> nat) \<Rightarrow> (nat \<Rightarrow> bool) \<Rightarrow> nat \<Rightarrow> nat option option" where
  "scan 0 nx P i = None"
| "scan (Suc n) nx P i = (if i = NBUF then Some None else if P i then Some (Some i) else scan n nx P (nx i))"

definition bpush :: "nat \<Rightarrow> (nat \<Rightarrow> buf) \<Rightarrow> nat \<Rightarrow> buf" where
  "bpush i B = (let
     B1 = B(i := (B i)\<lparr>bnext := bnext (B NBUF)\<rparr>);
     B2 = B1(i := (B1 i)\<lparr>bprev := NBUF\<rparr>);
     h = bnext (B2 NBUF);
     B3 = B2(h := (B2 h)\<lparr>bprev := i\<rparr>)
   in B3(NBUF := (B3 NBUF)\<lparr>bnext := i\<rparr>))"

definition bunlink :: "nat \<Rightarrow> (nat \<Rightarrow> buf) \<Rightarrow> nat \<Rightarrow> buf" where
  "bunlink i B = (let
     n = bnext (B i);
     B1 = B(n := (B n)\<lparr>bprev := bprev (B i)\<rparr>);
     p = bprev (B1 i)
   in B1(p := (B1 p)\<lparr>bnext := bnext (B1 i)\<rparr>))"

definition binit :: "('x bst_scheme, unit) sm" where
  "binit = bind (initlock BcacheLk) (\<lambda>_.
     bind (upd_buf NBUF (\<lambda>b. b\<lparr>bprev := NBUF\<rparr>)) (\<lambda>_.
     bind (upd_buf NBUF (\<lambda>b. b\<lparr>bnext := NBUF\<rparr>)) (\<lambda>_.
     forM [0..<NBUF] (\<lambda>i. bind (initsleeplock (BufL i)) (\<lambda>_. modify (\<lambda>s. s\<lparr>bufs := bpush i (bufs s)\<rparr>))))))"

definition bget :: "u32 \<Rightarrow> u32 \<Rightarrow> ('x bst_scheme, nat) sm" where
  "bget dv bn = bind (acquire BcacheLk) (\<lambda>_. bind (gets bufs) (\<lambda>B.
     case scan (Suc NBUF) (\<lambda>i. bnext (B i)) (\<lambda>i. bdev (B i) = dv \<and> blockno (B i) = bn) (bnext (B NBUF)) of
       None \<Rightarrow> fault ''bget: list''
     | Some (Some i) \<Rightarrow>
         bind (upd_buf i (\<lambda>b. b\<lparr>refcnt := refcnt b + 1\<rparr>)) (\<lambda>_.
         bind (release BcacheLk) (\<lambda>_.
         bind (acquiresleep (BufL i)) (\<lambda>_. ret i)))
     | Some None \<Rightarrow>
         (case scan (Suc NBUF) (\<lambda>i. bprev (B i)) (\<lambda>i. refcnt (B i) = 0 \<and> flags (B i) AND B_DIRTY = 0) (bprev (B NBUF)) of
            None \<Rightarrow> fault ''bget: list''
          | Some (Some i) \<Rightarrow>
              bind (upd_buf i (\<lambda>b. b\<lparr>bdev := dv, blockno := bn, flags := 0, refcnt := 1\<rparr>)) (\<lambda>_.
              bind (release BcacheLk) (\<lambda>_.
              bind (acquiresleep (BufL i)) (\<lambda>_. ret i)))
          | Some None \<Rightarrow> panic ''bget: no buffers'')))"

definition bread :: "u32 \<Rightarrow> u32 \<Rightarrow> ('x bst_scheme, nat) sm" where
  "bread dv bn = bind (bget dv bn) (\<lambda>i.
     bind (gets (\<lambda>s. flags (bufs s i))) (\<lambda>f.
     bind (whenM (f AND B_VALID = 0) (iderw i)) (\<lambda>_. ret i)))"

definition bwrite :: "nat \<Rightarrow> ('x bst_scheme, unit) sm" where
  "bwrite i = bind (holdingsleep (BufL i)) (\<lambda>h.
     if \<not> h then panic ''bwrite'' else
     bind (upd_buf i (\<lambda>b. b\<lparr>flags := flags b OR B_DIRTY\<rparr>)) (\<lambda>_. iderw i))"

definition brelse :: "nat \<Rightarrow> ('x bst_scheme, unit) sm" where
  "brelse i = bind (holdingsleep (BufL i)) (\<lambda>h.
     if \<not> h then panic ''brelse'' else
     bind (releasesleep (BufL i)) (\<lambda>_.
     with_lock BcacheLk
       (bind (upd_buf i (\<lambda>b. b\<lparr>refcnt := refcnt b - 1\<rparr>)) (\<lambda>_.
        bind (gets (\<lambda>s. refcnt (bufs s i))) (\<lambda>r.
        whenM (r = 0) (modify (\<lambda>s. s\<lparr>bufs := bpush i (bunlink i (bufs s))\<rparr>)))))))"

section \<open>The LRU list\<close>

fun link :: "(nat \<Rightarrow> nat) \<Rightarrow> (nat \<Rightarrow> nat) \<Rightarrow> nat \<Rightarrow> nat list \<Rightarrow> bool" where
  "link nx pv x [] = True"
| "link nx pv x (y # ys) = (nx x = y \<and> pv y = x \<and> link nx pv y ys)"

definition dll :: "(nat \<Rightarrow> nat) \<Rightarrow> (nat \<Rightarrow> nat) \<Rightarrow> nat \<Rightarrow> nat list \<Rightarrow> bool" where
  "dll nx pv h L \<longleftrightarrow> distinct (h # L) \<and> link nx pv h (L @ [h])"

lemma link_append: "link nx pv x (ys @ z # zs) \<longleftrightarrow> link nx pv x (ys @ [z]) \<and> link nx pv z zs"
  by (induction ys arbitrary: x) auto

lemma link_snoc: "link nx pv x (ys @ [y, z]) \<longleftrightarrow> link nx pv x (ys @ [y]) \<and> nx y = z \<and> pv z = y"
  by (induction ys arbitrary: x) auto

lemma link_upd_nx: "a \<noteq> x \<Longrightarrow> a \<notin> set (butlast ys) \<Longrightarrow> link (nx(a := v)) pv x ys = link nx pv x ys"
  by (induction ys arbitrary: x) (auto split: if_splits)

lemma link_upd_pv: "a \<notin> set ys \<Longrightarrow> link nx (pv(a := v)) x ys = link nx pv x ys"
  by (induction ys arbitrary: x) auto

lemma link_rev: "link nx pv x (ys @ [z]) \<Longrightarrow> link pv nx z (rev ys @ [x])"
proof (induction ys arbitrary: x)
  case (Cons y ys)
  then have "link pv nx z (rev ys @ [y])" "nx x = y" "pv y = x" by auto
  then show ?case by (simp add: link_snoc)
qed simp

lemma dll_rev: "dll nx pv h L \<Longrightarrow> dll pv nx h (rev L)"
  by (auto simp: dll_def intro: link_rev)

lemma scan_link:
  "link nx pv x (ys @ [NBUF]) \<Longrightarrow> NBUF \<notin> set ys \<Longrightarrow> length ys < n \<Longrightarrow> scan n nx P (nx x) = Some (List.find P ys)"
proof (induction ys arbitrary: x n)
  case Nil
  then show ?case by (cases n) auto
next
  case (Cons y ys)
  from Cons.prems(3) obtain m where n: "n = Suc m" by (cases n) auto
  with Cons show ?case by auto
qed

lemma dll_unlink:
  assumes "dll nx pv h (P @ b # S)"
  shows "dll (nx(pv b := nx b)) (pv(nx b := pv b)) h (P @ S)"
proof -
  have d: "distinct (h # P @ b # S)" and l: "link nx pv h (P @ [b])" "link nx pv b (S @ [h])"
    using assms link_append [of nx pv h P b "S @ [h]"] by (auto simp: dll_def)
  show ?thesis
  proof (cases P rule: rev_cases)
    case Nil
    with d l show ?thesis
      by (cases S) (auto simp: dll_def link_upd_nx link_upd_pv)
  next
    case (snoc P' p)
    then have p: "pv b = p" "nx p = b" "link nx pv h (P' @ [p])"
      using l(1) by (simp_all add: link_snoc)
    show ?thesis
    proof (cases S)
      case Nil
      with d l p snoc show ?thesis
        by (auto simp: dll_def link_snoc link_upd_nx link_upd_pv butlast_append)
    next
      case (Cons n S')
      with d l p snoc show ?thesis
        using link_append [of "nx(p := n)" "pv(n := p)" h P' p "n # S' @ [h]"]
        by (auto simp: dll_def link_upd_nx link_upd_pv butlast_append)
    qed
  qed
qed

lemma dll_push:
  assumes "dll nx pv h L" and "b \<notin> set (h # L)"
  shows "dll (nx(b := nx h, h := b)) (pv(b := h, nx h := b)) h (b # L)"
  using assms
  by (cases L) (auto simp: dll_def link_upd_nx link_upd_pv)

section \<open>The invariant and the view\<close>

definition ROOTDEV :: u32 where "ROOTDEV = 1"

text \<open>\<open>L\<close> is the list of all buffers, most recently used first.\<close>

definition lru_list :: "(nat \<Rightarrow> buf) \<Rightarrow> nat list \<Rightarrow> bool" where
  "lru_list B L \<longleftrightarrow> dll (\<lambda>i. bnext (B i)) (\<lambda>i. bprev (B i)) NBUF L \<and> set L = {0..<NBUF}"

definition lru_ok :: "(nat \<Rightarrow> buf) \<Rightarrow> bool" where
  "lru_ok B \<longleftrightarrow> (\<exists>L. lru_list B L)"

text \<open>At most one buffer per disk block.\<close>

definition uniq :: "(nat \<Rightarrow> buf) \<Rightarrow> bool" where
  "uniq B \<longleftrightarrow> (\<forall>i<NBUF. \<forall>j<NBUF. bdev (B i) = ROOTDEV \<and> bdev (B j) = ROOTDEV \<and> blockno (B i) = blockno (B j) \<longrightarrow> i = j)"

text \<open>\<open>H\<close>: the buffers held by the running thread. \<open>M \<subseteq> H\<close>: those whose data it has changed.\<close>

definition buf_ok :: "'x bst_scheme \<Rightarrow> nat set \<Rightarrow> nat set \<Rightarrow> nat \<Rightarrow> bool" where
  "buf_ok s H M i \<longleftrightarrow> (let b = bufs s i in
     (if i \<in> H then refcnt b = 1 \<and> slocked (slp (core s) (BufL i)) \<noteq> 0 \<and> bvalid b
      else refcnt b = 0 \<and> slocked (slp (core s) (BufL i)) = 0) \<and>
     (if bvalid b then bdev b = ROOTDEV \<and> length (bdata b) = BSIZE else bdev b \<in> {0, ROOTDEV} \<and> \<not> bdirty b) \<and>
     (bvalid b \<and> \<not> bdirty b \<and> i \<notin> M \<longrightarrow> bdata b = disk s ROOTDEV (blockno b)))"

definition bsys :: "'x bst_scheme \<Rightarrow> bool" where
  "bsys s \<longleftrightarrow> quiet (core s) \<and> curproc (core s) \<noteq> None \<and> ide_ready s \<and> idequeue s = None \<and> havedisk1 s \<and>
     (\<forall>d n. length (disk s d n) = BSIZE)"

definition binv :: "'x bst_scheme \<Rightarrow> nat set \<Rightarrow> nat set \<Rightarrow> bool" where
  "binv s H M \<longleftrightarrow> bsys s \<and> lru_ok (bufs s) \<and> uniq (bufs s) \<and> M \<subseteq> H \<and> H \<subseteq> {..<NBUF} \<and> (\<forall>i<NBUF. buf_ok s H M i)"

definition bhit :: "(nat \<Rightarrow> buf) \<Rightarrow> u32 \<Rightarrow> nat \<Rightarrow> bool" where
  "bhit B n i \<longleftrightarrow> bdev (B i) = ROOTDEV \<and> blockno (B i) = n"

definition bview :: "'x bst_scheme \<Rightarrow> u32 \<Rightarrow> u8 list" where
  "bview s n = (case List.find (\<lambda>i. bvalid (bufs s i) \<and> bhit (bufs s) n i) [0..<NBUF] of
     Some i \<Rightarrow> bdata (bufs s i) | None \<Rightarrow> disk s ROOTDEV n)"

definition didx :: "'x bst_scheme \<Rightarrow> nat set" where
  "didx s = {i. i < NBUF \<and> bdirty (bufs s i)}"

text \<open>What the cache may change of the state: buffers, the disk, and what every path may change.\<close>

definition bfr :: "'x bst_scheme \<Rightarrow> 'x bst_scheme \<Rightarrow> bool" where
  "bfr s s' \<longleftrightarrow> s' = s\<lparr>idecmd := idecmd s', disk := disk s', wrlog := wrlog s', bufs := bufs s', core := core s'\<rparr> \<and>
     env (core s') = env (core s) \<and> (\<forall>k. slp (core s') (InoL k) = slp (core s) (InoL k))"

lemma bfr_refl [simp]: "bfr s s"
  by (simp add: bfr_def)

lemma bfrI:
  assumes "env c = env (core s)" and "\<forall>k. slp c (InoL k) = slp (core s) (InoL k)"
  shows "bfr s (s\<lparr>core := c\<rparr>)" and "bfr s (s\<lparr>bufs := B, core := c\<rparr>)"
    and "idequeue s = q \<Longrightarrow> bfr s (s\<lparr>idecmd := cm, disk := dk, wrlog := w, idequeue := q, bufs := B, core := c\<rparr>)"
  using assms by (auto simp: bfr_def intro: bst.equality)

lemma bfr_bufs [simp]: "bfr s (s\<lparr>bufs := B\<rparr>)"
  by (simp add: bfr_def)

lemma bfrD:
  assumes "bfr s s'"
  shows "env (core s') = env (core s)" and "slp (core s') (InoL k) = slp (core s) (InoL k)"
    and "bst.more s' = bst.more s" and "cns s' = cns s" and "mmu s' = mmu s" and "mem s' = mem s" and "freelist s' = freelist s" and "use_lock s' = use_lock s"
    and "kend s' = kend s" and "idequeue s' = idequeue s" and "havedisk1 s' = havedisk1 s" and "idests s' = idests s"
    and "probe1 s' = probe1 s"
proof -
  let ?t = "s\<lparr>idecmd := idecmd s', disk := disk s', wrlog := wrlog s', bufs := bufs s', core := core s'\<rparr>"
  have e: "s' = ?t" and r: "env (core s') = env (core s)" "slp (core s') (InoL k) = slp (core s) (InoL k)" for k
    using assms by (simp_all add: bfr_def)
  show "env (core s') = env (core s)" "slp (core s') (InoL k) = slp (core s) (InoL k)" by (fact r)+
  show "bst.more s' = bst.more s" "cns s' = cns s" "mmu s' = mmu s" "mem s' = mem s" "freelist s' = freelist s" "use_lock s' = use_lock s"
    "kend s' = kend s" "idequeue s' = idequeue s" "havedisk1 s' = havedisk1 s" "idests s' = idests s" "probe1 s' = probe1 s"
    by (subst e, simp)+
qed

lemma bfr_iff:
  "bfr s s' \<longleftrightarrow> env (core s') = env (core s) \<and> (\<forall>k. slp (core s') (InoL k) = slp (core s) (InoL k)) \<and>
     bst.more s' = bst.more s \<and> cns s' = cns s \<and> mmu s' = mmu s \<and> mem s' = mem s \<and> freelist s' = freelist s \<and> use_lock s' = use_lock s \<and>
     kend s' = kend s \<and> idequeue s' = idequeue s \<and> havedisk1 s' = havedisk1 s \<and> idests s' = idests s \<and> probe1 s' = probe1 s"
  (is "_ \<longleftrightarrow> ?R")
proof
  show "bfr s s' \<Longrightarrow> ?R" by (intro conjI allI) (erule bfrD)+
next
  assume r: ?R
  then have "s' = s\<lparr>idecmd := idecmd s', disk := disk s', wrlog := wrlog s', bufs := bufs s', core := core s'\<rparr>"
    by (intro bst.equality) simp_all
  with r show "bfr s s'" unfolding bfr_def by blast
qed

lemma bfr_trans: "bfr s t \<Longrightarrow> bfr t u \<Longrightarrow> bfr s u"
  by (simp add: bfr_iff)

lemma bviewI:
  assumes "uniq (bufs s)" and "i < NBUF" and "bvalid (bufs s i)" and "bhit (bufs s) n i"
  shows "bview s n = bdata (bufs s i)"
proof -
  have "List.find (\<lambda>i. bvalid (bufs s i) \<and> bhit (bufs s) n i) [0..<NBUF] = Some i"
    using assms by (auto simp: find_Some_iff uniq_def bhit_def intro!: exI [of _ i])
      (metis order_less_trans less_irrefl)
  then show ?thesis by (simp add: bview_def)
qed

lemma bview_disk:
  assumes "\<And>i. i < NBUF \<Longrightarrow> bvalid (bufs s i) \<Longrightarrow> \<not> bhit (bufs s) n i"
  shows "bview s n = disk s ROOTDEV n"
proof -
  have "List.find (\<lambda>i. bvalid (bufs s i) \<and> bhit (bufs s) n i) [0..<NBUF] = None"
    using assms by (auto simp: find_None_iff)
  then show ?thesis by (simp add: bview_def)
qed

lemma bview_cases:
  assumes "uniq (bufs s)"
  obtains (hit) i where "i < NBUF" "bvalid (bufs s i)" "bhit (bufs s) n i" "bview s n = bdata (bufs s i)"
  | (miss) "\<And>i. i < NBUF \<Longrightarrow> bvalid (bufs s i) \<Longrightarrow> \<not> bhit (bufs s) n i" "bview s n = disk s ROOTDEV n"
  using bviewI [OF assms] bview_disk [of s n] by blast

lemma binvD:
  assumes "binv s H M"
  shows "bsys s" "lru_ok (bufs s)" "uniq (bufs s)" "M \<subseteq> H" "H \<subseteq> {..<NBUF}" "i < NBUF \<Longrightarrow> buf_ok s H M i"
  using assms by (auto simp: binv_def)

lemma bsysD:
  assumes "bsys s"
  shows "quiet (core s)" "lk_ok (core s)" "slk (core s) l = free_lk" "curproc (core s) \<noteq> None" "ide_ready s"
    "idequeue s = None" "havedisk1 s" "length (disk s d n) = BSIZE"
  using assms by (auto simp: bsys_def quiet_lk_ok quiet_free)

lemma bsys_bfr: "bfr s s' \<Longrightarrow> (\<And>d n. length (disk s' d n) = BSIZE) \<Longrightarrow> bsys s \<Longrightarrow> bsys s'"
  using quiet_env [of "core s" "core s'"] ncli_env [of "core s" "core s'"]
  by (auto simp: bsys_def bfr_iff ide_ready_def quiet_lk_ok)

lemma length_bview:
  assumes "binv s H M"
  shows "length (bview s n) = BSIZE"
  using binvD [OF assms] bsysD(8) [OF binvD(1) [OF assms]]
  by (cases rule: bview_cases [OF binvD(3) [OF assms], of n])
     (auto simp: buf_ok_def Let_def split: if_splits)

section \<open>Moving a buffer to the front\<close>

text \<open>The part of a buffer that the list operations leave alone.\<close>

definition bk :: "buf \<Rightarrow> buf" where
  "bk b = b\<lparr>bprev := 0, bnext := 0\<rparr>"

lemma bk_upd [simp]: "bk (b\<lparr>bprev := p\<rparr>) = bk b" "bk (b\<lparr>bnext := p\<rparr>) = bk b"
  by (simp_all add: bk_def)

lemma bk_bpush [simp]: "bk (bpush i B j) = bk (B j)"
  by (simp add: bpush_def Let_def)

lemma bk_bunlink [simp]: "bk (bunlink i B j) = bk (B j)"
  by (simp add: bunlink_def Let_def)

lemma bk_eqD:
  assumes "bk b = bk b'"
  shows "flags b = flags b'" "bdev b = bdev b'" "blockno b = blockno b'" "refcnt b = refcnt b'" "bdata b = bdata b'"
    "qnext b = qnext b'" "bvalid b = bvalid b'" "bdirty b = bdirty b'"
  using assms [THEN arg_cong [of _ _ flags]] assms [THEN arg_cong [of _ _ bdev]] assms [THEN arg_cong [of _ _ blockno]]
    assms [THEN arg_cong [of _ _ refcnt]] assms [THEN arg_cong [of _ _ bdata]] assms [THEN arg_cong [of _ _ qnext]]
  by (simp_all add: bk_def bvalid_def bdirty_def)

lemma lru_list_cong: "(\<And>i. bnext (B i) = bnext (B' i)) \<Longrightarrow> (\<And>i. bprev (B i) = bprev (B' i)) \<Longrightarrow> lru_list B L = lru_list B' L"
  by (simp add: lru_list_def)

lemma length_lru: "lru_list B L \<Longrightarrow> length L = NBUF"
  using distinct_card [of L] by (simp add: lru_list_def dll_def)

lemma lru_list_move:
  assumes "lru_list B (P @ i # S)"
  shows "lru_list (bpush i (bunlink i B)) (i # P @ S)"
proof -
  let ?nx = "\<lambda>i. bnext (B i)" and ?pv = "\<lambda>i. bprev (B i)"
  have d: "dll ?nx ?pv NBUF (P @ i # S)" and st: "set (P @ i # S) = {0..<NBUF}"
    using assms by (simp_all add: lru_list_def)
  have di: "distinct (NBUF # P @ i # S)" and lk: "link ?nx ?pv i (S @ [NBUF])" "link ?nx ?pv NBUF (P @ [i])"
    using d link_append [of ?nx ?pv NBUF P i "S @ [NBUF]"] by (simp_all add: dll_def)
  have n: "?nx i \<noteq> i"
    using lk(1) di by (cases S) auto
  have p: "?pv i \<noteq> i"
    using lk(2) di by (cases P rule: rev_cases) (auto simp: link_snoc)
  let ?U = "bunlink i B"
  have U: "(\<lambda>j. bnext (?U j)) = ?nx(?pv i := ?nx i)" "(\<lambda>j. bprev (?U j)) = ?pv(?nx i := ?pv i)"
    using n p by (auto simp: bunlink_def Let_def)
  have dU: "dll (\<lambda>j. bnext (?U j)) (\<lambda>j. bprev (?U j)) NBUF (P @ S)"
    unfolding U by (rule dll_unlink [OF d])
  have iN: "i \<noteq> NBUF" using di by auto
  have Q: "(\<lambda>j. bnext (bpush i ?U j)) = (\<lambda>j. bnext (?U j))(i := bnext (?U NBUF), NBUF := i)"
    "(\<lambda>j. bprev (bpush i ?U j)) = (\<lambda>j. bprev (?U j))(i := NBUF, bnext (?U NBUF) := i)"
    using iN by (auto simp: bpush_def Let_def)
  have "dll (\<lambda>j. bnext (bpush i ?U j)) (\<lambda>j. bprev (bpush i ?U j)) NBUF (i # P @ S)"
    unfolding Q by (rule dll_push [OF dU]) (use di in auto)
  then show ?thesis
    using st by (auto simp: lru_list_def)
qed

lemma lru_ok_move: "lru_ok B \<Longrightarrow> i < NBUF \<Longrightarrow> lru_ok (bpush i (bunlink i B))"
proof -
  assume "lru_ok B" "i < NBUF"
  then obtain L where L: "lru_list B L" and "i \<in> set L"
    by (auto simp: lru_ok_def lru_list_def)
  then obtain P S where "L = P @ i # S"
    by (auto dest: split_list)
  with L lru_list_move show ?thesis
    unfolding lru_ok_def by blast
qed

text \<open>The two walks of \<open>bget\<close> find what the list says.\<close>

lemma scan_next:
  assumes "lru_list B L"
  shows "scan (Suc NBUF) (\<lambda>i. bnext (B i)) P (bnext (B NBUF)) = Some (List.find P L)"
  using scan_link [of "\<lambda>i. bnext (B i)" "\<lambda>i. bprev (B i)" NBUF L "Suc NBUF" P] assms length_lru [OF assms]
  by (simp add: lru_list_def dll_def)

lemma scan_prev:
  assumes "lru_list B L"
  shows "scan (Suc NBUF) (\<lambda>i. bprev (B i)) P (bprev (B NBUF)) = Some (List.find P (rev L))"
proof -
  have "dll (\<lambda>i. bprev (B i)) (\<lambda>i. bnext (B i)) NBUF (rev L)"
    using assms by (simp add: lru_list_def dll_rev)
  then show ?thesis
    using scan_link [of "\<lambda>i. bprev (B i)" "\<lambda>i. bnext (B i)" NBUF "rev L" "Suc NBUF" P] length_lru [OF assms] assms
    by (simp add: lru_list_def dll_def)
qed

lemma find_lru_Some: "lru_list B L \<Longrightarrow> List.find P L = Some i \<Longrightarrow> i < NBUF \<and> P i"
  "lru_list B L \<Longrightarrow> List.find P (rev L) = Some i \<Longrightarrow> i < NBUF \<and> P i"
proof -
  have *: "List.find P xs = Some i \<Longrightarrow> i \<in> set xs \<and> P i" for xs
    by (auto simp: find_Some_iff)
  show "lru_list B L \<Longrightarrow> List.find P L = Some i \<Longrightarrow> i < NBUF \<and> P i"
    "lru_list B L \<Longrightarrow> List.find P (rev L) = Some i \<Longrightarrow> i < NBUF \<and> P i"
    using * [of L] * [of "rev L"] by (auto simp: lru_list_def)
qed

lemma find_lru_None: "lru_list B L \<Longrightarrow> List.find P L = None \<Longrightarrow> i < NBUF \<Longrightarrow> \<not> P i"
  "lru_list B L \<Longrightarrow> List.find P (rev L) = None \<Longrightarrow> i < NBUF \<Longrightarrow> \<not> P i"
  by (auto simp: find_None_iff lru_list_def)

section \<open>Contracts\<close>

text \<open>A buffer can be had for block \<open>n\<close>: it is cached, or some buffer is neither held nor dirty.\<close>

definition broom :: "'x bst_scheme \<Rightarrow> nat set \<Rightarrow> u32 \<Rightarrow> bool" where
  "broom s H n \<longleftrightarrow> (\<exists>i<NBUF. bhit (bufs s) n i \<or> i \<notin> H \<and> \<not> bdirty (bufs s i))"

lemma broomI: "binv s H M \<Longrightarrow> card H + card (didx s) < NBUF \<Longrightarrow> broom s H n"
proof (rule ccontr)
  assume i: "binv s H M" and c: "card H + card (didx s) < NBUF" and "\<not> broom s H n"
  then have "{..<NBUF} \<subseteq> H \<union> didx s" by (auto simp: broom_def didx_def)
  moreover have "finite (H \<union> didx s)"
    using binvD(5) [OF i] by (auto simp: didx_def intro: finite_subset)
  ultimately have "NBUF \<le> card (H \<union> didx s)"
    by (metis card_lessThan card_mono)
  also have "\<dots> \<le> card H + card (didx s)" by (rule card_Un_le)
  finally show False using c by simp
qed

definition bget_buf :: "'x bst_scheme \<Rightarrow> u32 \<Rightarrow> nat \<Rightarrow> buf" where
  "bget_buf s n i = (if bhit (bufs s) n i then (bufs s i)\<lparr>refcnt := 1\<rparr>
     else (bufs s i)\<lparr>bdev := ROOTDEV, blockno := n, flags := 0, refcnt := 1\<rparr>)"

lemma acquiresleep_wp_any:
  assumes "quiet (core s)" and "slocked (slp (core s) k) = 0" and "curproc (core s) \<noteq> None"
    and "\<And>p c'. env c' = env (core s) \<Longrightarrow> slp c' = (slp (core s))(k := \<lparr>slocked = 1, spid = p\<rparr>) \<Longrightarrow> Q () (s\<lparr>core := c'\<rparr>)"
  shows "wp (acquiresleep k) Q s"
  using assms acquiresleep_wp [of s k _ Q] by blast

lemma bget_wp:
  assumes inv: "binv s H M" and held: "\<And>i. i \<in> H \<Longrightarrow> \<not> bhit (bufs s) n i" and room: "broom s H n"
    and post: "\<And>i p c'. i < NBUF \<Longrightarrow> i \<notin> H \<Longrightarrow> bhit (bufs s) n i \<or> (\<forall>j<NBUF. \<not> bhit (bufs s) n j) \<and> \<not> bdirty (bufs s i) \<Longrightarrow>
       env c' = env (core s) \<Longrightarrow> slp c' = (slp (core s))(BufL i := \<lparr>slocked = 1, spid = p\<rparr>) \<Longrightarrow>
       Q i (s\<lparr>bufs := (bufs s)(i := bget_buf s n i), core := c'\<rparr>)"
  shows "wp (bget ROOTDEV n) Q s"
proof -
  note d = binvD [OF inv] and sy = bsysD [OF binvD(1) [OF inv]]
  obtain L where L: "lru_list (bufs s) L"
    using d(2) by (auto simp: lru_ok_def)
  have fin: "wp (acquiresleep (BufL i)) (\<lambda>_. Q i) (s\<lparr>bufs := (bufs s)(i := bget_buf s n i), core := popped (core s)\<rparr>)"
    if "i < NBUF" "i \<notin> H" "bhit (bufs s) n i \<or> (\<forall>j<NBUF. \<not> bhit (bufs s) n j) \<and> \<not> bdirty (bufs s i)" for i
    by (rule acquiresleep_wp_any) (use sy d(6) [OF that(1)] that post in \<open>auto simp: buf_ok_def Let_def\<close>)
  have re: "wp (release BcacheLk) R (s\<lparr>core := acquired BcacheLk (core s), bufs := B\<rparr>) = R () (s\<lparr>bufs := B, core := popped (core s)\<rparr>)" for R B
    by (subst wp_release [OF _ sy(2,3)]) simp_all
  have rc: "refcnt (bufs s i) = 0" if "i < NBUF" "i \<notin> H" for i
    using d(6) [OF that(1)] that(2) by (simp add: buf_ok_def Let_def)
  have P: "(\<lambda>i. bdev (bufs s i) = ROOTDEV \<and> blockno (bufs s i) = n) = bhit (bufs s) n"
    by (auto simp: bhit_def)
  show ?thesis
  proof (cases "List.find (bhit (bufs s) n) L")
    case (Some i)
    with find_lru_Some [OF L] have i: "i < NBUF" "bhit (bufs s) n i" by auto
    with held have "i \<notin> H" by auto
    with fin [of i] i rc show ?thesis
      by (simp add: bget_def wp_simps wp_acquire_free sy(2,3) scan_next [OF L] P Some upd_buf_def bget_buf_def
         re del: scan.simps)
  next
    case None
    let ?P = "\<lambda>i. refcnt (bufs s i) = 0 \<and> flags (bufs s i) AND B_DIRTY = 0"
    have miss: "\<forall>j<NBUF. \<not> bhit (bufs s) n j"
      using find_lru_None(1) [OF L None] by blast
    with room obtain j where j: "j < NBUF" "j \<notin> H" "\<not> bdirty (bufs s j)"
      by (auto simp: broom_def)
    then obtain i where f: "List.find ?P (rev L) = Some i"
      using find_lru_None(2) [OF L, of ?P j] rc [of j] by (cases "List.find ?P (rev L)") (auto simp: bdirty_def)
    with find_lru_Some(2) [OF L] have i: "i < NBUF" "refcnt (bufs s i) = 0" "\<not> bdirty (bufs s i)"
      by (auto simp: bdirty_def)
    with d(6) [OF i(1)] have "i \<notin> H" by (auto simp: buf_ok_def Let_def)
    with fin [of i] i miss show ?thesis
      by (simp add: bget_def wp_simps wp_acquire_free sy(2,3) scan_next [OF L] scan_prev [OF L] P None f upd_buf_def
        bget_buf_def re del: scan.simps)
  qed
qed

text \<open>What \<open>bread\<close> of block \<open>n\<close> guarantees when it returns buffer \<open>i\<close>.\<close>

definition bread_post :: "'x bst_scheme \<Rightarrow> nat set \<Rightarrow> nat set \<Rightarrow> u32 \<Rightarrow> nat \<Rightarrow> 'x bst_scheme \<Rightarrow> bool" where
  "bread_post s H M n i s' \<longleftrightarrow> i < NBUF \<and> i \<notin> H \<and> binv s' (insert i H) M \<and> bfr s s' \<and> disk s' = disk s \<and> wrlog s' = wrlog s \<and>
     bhit (bufs s') n i \<and> bdata (bufs s' i) = bview s n \<and> bview s' = bview s \<and>
     (\<forall>j. j \<noteq> i \<longrightarrow> bufs s' j = bufs s j) \<and> didx s' = didx s \<and>
     (bdirty (bufs s i) \<longrightarrow> bhit (bufs s) n i)"

lemma buf_ok_frame:
  assumes "buf_ok s H M i" and "bk (bufs s' i) = bk (bufs s i)" and "slp (core s') (BufL i) = slp (core s) (BufL i)"
    and "i \<in> H \<longleftrightarrow> i \<in> H'" and "i \<in> M \<longleftrightarrow> i \<in> M'"
    and "bvalid (bufs s i) \<Longrightarrow> \<not> bdirty (bufs s i) \<Longrightarrow> i \<notin> M \<Longrightarrow> disk s' ROOTDEV (blockno (bufs s i)) = disk s ROOTDEV (blockno (bufs s i))"
  shows "buf_ok s' H' M' i"
  using assms bk_eqD [OF assms(2)] by (auto simp: buf_ok_def Let_def split: if_splits)

lemma bread_postI:
  assumes inv: "binv s H M" and i: "i < NBUF" "i \<notin> H"
    and hit: "bhit (bufs s) n i \<or> (\<forall>j<NBUF. \<not> bhit (bufs s) n j) \<and> \<not> bdirty (bufs s i)"
    and f: "bfr s t" and dk: "disk t = disk s" "wrlog t = wrlog s" and B: "bufs t = (bufs s)(i := b)"
    and sl: "slp (core t) = (slp (core s))(BufL i := \<lparr>slocked = 1, spid = p\<rparr>)"
    and b: "bdev b = ROOTDEV" "blockno b = n" "refcnt b = 1" "bvalid b" "bdirty b \<longleftrightarrow> bdirty (bufs s i)" "bdata b = bview s n"
      "bnext b = bnext (bufs s i)" "bprev b = bprev (bufs s i)"
  shows "bread_post s H M n i t"
proof -
  note d = binvD [OF inv] and sy = bsysD [OF binvD(1) [OF inv]]
  have u: "uniq (bufs t)"
    using d(3) hit b(1,2) i(1) unfolding B uniq_def bhit_def by (auto simp: fun_upd_def)
  have lru: "lru_ok (bufs t)"
    using d(2) lru_list_cong [of "bufs t" "bufs s"] b(7,8) by (simp add: lru_ok_def B)
  have nM: "i \<notin> M" using d(4) i(2) by auto
  have self: "bdata b = disk s ROOTDEV n" if "\<not> bdirty b"
    using d(3)
  proof (cases rule: bview_cases [where n = n])
    case (hit j)
    with \<open>bhit (bufs s) n i \<or> _\<close> have "j = i"
      using d(3) i(1) by (auto simp: uniq_def bhit_def)
    with hit d(6) [OF i(1)] nM that b(5,6) show ?thesis
      by (auto simp: buf_ok_def Let_def bhit_def)
  qed (simp add: b(6))
  have ok: "buf_ok t (insert i H) M j" if "j < NBUF" for j
  proof (cases "j = i")
    case True
    with b self sl dk B length_bview [OF inv, of n] nM show ?thesis by (simp add: buf_ok_def)
  next
    case False
    then show ?thesis
      by (intro buf_ok_frame [OF d(6) [OF that]]) (simp_all add: B sl dk)
  qed
  have bi: "binv t (insert i H) M"
    using d u lru ok i bsys_bfr [OF f _ d(1)] sy(8) dk(1) by (auto simp: binv_def)
  have v: "bview t m = bview s m" for m
  proof (cases "m = n")
    case True
    then show ?thesis
      using bviewI [OF u i(1), of n] b by (simp add: B bhit_def)
  next
    case False
    from d(3) show ?thesis
    proof (cases rule: bview_cases [where n = m])
      case (hit j)
      show ?thesis
      proof (cases "j = i")
        case True
        then have "\<not> bdirty (bufs s i)" and "bdata (bufs s i) = disk s ROOTDEV m"
          using hit \<open>bhit (bufs s) n i \<or> _\<close> False d(6) [OF i(1)] nM by (auto simp: bhit_def buf_ok_def Let_def)
        moreover have "bview t m = disk t ROOTDEV m"
          by (rule bview_disk) (use hit True d(3) False b in \<open>auto simp: B bhit_def uniq_def\<close>)
        ultimately show ?thesis using hit True dk by simp
      next
        case False
        with hit bviewI [OF u, of j m] show ?thesis by (simp add: B bhit_def)
      qed
    next
      case miss
      have "bview t m = disk t ROOTDEV m"
        by (rule bview_disk) (use miss(1) False b in \<open>auto simp: B bhit_def split: if_splits\<close>)
      with miss dk show ?thesis by simp
    qed
  qed
  show ?thesis
    using i bi f dk b v hit by (auto simp: bread_post_def B bhit_def didx_def)
qed

lemma bread_wp:
  assumes inv: "binv s H M" and held: "\<And>i. i \<in> H \<Longrightarrow> \<not> bhit (bufs s) n i" and room: "broom s H n" and n: "n < FSSIZE"
    and post: "\<And>i s'. bread_post s H M n i s' \<Longrightarrow> Q i s'"
  shows "wp (bread ROOTDEV n) Q s"
  unfolding bread_def
proof (subst wp_bind, rule bget_wp [OF inv held room], assumption)
  fix i p c'
  assume i: "i < NBUF" "i \<notin> H" and hit: "bhit (bufs s) n i \<or> (\<forall>j<NBUF. \<not> bhit (bufs s) n j) \<and> \<not> bdirty (bufs s i)"
    and c: "env c' = env (core s)" "slp c' = (slp (core s))(BufL i := \<lparr>slocked = 1, spid = p\<rparr>)"
  note d = binvD [OF inv] and sy = bsysD [OF binvD(1) [OF inv]]
  let ?b = "bget_buf s n i" and ?t = "s\<lparr>bufs := (bufs s)(i := bget_buf s n i), core := c'\<rparr>"
  have g: "bdev ?b = ROOTDEV" "blockno ?b = n" "refcnt ?b = 1" "bnext ?b = bnext (bufs s i)" "bprev ?b = bprev (bufs s i)"
    "bdirty ?b \<longleftrightarrow> bdirty (bufs s i)" "bvalid ?b \<longleftrightarrow> bhit (bufs s) n i \<and> bvalid (bufs s i)"
    "bhit (bufs s) n i \<Longrightarrow> bdata ?b = bdata (bufs s i)"
    using hit by (auto simp: bget_buf_def bhit_def bdirty_def bvalid_def)
  have vd: "bview s n = disk s ROOTDEV n" if "\<not> bvalid ?b"
    by (rule bview_disk) (use that hit g(7) d(3) i(1) in \<open>auto simp: uniq_def bhit_def\<close>)
  have nd: "\<not> bdirty ?b" if "\<not> bvalid ?b"
    using that d(6) [OF i(1)] g(6,7) hit by (auto simp: buf_ok_def Let_def split: if_splits)
  have q: "quiet c'" by (rule quiet_env [OF c(1) [symmetric] sy(1)])
  have r1: "ROOTDEV AND 1 = ROOTDEV" "ROOTDEV \<noteq> 0" by (simp_all add: ROOTDEV_def)
  show "wp (bind (gets (\<lambda>s. flags (bufs s i))) (\<lambda>f. bind (whenM (f AND B_VALID = 0) (iderw i)) (\<lambda>_. ret i))) Q ?t"
  proof (cases "bvalid ?b")
    case True
    then have "flags ?b AND B_VALID \<noteq> 0" by (simp add: bvalid_def)
    moreover have "bread_post s H M n i ?t"
      using bviewI [OF d(3) i(1)] True g c
      by (intro bread_postI [OF inv i hit, where b = ?b and p = p] bfrI) auto
    ultimately show ?thesis by (simp add: wp_simps post)
  next
    case False
    then have z: "flags ?b AND B_VALID = 0" by (simp add: bvalid_def)
    have "wp (iderw i) (\<lambda>_. Q i) ?t"
    proof (rule iderw_wp)
      fix cmd c2
      assume c2: "env c2 = env (core ?t)" "slp c2 = slp (core ?t)"
      have "bread_post s H M n i (iderw_post i ?t cmd c2)"
        by (rule bread_postI [OF inv i hit, where p = p and b = "bufs (iderw_post i ?t cmd c2) i"])
           (use g c c2 vd [OF False] nd [OF False] sy r1 in \<open>auto simp: iderw_post_def Let_def B_VALID_def bit_simps bfr_iff\<close>)
      then show "Q i (iderw_post i ?t cmd c2)" by (rule post)
    qed (use q sy c g nd [OF False] False n in \<open>auto simp: ide_ready_def\<close>)
    with z show ?thesis by (simp add: wp_simps)
  qed
qed

definition cont :: "buf \<Rightarrow> u32 \<times> u32 \<times> u32 \<times> u8 list" where
  "cont b = (bdev b, blockno b, flags b, bdata b)"

lemma cont_eqD:
  assumes "cont b = cont b'"
  shows "flags b = flags b'" "bdev b = bdev b'" "blockno b = blockno b'" "bdata b = bdata b'"
    "bvalid b = bvalid b'" "bdirty b = bdirty b'"
  using assms by (simp_all add: cont_def bvalid_def bdirty_def)

lemma bhit_cong: "cont (B i) = cont (B' i) \<Longrightarrow> bhit B n i = bhit B' n i"
  by (simp add: bhit_def cont_def)

lemma cont_bk: "bk b = bk b' \<Longrightarrow> cont b = cont b'"
  using bk_eqD [of b b'] by (simp add: cont_def)

lemma bview_cong:
  assumes "\<And>j. j < NBUF \<Longrightarrow> cont (bufs t j) = cont (bufs s j)" and "disk t ROOTDEV n = disk s ROOTDEV n"
  shows "bview t n = bview s n"
proof -
  have "List.find (\<lambda>i. bvalid (bufs t i) \<and> bhit (bufs t) n i) [0..<NBUF] = List.find (\<lambda>i. bvalid (bufs s i) \<and> bhit (bufs s) n i) [0..<NBUF]"
    by (rule find_cong) (use assms(1) in \<open>auto simp: cont_def bvalid_def bhit_def\<close>)
  with assms show ?thesis
    by (cases "List.find (\<lambda>i. bvalid (bufs s i) \<and> bhit (bufs s) n i) [0..<NBUF]")
       (simp_all add: bview_def cont_def find_upt_Some(1))
qed

lemma uniq_key:
  "(\<And>j. j < NBUF \<Longrightarrow> bdev (B' j) = bdev (B j) \<and> blockno (B' j) = blockno (B j)) \<Longrightarrow> uniq B' = uniq B"
  by (simp add: uniq_def)

lemma uniq_cong: "(\<And>j. j < NBUF \<Longrightarrow> cont (B' j) = cont (B j)) \<Longrightarrow> uniq B' = uniq B"
  by (rule uniq_key) (simp add: cont_def)

lemma didx_cong: "(\<And>j. j < NBUF \<Longrightarrow> cont (bufs t j) = cont (bufs s j)) \<Longrightarrow> didx t = didx s"
  by (auto simp: didx_def dest: cont_eqD)

definition brelse_post :: "'x bst_scheme \<Rightarrow> nat set \<Rightarrow> nat set \<Rightarrow> nat \<Rightarrow> 'x bst_scheme \<Rightarrow> bool" where
  "brelse_post s H M i s' \<longleftrightarrow> binv s' (H - {i}) M \<and> bfr s s' \<and> disk s' = disk s \<and> wrlog s' = wrlog s \<and>
     bview s' = bview s \<and> didx s' = didx s \<and> (\<forall>j. cont (bufs s' j) = cont (bufs s j))"

lemma brelse_wp:
  assumes inv: "binv s H M" and i: "i \<in> H" "i \<notin> M" and post: "\<And>s'. brelse_post s H M i s' \<Longrightarrow> Q () s'"
  shows "wp (brelse i) Q s"
proof -
  note d = binvD [OF inv] and sy = bsysD [OF binvD(1) [OF inv]]
  have iN: "i < NBUF" using d(5) i(1) by auto
  have bi: "refcnt (bufs s i) = 1" "slocked (slp (core s) (BufL i)) \<noteq> 0"
    using d(6) [OF iN] i by (simp_all add: buf_ok_def Let_def)
  let ?B = "(bufs s)(i := (bufs s i)\<lparr>refcnt := 0\<rparr>)"
  let ?B' = "bpush i (bunlink i ?B)"
  have ct: "cont (?B' j) = cont (bufs s j)" for j
    using cont_bk [of "?B' j" "?B j"] by (simp add: cont_def)
  have fin: "Q () (s\<lparr>bufs := ?B', core := c\<rparr>)"
    if c: "env c = env (core s)" "slp c = (slp (core s))(BufL i := \<lparr>slocked = 0, spid = 0\<rparr>)" for c
  proof (rule post)
    let ?t = "s\<lparr>bufs := ?B', core := c\<rparr>"
    have f: "bfr s ?t" by (rule bfrI) (simp_all add: c)
    have "lru_ok ?B" using d(2) lru_list_cong [of ?B "bufs s"] by (simp add: lru_ok_def)
    then have l: "lru_ok ?B'" using lru_ok_move iN by blast
    have "buf_ok ?t (H - {i}) M j" if "j < NBUF" for j
    proof (cases "j = i")
      case True
      have "refcnt (?B' i) = 0" using bk_eqD(4) [of "?B' i" "?B i"] by simp
      then show ?thesis
        using True d(6) [OF iN] i c cont_eqD [OF ct [of i]] by (simp add: buf_ok_def Let_def)
    next
      case False
      have "bk (?B' j) = bk (bufs s j)" using False by simp
      with False show ?thesis
        by (intro buf_ok_frame [OF d(6) [OF that]]) (simp_all add: c)
    qed
    then have "binv ?t (H - {i}) M"
      using d l i uniq_cong [OF ct] bsys_bfr [OF f _ d(1)] sy(8) by (auto simp: binv_def)
    moreover have "bview ?t = bview s" by (rule ext, rule bview_cong) (simp_all add: ct)
    moreover have "didx ?t = didx s" by (rule didx_cong) (simp add: ct)
    ultimately show "brelse_post s H M i ?t"
      by (simp add: brelse_post_def f ct)
  qed
  show ?thesis
    unfolding brelse_def
  proof (subst wp_bind, rule holdingsleep_wp [OF sy(1)])
    fix c1
    assume c1: "env c1 = env (core s)" "slp c1 = slp (core s)"
    have q1: "quiet c1" by (rule quiet_env [OF c1(1) [symmetric] sy(1)])
    have "wp (bind (releasesleep (BufL i)) (\<lambda>_. with_lock BcacheLk (bind (upd_buf i (\<lambda>b. b\<lparr>refcnt := refcnt b - 1\<rparr>))
      (\<lambda>_. bind (gets (\<lambda>s. refcnt (bufs s i))) (\<lambda>r.
        whenM (r = 0) (modify (\<lambda>s. s\<lparr>bufs := bpush i (bunlink i (bufs s))\<rparr>))))))) Q (s\<lparr>core := c1\<rparr>)"
      (is "wp (bind _ (\<lambda>_. ?m)) _ _")
    proof (subst wp_bind, rule releasesleep_wp)
      fix c2
      assume c2: "env c2 = env (core (s\<lparr>core := c1\<rparr>))" "slp c2 = (slp (core (s\<lparr>core := c1\<rparr>)))(BufL i := \<lparr>slocked = 0, spid = 0\<rparr>)"
      have q2: "quiet c2" using quiet_env [OF _ q1, of c2] c2 by simp
      show "wp ?m Q (s\<lparr>core := c1, core := c2\<rparr>)"
        by (rule with_lock_wp_plain)
           (use q2 c1 c2 in \<open>auto simp: quiet_lk_ok quiet_free wp_simps upd_buf_def bi intro!: fin\<close>)
    qed (simp add: q1)
    then show "wp (if \<not> slocked (slp (core s) (BufL i)) \<noteq> 0 then panic ''brelse'' else
      bind (releasesleep (BufL i)) (\<lambda>_. ?m)) Q (s\<lparr>core := c1\<rparr>)"
      using bi by simp
  qed
qed

text \<open>Writing to the data of a held buffer.\<close>

lemma bset:
  assumes inv: "binv s H M" and i: "i \<in> H" and x: "length x = BSIZE"
    and t: "t = s\<lparr>bufs := (bufs s)(i := (bufs s i)\<lparr>bdata := x\<rparr>)\<rparr>"
  shows "binv t H (insert i M)" and "bview t = (bview s)(blockno (bufs s i) := x)" and "didx t = didx s"
    and "bfr s t"
proof -
  note d = binvD [OF inv]
  have iN: "i < NBUF" using d(5) i(1) by auto
  have bi: "bvalid (bufs s i)" "bhit (bufs s) (blockno (bufs s i)) i"
    using d(6) [OF iN] i by (simp_all add: buf_ok_def Let_def bhit_def)
  show f: "bfr s t" by (simp add: t bfr_def)
  have u: "uniq (bufs t)" using d(3) by (subst uniq_key [of _ "bufs s"]) (simp_all add: t)
  have "lru_ok (bufs t)" using d(2) lru_list_cong [of "bufs t" "bufs s"] by (simp add: lru_ok_def t)
  moreover have "buf_ok t H (insert i M) j" if "j < NBUF" for j
  proof (cases "j = i")
    case True
    then show ?thesis using d(6) [OF iN] i x bi by (simp add: buf_ok_def Let_def t bvalid_def)
  next
    case False
    then show ?thesis by (intro buf_ok_frame [OF d(6) [OF that]]) (simp_all add: t)
  qed
  moreover have "bsys t" using d(1) by (simp add: t bsys_def ide_ready_def)
  ultimately show "binv t H (insert i M)" using d u i by (auto simp: binv_def)
  show "didx t = didx s" by (auto simp: didx_def t bdirty_def)
  show "bview t = (bview s)(blockno (bufs s i) := x)"
  proof
    fix n
    show "bview t n = ((bview s)(blockno (bufs s i) := x)) n"
    proof (cases "n = blockno (bufs s i)")
      case True
      then show ?thesis
        using bviewI [OF u iN, of n] bi by (simp add: t bhit_def bvalid_def)
    next
      case False
      from d(3) show ?thesis
      proof (cases rule: bview_cases [where n = n])
        case (hit j)
        with False have "j \<noteq> i" by (auto simp: bhit_def)
        with hit False bviewI [OF u, of j n] show ?thesis by (simp add: t bhit_def)
      next
        case miss
        have "bview t n = disk t ROOTDEV n"
          by (rule bview_disk) (use miss(1) False in \<open>auto simp: t bhit_def split: if_splits\<close>)
        with miss False show ?thesis by (simp add: t)
      qed
    qed
  qed
qed

definition bwrite_post :: "'x bst_scheme \<Rightarrow> nat set \<Rightarrow> nat set \<Rightarrow> nat \<Rightarrow> 'x bst_scheme \<Rightarrow> bool" where
  "bwrite_post s H M i s' \<longleftrightarrow> (let n = blockno (bufs s i); x = bdata (bufs s i) in
     binv s' H (M - {i}) \<and> bfr s s' \<and> disk s' = (disk s)(ROOTDEV := (disk s ROOTDEV)(n := x)) \<and>
     wrlog s' = wrlog s @ [(ROOTDEV, n, x)] \<and> bview s' = bview s \<and> didx s' = didx s - {i} \<and>
     (\<forall>j. j \<noteq> i \<longrightarrow> bufs s' j = bufs s j) \<and>
     bdev (bufs s' i) = ROOTDEV \<and> blockno (bufs s' i) = n \<and> bdata (bufs s' i) = x)"

lemma bwrite_wp:
  assumes inv: "binv s H M" and i: "i \<in> H" and n: "blockno (bufs s i) < FSSIZE"
    and post: "\<And>s'. bwrite_post s H M i s' \<Longrightarrow> Q () s'"
  shows "wp (bwrite i) Q s"
  unfolding bwrite_def
proof -
  note d = binvD [OF inv] and sy = bsysD [OF binvD(1) [OF inv]]
  have iN: "i < NBUF" using d(5) i(1) by auto
  let ?b = "bufs s i"
  have bi: "slocked (slp (core s) (BufL i)) \<noteq> 0" "bvalid ?b" "bdev ?b = ROOTDEV" "length (bdata ?b) = BSIZE" "refcnt ?b = 1"
    using d(6) [OF iN] i by (simp_all add: buf_ok_def Let_def)
  have r1: "ROOTDEV AND 1 = ROOTDEV" by (simp add: ROOTDEV_def)
  let ?B = "(bufs s)(i := ?b\<lparr>flags := flags ?b OR B_DIRTY\<rparr>)"
  have go: "wp (iderw i) Q (s\<lparr>core := c1, bufs := ?B\<rparr>)" if c1: "env c1 = env (core s)" "slp c1 = slp (core s)" for c1
  proof (rule iderw_wp)
    fix cmd c2
    assume c2: "env c2 = env (core (s\<lparr>core := c1, bufs := ?B\<rparr>))" "slp c2 = slp (core (s\<lparr>core := c1, bufs := ?B\<rparr>))"
    let ?t = "iderw_post i (s\<lparr>core := c1, bufs := ?B\<rparr>) cmd c2"
    let ?b' = "bufs ?t i"
    have dk: "disk ?t = (disk s)(ROOTDEV := (disk s ROOTDEV)(blockno ?b := bdata ?b))"
      "wrlog ?t = wrlog s @ [(ROOTDEV, blockno ?b, bdata ?b)]" "\<And>j. j \<noteq> i \<Longrightarrow> bufs ?t j = bufs s j"
      by (simp_all add: iderw_post_def Let_def bi r1 fun_upd_def)
    have b': "bvalid ?b'" "\<not> bdirty ?b'" "bdev ?b' = ROOTDEV" "blockno ?b' = blockno ?b" "bdata ?b' = bdata ?b"
      "refcnt ?b' = 1" "bnext ?b' = bnext ?b" "bprev ?b' = bprev ?b"
      by (simp_all add: iderw_post_def Let_def bi B_VALID_def bit_simps)
    have f: "bfr s ?t"
      using c1 c2 sy(6) by (simp add: bfr_iff iderw_post_def Let_def)
    have nx: "bnext (bufs ?t j) = bnext (bufs s j)" "bprev (bufs ?t j) = bprev (bufs s j)" for j
      using dk(3) b'(7,8) by (cases "j = i"; simp)+
    have key: "bdev (bufs ?t j) = bdev (bufs s j)" "blockno (bufs ?t j) = blockno (bufs s j)" "bdata (bufs ?t j) = bdata (bufs s j)"
      "bvalid (bufs ?t j) = bvalid (bufs s j)" for j
      using dk(3) b' bi by (cases "j = i"; simp)+
    have sl: "slp (core ?t) = slp (core s)" using c1 c2 by (simp add: iderw_post_def Let_def)
    have ok: "buf_ok ?t H (M - {i}) j" if "j < NBUF" for j
    proof (cases "j = i")
      case True
      then show ?thesis using b' bi dk i sl by (simp add: buf_ok_def)
    next
      case False
      have "blockno (bufs s j) \<noteq> blockno ?b" if "bvalid (bufs s j)"
        using d(3) iN \<open>j < NBUF\<close> False bi(3) d(6) [OF \<open>j < NBUF\<close>] that by (auto simp: uniq_def buf_ok_def Let_def)
      with False dk show ?thesis
        by (intro buf_ok_frame [OF d(6) [OF that]]) (auto simp: sl)
    qed
    have u: "uniq (bufs ?t)" using d(3) by (subst uniq_key [of _ "bufs s"]) (simp_all add: key)
    have "binv ?t H (M - {i})"
      using d ok u bsys_bfr [OF f _ d(1)] sy(8) dk(1) bi(4) lru_list_cong [of "bufs ?t" "bufs s", OF nx]
      by (auto simp: binv_def lru_ok_def)
    moreover have "bview ?t m = bview s m" for m
      using d(3)
    proof (cases rule: bview_cases [where n = m])
      case (hit j)
      with bviewI [OF u, of j m] show ?thesis by (simp add: key bhit_def)
    next
      case miss
      have "bview ?t m = disk ?t ROOTDEV m"
        by (rule bview_disk) (use miss(1) in \<open>simp add: key bhit_def\<close>)
      moreover have "m \<noteq> blockno ?b" using miss(1) [OF iN bi(2)] bi(3) by (auto simp: bhit_def)
      ultimately show ?thesis using miss dk by simp
    qed
    moreover have "didx ?t = didx s - {i}"
    proof (rule set_eqI)
      show "j \<in> didx ?t \<longleftrightarrow> j \<in> didx s - {i}" for j
        using b'(2) dk(3) [of j] by (cases "j = i") (simp_all add: didx_def)
    qed
    ultimately show "Q () ?t"
      using dk b' f by (intro post) (auto simp: bwrite_post_def)
  qed (use c1 sy bi n quiet_env [OF c1(1) [symmetric] sy(1)] in \<open>auto simp: ide_ready_def\<close>)
  show "wp (bind (holdingsleep (BufL i)) (\<lambda>h. if \<not> h then panic ''bwrite'' else
     bind (upd_buf i (\<lambda>b. b\<lparr>flags := flags b OR B_DIRTY\<rparr>)) (\<lambda>_. iderw i))) Q s"
    by (subst wp_bind, rule holdingsleep_wp [OF sy(1)]) (simp add: bi(1) wp_simps upd_buf_def go)
qed

section \<open>Initialisation\<close>

text \<open>Statically allocated memory is zero; \<open>bufs0\<close> is the cache after \<open>binit\<close>.\<close>

definition zbuf :: buf where
  "zbuf = \<lparr>flags = 0, bdev = 0, blockno = 0, refcnt = 0, bprev = 0, bnext = 0, qnext = None, bdata = replicate BSIZE 0\<rparr>"

definition bufs0 :: "nat \<Rightarrow> buf" where
  "bufs0 i = zbuf\<lparr>bprev := (if i = NBUF then 0 else i + 1), bnext := (if i = 0 then NBUF else i - 1)\<rparr>"

lemma lru_bufs0: "lru_list bufs0 (rev [0..<NBUF])"
proof -
  have l: "link (\<lambda>i. bnext (bufs0 i)) (\<lambda>i. bprev (bufs0 i)) k (rev [0..<k] @ [NBUF])" if "k \<le> NBUF" for k
    using that by (induction k) (auto simp: bufs0_def)
  show ?thesis
    using l [of NBUF] by (auto simp: lru_list_def dll_def)
qed

lemma binv_boot:
  assumes "bsys s" and "bufs s = bufs0" and "\<And>i. slocked (slp (core s) (BufL i)) = 0"
  shows "binv s {} {}" and "bview s = disk s ROOTDEV" and "didx s = {}"
proof -
  have z: "\<not> bvalid (bufs s i)" "\<not> bdirty (bufs s i)" "bdev (bufs s i) = 0" "refcnt (bufs s i) = 0" for i
    by (simp_all add: assms(2) bufs0_def zbuf_def bvalid_def bdirty_def)
  show "binv s {} {}"
    using lru_bufs0 assms z [unfolded assms(2)] by (auto simp: binv_def buf_ok_def lru_ok_def uniq_def ROOTDEV_def Let_def)
  show "bview s = disk s ROOTDEV" by (rule ext, rule bview_disk) (simp add: z)
  show "didx s = {}" by (simp add: didx_def z)
qed

lemma initlock_free: "slk (core s) l = free_lk \<Longrightarrow> wp (initlock l) Q s = Q () s"
  by (simp add: initlock_def upd_core_def wp_simps free_lk_def fun_upd_idem)

lemma initsleeplock_free:
  "slk (core s) (SlpLk k) = free_lk \<Longrightarrow> slp (core s) k = \<lparr>slocked = 0, spid = 0\<rparr> \<Longrightarrow> wp (initsleeplock k) Q s = Q () s"
  by (simp add: initsleeplock_def wp_bind initlock_free upd_slp_def upd_core_def wp_modify fun_upd_idem)

lemma binit_wp:
  assumes "bsys s" and "\<And>k. slp (core s) k = \<lparr>slocked = 0, spid = 0\<rparr>" and z: "\<And>i. bk (bufs s i) = zbuf"
    and post: "\<And>B. lru_list B (rev [0..<NBUF]) \<Longrightarrow> (\<And>i. bk (B i) = zbuf) \<Longrightarrow> Q () (s\<lparr>bufs := B\<rparr>)"
  shows "wp binit Q s"
proof -
  note sy = bsysD [OF assms(1)]
  let ?I = "\<lambda>pre t. \<exists>B. t = s\<lparr>bufs := B\<rparr> \<and> (\<forall>i. bk (B i) = zbuf) \<and> dll (\<lambda>i. bnext (B i)) (\<lambda>i. bprev (B i)) NBUF (rev pre)"
  have "wp (forM [0..<NBUF] (\<lambda>i. bind (initsleeplock (BufL i)) (\<lambda>_. modify (\<lambda>s. s\<lparr>bufs := bpush i (bufs s)\<rparr>)))) Q
    (s\<lparr>bufs := (bufs s)(NBUF := (bufs s NBUF)\<lparr>bprev := NBUF, bnext := NBUF\<rparr>)\<rparr>)" (is "wp _ _ ?s1")
  proof (rule wp_forM [where I = ?I])
    show "?I [] ?s1" by (rule exI [of _ "bufs ?s1"]) (simp add: z dll_def)
  next
    fix pre i todo t
    assume sp: "[0..<NBUF] = pre @ i # todo" and "?I pre t"
    then obtain B where t: "t = s\<lparr>bufs := B\<rparr>" and B: "\<And>i. bk (B i) = zbuf" "dll (\<lambda>i. bnext (B i)) (\<lambda>i. bprev (B i)) NBUF (rev pre)"
      by blast
    have "distinct (pre @ i # todo)" "set (pre @ i # todo) = {0..<NBUF}"
      by (simp_all flip: sp)
    then have ni: "i \<notin> set (NBUF # rev pre)" by auto
    have "(\<lambda>j. bnext (bpush i B j)) = (\<lambda>j. bnext (B j))(i := bnext (B NBUF), NBUF := i)"
      "(\<lambda>j. bprev (bpush i B j)) = (\<lambda>j. bprev (B j))(i := NBUF, bnext (B NBUF) := i)"
      using ni by (auto simp: bpush_def Let_def)
    with dll_push [OF B(2) ni] have "dll (\<lambda>j. bnext (bpush i B j)) (\<lambda>j. bprev (bpush i B j)) NBUF (rev (pre @ [i]))"
      by simp
    then show "wp (bind (initsleeplock (BufL i)) (\<lambda>_. modify (\<lambda>s. s\<lparr>bufs := bpush i (bufs s)\<rparr>))) (\<lambda>_. ?I (pre @ [i])) t"
      using sy assms(2) by (simp add: t wp_bind initsleeplock_free wp_modify) (auto simp: B(1) intro!: exI [of _ "bpush i B"])
  next
    show "?I [0..<NBUF] t \<Longrightarrow> Q () t" for t
      using post by (auto simp: lru_list_def)
  qed
  then show ?thesis
    using sy by (simp add: binit_def wp_bind initlock_free upd_buf_def wp_modify)
qed

lemma binit_establishes:
  assumes "bsys s" and "\<And>k. slp (core s) k = \<lparr>slocked = 0, spid = 0\<rparr>" and "\<And>i. bk (bufs s i) = zbuf"
  shows "wp binit (\<lambda>_ s'. binv s' {} {} \<and> bview s' = disk s ROOTDEV \<and> didx s' = {}) s"
proof (rule binit_wp [OF assms])
  fix B
  assume B: "lru_list B (rev [0..<NBUF])" and "\<And>i. bk (B i) = zbuf"
  let ?t = "s\<lparr>bufs := B\<rparr>"
  have z: "\<not> bvalid (bufs ?t i)" "\<not> bdirty (bufs ?t i)" "bdev (bufs ?t i) = 0" "refcnt (bufs ?t i) = 0" for i
    using bk_eqD [of "B i" zbuf] \<open>bk (B i) = zbuf\<close> by (simp_all add: zbuf_def bvalid_def bdirty_def bk_def)
  have "bsys ?t" using assms(1) by (simp add: bsys_def ide_ready_def)
  moreover have "bview ?t = disk ?t ROOTDEV" by (rule ext, rule bview_disk) (use z(1) in simp)
  ultimately show "binv ?t {} {} \<and> bview ?t = disk s ROOTDEV \<and> didx ?t = {}"
    using B assms(2) z by (auto simp: binv_def buf_ok_def lru_ok_def uniq_def ROOTDEV_def didx_def Let_def)
qed

text \<open>A machine just booted from the disk contents \<open>dk\<close>.\<close>

definition boot :: "(u32 \<Rightarrow> u8 list) \<Rightarrow> bst" where
  "boot dk = \<lparr>core = core0, cns = console0, mmu = mmu0, mem = (\<lambda>_. 0), freelist = 0, use_lock = True, kend = 0, bufs = bufs0, idequeue = None, havedisk1 = True,
     idests = IDE_DRDY, probe1 = 1, idecmd = None, disk = (\<lambda>_. dk), wrlog = []\<rparr>"

lemma bsys_boot: "(\<And>n. length (dk n) = BSIZE) \<Longrightarrow> bsys (boot dk)"
  by (simp add: bsys_def boot_def ide_ready_def IDE_DRDY_def IDE_BSY_def IDE_DF_def IDE_ERR_def)

lemma binv_boot_disk: "(\<And>n. length (dk n) = BSIZE) \<Longrightarrow> binv (boot dk) {} {}"
  by (rule binv_boot) (simp_all add: bsys_boot, simp_all add: boot_def)

section \<open>Properties\<close>

text \<open>
  C3. Caching is transparent. When a buffer can be had for a block the thread does not hold yet,
  \<open>bread\<close> returns (it does not panic, block or run off the list) a buffer it then holds locked,
  with exactly the contents of the block as seen through the cache. The contents of no block
  change, even when a buffer is recycled for it, nothing is written to the disk, and the cache
  invariant is kept.
\<close>

theorem bread_returns_block:
  assumes "binv s H M" and "\<forall>i\<in>H. \<not> bhit (bufs s) n i" and "broom s H n" and "n < FSSIZE"
  shows "\<exists>i s'. bread ROOTDEV n s = Ret i s' \<and> i \<notin> H \<and> binv s' (insert i H) M \<and> bhit (bufs s') n i \<and>
    slocked (slp (core s') (BufL i)) \<noteq> 0 \<and> bdata (bufs s' i) = bview s n \<and> bview s' = bview s \<and> disk s' = disk s"
proof -
  have *: "slocked (slp (core t) (BufL i)) \<noteq> 0" if "bread_post s H M n i t" for i t
    using that binvD(6) [of t "insert i H" M i] by (auto simp: bread_post_def buf_ok_def Let_def)
  have "wp (bread ROOTDEV n) (bread_post s H M n) s"
    by (rule bread_wp [OF assms(1)]) (use assms in auto)
  then show ?thesis
    by (rule wpE) (use * in \<open>auto simp: bread_post_def\<close>)
qed

theorem bread_returns_block_witness:
  "\<exists>i s'. bread ROOTDEV 7 (boot (\<lambda>n. replicate BSIZE 5)) = Ret i s' \<and> bdata (bufs s' i) = replicate BSIZE 5"
proof -
  let ?s = "boot (\<lambda>n. replicate BSIZE 5)"
  have "bview ?s = (\<lambda>n. replicate BSIZE 5)"
    by (subst binv_boot(2)) (simp_all add: bsys_boot, simp_all add: boot_def)
  moreover have "broom ?s {} 7"
    by (simp add: broom_def boot_def bufs0_def zbuf_def bdirty_def NBUF_def) presburger
  ultimately show ?thesis
    using bread_returns_block [of ?s "{}" "{}" 7] binv_boot_disk [of "\<lambda>n. replicate BSIZE 5"]
    by (fastforce simp: FSSIZE_def)
qed



end
