(* ===== verification/Packed.thy ===== *)
theory Packed
  imports Prelude
begin

text \<open>
  Arrays of fixed-size records packed into a disk block. The log header, the indirect blocks, the
  inode blocks and the directories are all read and written through such arrays. The locale
  \<open>packed\<close> is the contract of one record type: \<open>put\<close> stores a record at a byte offset, \<open>get\<close> loads
  it. Its lemmas say that an array of them behaves like an array. It is interpreted here for the
  32-bit words of the log header and the indirect blocks, and in later theories for the on-disk inodes
  and directory entries.
\<close>

locale packed =
  fixes put :: "u8 list \<Rightarrow> nat \<Rightarrow> 'a \<Rightarrow> u8 list"
    and get :: "u8 list \<Rightarrow> nat \<Rightarrow> 'a"
    and esz :: nat
    and ok :: "'a \<Rightarrow> bool"
  assumes length_put: "ok v \<Longrightarrow> i + esz \<le> length xs \<Longrightarrow> length (put xs i v) = length xs"
    and get_put: "ok v \<Longrightarrow> i + esz \<le> length xs \<Longrightarrow> get (put xs i v) i = v"
    and get_local: "(\<And>k. k < esz \<Longrightarrow> xs ! (i + k) = ys ! (j + k)) \<Longrightarrow> get xs i = get ys j"
    and put_other: "ok v \<Longrightarrow> i + esz \<le> length xs \<Longrightarrow> j < length xs \<Longrightarrow> j < i \<or> i + esz \<le> j \<Longrightarrow> put xs i v ! j = xs ! j"
begin

lemma get_put_disjoint:
  assumes "ok v" and "i + esz \<le> length xs" and "j + esz \<le> length xs" and "j + esz \<le> i \<or> i + esz \<le> j"
  shows "get (put xs i v) j = get xs j"
  by (rule get_local) (use assms in \<open>auto intro!: put_other\<close>)

lemma elem_bound: "k < n \<Longrightarrow> b + esz * n \<le> m \<Longrightarrow> b + esz * k + esz \<le> m"
  using mult_le_mono2 [of "Suc k" n esz] by simp

lemma get_put_elem:
  assumes "ok v" and "b + esz * n \<le> length xs" and "k < n" and "j < n"
  shows "get (put xs (b + esz * k) v) (b + esz * j) = (if j = k then v else get xs (b + esz * j))"
proof (cases "j = k")
  case True
  then show ?thesis using get_put assms elem_bound [OF assms(3,2)] by simp
next
  case False
  then have "esz * j + esz \<le> esz * k \<or> esz * k + esz \<le> esz * j"
    using mult_le_mono2 [of "Suc j" k esz] mult_le_mono2 [of "Suc k" j esz] by (cases "j < k") auto
  then show ?thesis
    using False assms get_put_disjoint [of v "b + esz * k" xs "b + esz * j"] elem_bound [OF assms(3,2)] elem_bound [OF assms(4,2)]
    by auto
qed

text \<open>Storing elements \<open>0, ..., n - 1\<close> in a loop.\<close>

lemma store_all:
  assumes "\<And>i. i < n \<Longrightarrow> ok (f i)" and "b + esz * n \<le> length xs"
  shows "length (fold (\<lambda>i d. put d (b + esz * i) (f i)) [0..<n] xs) = length xs" (is "length (?F n) = _")
    and "\<And>j. j < n \<Longrightarrow> get (fold (\<lambda>i d. put d (b + esz * i) (f i)) [0..<n] xs) (b + esz * j) = f j"
    and "\<And>j. j < length xs \<Longrightarrow> j < b \<or> b + esz * n \<le> j \<Longrightarrow> fold (\<lambda>i d. put d (b + esz * i) (f i)) [0..<n] xs ! j = xs ! j"
proof -
  have *: "m \<le> n \<Longrightarrow> length (?F m) = length xs \<and> (\<forall>j<m. get (?F m) (b + esz * j) = f j) \<and>
    (\<forall>j<length xs. j < b \<or> b + esz * n \<le> j \<longrightarrow> ?F m ! j = xs ! j)" for m
  proof (induction m)
    case (Suc m)
    let ?x = "?F m"
    have b: "b + esz * Suc m \<le> length ?x" and s: "b + esz * m + esz \<le> b + esz * n"
      using Suc assms(2) mult_le_mono2 [of "Suc m" n esz] by simp_all
    have o: "ok (f m)" using assms(1) Suc.prems by simp
    have "get (put ?x (b + esz * m) (f m)) (b + esz * j) = f j" if "j < Suc m" for j
      using get_put_elem [OF o b, of m j] that Suc by auto
    moreover have "put ?x (b + esz * m) (f m) ! j = xs ! j" if "j < length xs" "j < b \<or> b + esz * n \<le> j" for j
      using put_other [OF o, of "b + esz * m" ?x j] b s that Suc by fastforce
    ultimately show ?case
      using length_put [OF o, of "b + esz * m" ?x] b Suc by simp
  qed simp
  show "length (?F n) = length xs" using * [of n] by simp
  show "get (?F n) (b + esz * j) = f j" if "j < n" for j using * [of n] that by simp
  show "?F n ! j = xs ! j" if "j < length xs" "j < b \<or> b + esz * n \<le> j" for j using * [of n] that by blast
qed

end

interpretation words: packed wr32 rd32 4 "\<lambda>_. True"
proof unfold_locales
  show "length (wr32 xs i v) = length xs" if "i + 4 \<le> length xs" for xs i v using that by simp
  show "rd32 (wr32 xs i v) i = v" if "i + 4 \<le> length xs" for xs i v using that by (rule rd32_wr32)
  show "(\<And>k. k < 4 \<Longrightarrow> xs ! (i + k) = ys ! (j + k)) \<Longrightarrow> rd32 xs i = rd32 ys j" for xs i ys j by (rule rd32_cong)
  show "wr32 xs i v ! j = xs ! j" if "i + 4 \<le> length xs" "j < length xs" "j < i \<or> i + 4 \<le> j" for xs i v j
    using that by (auto simp: wr32_def nth_splice)
qed

end
