(* ===== verification/Log.thy ===== *)
theory Log
  imports Bio Packed
begin

text \<open>
  The write-ahead log, \<^verbatim>\<open>log.c\<close>, with the super block reader of \<^verbatim>\<open>fs.c\<close> it starts from. A
  file-system operation pins the blocks it changes in the cache (\<open>log_write\<close>); the last operation to
  end copies them to the log, writes the log header, copies them home and clears the header.

  \<open>linv\<close> relates the in-memory log to the cache and to the disk. The lemmas give the contracts of the
  operations and the exact sequence of disk writes of \<open>commit\<close> and of recovery; the last section
  shows that a power failure between any two of those writes is harmless.
\<close>

section \<open>The code\<close>

definition MAXOPBLOCKS :: int where "MAXOPBLOCKS = 10"
definition LOGSIZE :: int where "LOGSIZE = MAXOPBLOCKS * 3"

record superblock =
  sb_size :: u32
  sb_nblocks :: u32
  sb_ninodes :: u32
  sb_nlog :: u32
  sb_logstart :: u32
  sb_inodestart :: u32
  sb_bmapstart :: u32

text \<open>\<open>struct log\<close> and the header in it. \<open>lh_n\<close> and \<open>outstanding\<close> are C \<open>int\<close>s.\<close>

record log =
  start :: u32
  lsize :: u32
  outstanding :: int
  committing :: bool
  ldev :: u32
  lh_n :: int
  lh_block :: "u32 list"

record lst = bst +
  lg :: log

definition upd_log :: "(log \<Rightarrow> log) \<Rightarrow> ('x lst_scheme, unit) sm" where
  "upd_log f = modify (\<lambda>s. s\<lparr>lg := f (lg s)\<rparr>)"

definition sb_of :: "u8 list \<Rightarrow> superblock" where
  "sb_of d = \<lparr>sb_size = rd32 d 0, sb_nblocks = rd32 d 4, sb_ninodes = rd32 d 8, sb_nlog = rd32 d 12,
     sb_logstart = rd32 d 16, sb_inodestart = rd32 d 20, sb_bmapstart = rd32 d 24\<rparr>"

definition readsb :: "u32 \<Rightarrow> ('x bst_scheme, superblock) sm" where
  "readsb dv = bind (bread dv 1) (\<lambda>bp.
     bind (gets (\<lambda>s. sb_of (bdata (bufs s bp)))) (\<lambda>sb.
     bind (brelse bp) (\<lambda>_. ret sb)))"

text \<open>\<open>memmove(to->data, from->data, BSIZE)\<close>\<close>

definition bcopy :: "nat \<Rightarrow> nat \<Rightarrow> ('x bst_scheme, unit) sm" where
  "bcopy to from = bind (gets (\<lambda>s. bdata (bufs s from))) (\<lambda>x. upd_buf to (\<lambda>b. b\<lparr>bdata := x\<rparr>))"

definition install_trans :: "('x lst_scheme, unit) sm" where
  "install_trans = bind (gets (\<lambda>s. lh_n (lg s))) (\<lambda>n. forM [0..<nat n] (\<lambda>tail.
     bind (gets lg) (\<lambda>l.
     bind (bread (ldev l) (start l + of_nat tail + 1)) (\<lambda>lbuf.
     bind (bread (ldev l) (lh_block l ! tail)) (\<lambda>dbuf.
     bind (bcopy dbuf lbuf) (\<lambda>_.
     bind (bwrite dbuf) (\<lambda>_.
     bind (brelse lbuf) (\<lambda>_.
     brelse dbuf))))))))"

definition read_head :: "('x lst_scheme, unit) sm" where
  "read_head = bind (gets lg) (\<lambda>l.
     bind (bread (ldev l) (start l)) (\<lambda>b.
     bind (gets (\<lambda>s. bdata (bufs s b))) (\<lambda>d.
     bind (upd_log (\<lambda>l. l\<lparr>lh_n := sint (rd32 d 0)\<rparr>)) (\<lambda>_.
     bind (forM [0..<nat (sint (rd32 d 0))] (\<lambda>i.
       if int i \<ge> LOGSIZE then fault ''log.lh.block'' else
       upd_log (\<lambda>l. l\<lparr>lh_block := (lh_block l)[i := rd32 d (4 + 4 * i)]\<rparr>))) (\<lambda>_.
     brelse b)))))"

text \<open>The stores of \<open>write_head\<close>: the count, then the block numbers.\<close>

definition head_bytes :: "int \<Rightarrow> u32 list \<Rightarrow> u8 list \<Rightarrow> u8 list" where
  "head_bytes n bl d = fold (\<lambda>i d. wr32 d (4 + 4 * i) (bl ! i)) [0..<nat n] (wr32 d 0 (word_of_int n))"

definition write_head :: "('x lst_scheme, unit) sm" where
  "write_head = bind (gets lg) (\<lambda>l.
     bind (bread (ldev l) (start l)) (\<lambda>b.
     bind (upd_buf b (\<lambda>k. k\<lparr>bdata := head_bytes (lh_n l) (lh_block l) (bdata k)\<rparr>)) (\<lambda>_.
     bind (bwrite b) (\<lambda>_.
     brelse b))))"

definition recover_from_log :: "('x lst_scheme, unit) sm" where
  "recover_from_log = bind read_head (\<lambda>_. bind install_trans (\<lambda>_.
     bind (upd_log (\<lambda>l. l\<lparr>lh_n := 0\<rparr>)) (\<lambda>_. write_head)))"

definition initlog :: "u32 \<Rightarrow> ('x lst_scheme, unit) sm" where
  "initlog dv = (if 4 + 4 * LOGSIZE \<ge> int BSIZE then panic ''initlog: too big logheader'' else
     bind (initlock LogLk) (\<lambda>_.
     bind (readsb dv) (\<lambda>sb.
     bind (upd_log (\<lambda>l. l\<lparr>start := sb_logstart sb\<rparr>)) (\<lambda>_.
     bind (upd_log (\<lambda>l. l\<lparr>lsize := sb_nlog sb\<rparr>)) (\<lambda>_.
     bind (upd_log (\<lambda>l. l\<lparr>ldev := dv\<rparr>)) (\<lambda>_.
     recover_from_log))))))"

definition begin_op :: "('x lst_scheme, unit) sm" where
  "begin_op = bind (acquire LogLk) (\<lambda>_. bind (gets lg) (\<lambda>l.
     if committing l then sleep ChLog LogLk
     else if lh_n l + (outstanding l + 1) * MAXOPBLOCKS > LOGSIZE then sleep ChLog LogLk
     else bind (upd_log (\<lambda>l. l\<lparr>outstanding := outstanding l + 1\<rparr>)) (\<lambda>_. release LogLk)))"

definition write_log :: "('x lst_scheme, unit) sm" where
  "write_log = bind (gets (\<lambda>s. lh_n (lg s))) (\<lambda>n. forM [0..<nat n] (\<lambda>tail.
     bind (gets lg) (\<lambda>l.
     bind (bread (ldev l) (start l + of_nat tail + 1)) (\<lambda>to.
     bind (bread (ldev l) (lh_block l ! tail)) (\<lambda>from.
     bind (bcopy to from) (\<lambda>_.
     bind (bwrite to) (\<lambda>_.
     bind (brelse from) (\<lambda>_.
     brelse to))))))))"

definition commit :: "('x lst_scheme, unit) sm" where
  "commit = bind (gets (\<lambda>s. lh_n (lg s))) (\<lambda>n. whenM (n > 0)
     (bind write_log (\<lambda>_. bind write_head (\<lambda>_. bind install_trans (\<lambda>_.
      bind (upd_log (\<lambda>l. l\<lparr>lh_n := 0\<rparr>)) (\<lambda>_. write_head))))))"

definition end_op :: "('x lst_scheme, unit) sm" where
  "end_op = bind (acquire LogLk) (\<lambda>_.
     bind (upd_log (\<lambda>l. l\<lparr>outstanding := outstanding l - 1\<rparr>)) (\<lambda>_.
     bind (gets lg) (\<lambda>l.
     if committing l then panic ''log.committing'' else
     bind (if outstanding l = 0 then upd_log (\<lambda>l. l\<lparr>committing := True\<rparr>) else wakeup ChLog) (\<lambda>_.
     bind (release LogLk) (\<lambda>_.
     whenM (outstanding l = 0)
       (bind commit (\<lambda>_.
        bind (acquire LogLk) (\<lambda>_.
        bind (upd_log (\<lambda>l. l\<lparr>committing := False\<rparr>)) (\<lambda>_.
        bind (wakeup ChLog) (\<lambda>_.
        release LogLk))))))))))"

text \<open>The loop of \<open>log_write\<close>: the index of the block in the header, or the end of it.\<close>

definition log_slot :: "log \<Rightarrow> u32 \<Rightarrow> nat" where
  "log_slot l b = (case List.find (\<lambda>i. lh_block l ! i = b) [0..<nat (lh_n l)] of Some i \<Rightarrow> i | None \<Rightarrow> nat (lh_n l))"

definition log_write :: "nat \<Rightarrow> ('x lst_scheme, unit) sm" where
  "log_write b = bind (gets lg) (\<lambda>l.
     if lh_n l \<ge> LOGSIZE \<or> lh_n l \<ge> sint (lsize l) - 1 then panic ''too big a transaction''
     else if outstanding l < 1 then panic ''log_write outside of trans''
     else with_lock LogLk (bind (gets (\<lambda>s. (lg s, blockno (bufs s b)))) (\<lambda>(l, bn).
       let i = log_slot l bn in
       bind (upd_log (\<lambda>l. l\<lparr>lh_block := (lh_block l)[i := bn]\<rparr>)) (\<lambda>_.
       bind (whenM (int i = lh_n l) (upd_log (\<lambda>l. l\<lparr>lh_n := lh_n l + 1\<rparr>))) (\<lambda>_.
       upd_buf b (\<lambda>k. k\<lparr>flags := flags k OR B_DIRTY\<rparr>))))))"

section \<open>Dirty blocks\<close>

definition dblk :: "'x bst_scheme \<Rightarrow> u32 set" where
  "dblk s = (\<lambda>i. blockno (bufs s i)) ` didx s"

lemma inj_didx:
  assumes "binv s H M"
  shows "inj_on (\<lambda>i. blockno (bufs s i)) (didx s)"
proof (rule inj_onI)
  fix i j
  assume i: "i \<in> didx s" and j: "j \<in> didx s" and e: "blockno (bufs s i) = blockno (bufs s j)"
  have "bdev (bufs s k) = ROOTDEV \<and> k < NBUF" if "k \<in> didx s" for k
    using that binvD(6) [OF assms, of k] by (auto simp: didx_def buf_ok_def Let_def split: if_splits)
  with i j e binvD(3) [OF assms] show "i = j" unfolding uniq_def by blast
qed

lemma card_dblk: "binv s H M \<Longrightarrow> card (dblk s) = card (didx s)"
  unfolding dblk_def by (rule card_image) (rule inj_didx)

lemma dblk_hit: "binv s H M \<Longrightarrow> n \<in> dblk s \<Longrightarrow> \<exists>i<NBUF. bhit (bufs s) n i"
  using binvD(6) [of s H M] by (fastforce simp: dblk_def didx_def buf_ok_def Let_def bhit_def split: if_splits)

lemma broom_dblk: "binv s H M \<Longrightarrow> n \<in> dblk s \<or> card H + card (dblk s) < NBUF \<Longrightarrow> broom s H n"
  using dblk_hit [of s H M n] broomI [of s H M n] card_dblk [of s H M] by (auto simp: broom_def)

lemma bview_clean:
  assumes "binv s H M" and "n \<notin> dblk s" and "\<And>i. i \<in> M \<Longrightarrow> \<not> bhit (bufs s) n i"
  shows "bview s n = disk s ROOTDEV n"
  using binvD(3) [OF assms(1)]
proof (cases rule: bview_cases [where n = n])
  case (hit i)
  with assms(2) have "\<not> bdirty (bufs s i)" by (auto simp: dblk_def didx_def bhit_def)
  moreover have "i \<notin> M" using assms(3) hit by blast
  ultimately show ?thesis
    using binvD(6) [OF assms(1) hit(1)] hit by (simp add: buf_ok_def Let_def bhit_def)
qed

lemma dblk_bread: "bread_post s H M n i s' \<Longrightarrow> dblk s' = dblk s"
proof -
  assume p: "bread_post s H M n i s'"
  have "blockno (bufs s' j) = blockno (bufs s j)" if "j \<in> didx s" for j
    using p that by (cases "j = i") (auto simp: bread_post_def bhit_def didx_def)
  then show ?thesis
    using p by (auto simp: dblk_def bread_post_def intro!: image_cong)
qed

lemma dblk_brelse: "brelse_post s H M i s' \<Longrightarrow> dblk s' = dblk s"
  by (auto simp: dblk_def brelse_post_def cont_def intro!: image_cong)

lemma dblk_bwrite:
  assumes "bwrite_post s H M i s'" and "binv s H M" and "i \<in> H"
  shows "dblk s' = dblk s - {blockno (bufs s i)}"
proof -
  have iN: "i < NBUF" using binvD(5) [OF assms(2)] assms(3) by auto
  have di: "didx s' = didx s - {i}" and o: "\<And>j. j \<noteq> i \<Longrightarrow> bufs s' j = bufs s j"
    using assms(1) by (auto simp: bwrite_post_def Let_def)
  have "bdev (bufs s i) = ROOTDEV" using binvD(6) [OF assms(2) iN] assms(3) by (simp add: buf_ok_def Let_def)
  then have "blockno (bufs s j) \<noteq> blockno (bufs s i)" if "j \<in> didx s" "j \<noteq> i" for j
    using that iN binvD(3) [OF assms(2)] binvD(6) [OF assms(2), of j]
    by (auto simp: uniq_def didx_def buf_ok_def Let_def split: if_splits)
  then show ?thesis
    using di o by (auto simp: dblk_def)
qed

lemma bfr_lg: "bfr s s' \<Longrightarrow> lg s' = lg s"
  unfolding bfr_def by (elim conjE) (drule arg_cong [of _ _ lg], simp)

section \<open>Sequences of disk writes\<close>

text \<open>The effect of the writes \<open>W\<close>, in order, on the contents \<open>D\<close> of the disk.\<close>

definition put :: "(u32 \<times> u8 list) list \<Rightarrow> (u32 \<Rightarrow> u8 list) \<Rightarrow> u32 \<Rightarrow> u8 list" where
  "put W D = fold (\<lambda>(n, x) D. D(n := x)) W D"

lemma put_Nil [simp]: "put [] D = D"
  and put_Cons: "put (w # W) D = put W (D(fst w := snd w))"
  and put_append: "put (W @ W') D = put W' (put W D)"
  by (simp_all add: put_def split: prod.splits)

lemma put_other: "n \<notin> fst ` set W \<Longrightarrow> put W D n = D n"
  by (induction W arbitrary: D) (auto simp: put_Cons)

lemma put_map:
  assumes "distinct (map f ts)" and "t \<in> set ts"
  shows "put (map (\<lambda>t. (f t, g t)) ts) D (f t) = g t"
  using assms
proof (induction ts arbitrary: D)
  case (Cons u ts)
  then show ?case
    by (cases "t = u") (auto simp: put_Cons put_other image_image)
qed simp

text \<open>\<open>wrote s W s'\<close>: between the two states, with no buffer held, the blocks \<open>W\<close> were written, in order.\<close>

definition wrote :: "'x bst_scheme \<Rightarrow> (u32 \<times> u8 list) list \<Rightarrow> 'x bst_scheme \<Rightarrow> bool" where
  "wrote s W s' \<longleftrightarrow> binv s' {} {} \<and> bfr s s' \<and> disk s' = (disk s)(ROOTDEV := put W (disk s ROOTDEV)) \<and>
     wrlog s' = wrlog s @ map (Pair ROOTDEV) W \<and> bview s' = put W (bview s) \<and> dblk s' = dblk s - fst ` set W"

lemma wrote_refl: "binv s {} {} \<Longrightarrow> wrote s [] s"
  by (simp add: wrote_def)

lemma wrote_trans: "wrote s W s1 \<Longrightarrow> wrote s1 W' s2 \<Longrightarrow> wrote s (W @ W') s2"
  by (auto simp: wrote_def put_append intro: bfr_trans)

lemma wrote_lg: "wrote s W s' \<Longrightarrow> lg s' = lg s"
  by (auto simp: wrote_def intro: bfr_lg)

text \<open>Writing one block through the cache: read it, change it, write it, release it.\<close>

lemma bcopy_wp:
  assumes "binv s H M" and "d \<in> H" and "sr \<in> H" and "\<And>s'. s' = s\<lparr>bufs := (bufs s)(d := (bufs s d)\<lparr>bdata := bdata (bufs s sr)\<rparr>)\<rparr> \<Longrightarrow> Q () s'"
  shows "wp (bcopy d sr) Q s"
  using assms(4) by (simp add: bcopy_def wp_simps upd_buf_def)

lemma held_length: "binv s H M \<Longrightarrow> i \<in> H \<Longrightarrow> length (bdata (bufs s i)) = BSIZE"
  using binvD(5,6) [of s H M] by (fastforce simp: buf_ok_def Let_def split: if_splits)

text \<open>\<open>same s s'\<close>: reading blocks has moved buffers around, nothing else.\<close>

definition same :: "'x bst_scheme \<Rightarrow> 'x bst_scheme \<Rightarrow> bool" where
  "same s s' \<longleftrightarrow> bfr s s' \<and> disk s' = disk s \<and> wrlog s' = wrlog s \<and> bview s' = bview s \<and> dblk s' = dblk s"

lemma same_refl [simp]: "same s s"
  by (simp add: same_def)

lemma same_trans: "same s t \<Longrightarrow> same t u \<Longrightarrow> same s u"
  by (auto simp: same_def intro: bfr_trans)

lemma same_bread: "bread_post s H M n i s' \<Longrightarrow> same s s'"
  using dblk_bread [of s H M n i s'] by (auto simp: same_def bread_post_def)

lemma same_brelse: "brelse_post s H M i s' \<Longrightarrow> same s s'"
  using dblk_brelse [of s H M i s'] by (auto simp: same_def brelse_post_def)

lemma same_lg: "same s s' \<Longrightarrow> lg s' = lg s"
  by (auto simp: same_def intro: bfr_lg)

lemma wrote_same: "wrote s W t \<Longrightarrow> same t u \<Longrightarrow> binv u {} {} \<Longrightarrow> wrote s W u"
  by (auto simp: wrote_def same_def intro: bfr_trans)

text \<open>A write of a held buffer, up to the releases that follow.\<close>

definition written :: "'x bst_scheme \<Rightarrow> u32 \<Rightarrow> u8 list \<Rightarrow> 'x bst_scheme \<Rightarrow> bool" where
  "written s d x s' \<longleftrightarrow> bfr s s' \<and> disk s' = (disk s)(ROOTDEV := (disk s ROOTDEV)(d := x)) \<and>
     wrlog s' = wrlog s @ [(ROOTDEV, d, x)] \<and> bview s' = (bview s)(d := x) \<and> dblk s' = dblk s - {d}"

lemma written_same: "same s t \<Longrightarrow> written t d x u \<Longrightarrow> written s d x u"
  "written s d x t \<Longrightarrow> same t u \<Longrightarrow> written s d x u"
  by (auto simp: written_def same_def intro: bfr_trans)

lemma wrote_written: "written s d x s' \<Longrightarrow> binv s' {} {} \<Longrightarrow> wrote s [(d, x)] s'"
  by (simp add: written_def wrote_def put_Cons)

lemma store_write_wp:
  assumes inv: "binv s H {}" and p: "p \<in> H" and d: "blockno (bufs s p) = d" "d < FSSIZE" and x: "length (f (bufs s p)) = BSIZE"
    and post: "\<And>s'. written s d (f (bufs s p)) s' \<Longrightarrow> binv s' H {} \<Longrightarrow> Q () s'"
  shows "wp (bind (upd_buf p (\<lambda>k. k\<lparr>bdata := f k\<rparr>)) (\<lambda>_. bwrite p)) Q s"
proof -
  let ?t = "s\<lparr>bufs := (bufs s)(p := (bufs s p)\<lparr>bdata := f (bufs s p)\<rparr>)\<rparr>"
  note t = bset [OF inv p x, of ?t, OF refl]
  have dt: "dblk ?t = dblk s"
    using t(3) by (auto simp: dblk_def image_def)
  have "wp (bwrite p) Q ?t"
  proof (rule bwrite_wp [OF t(1) p])
    show "blockno (bufs ?t p) < FSSIZE" using d by simp
  next
    fix s'
    assume w: "bwrite_post ?t H {p} p s'"
    then show "Q () s'"
      using t d dt dblk_bwrite [OF w t(1) p]
      by (intro post) (auto simp: bwrite_post_def Let_def written_def intro: bfr_trans [OF t(4)])
  qed
  then show ?thesis by (simp add: wp_bind upd_buf_def wp_modify)
qed

lemma brelse2_wp:
  assumes "binv s {u, v} {}" and "u \<noteq> v" and post: "\<And>s'. same s s' \<Longrightarrow> binv s' {} {} \<Longrightarrow> Q () s'"
  shows "wp (bind (brelse u) (\<lambda>_. brelse v)) Q s"
proof (subst wp_bind, rule brelse_wp [OF assms(1)])
  fix s1
  assume p: "brelse_post s {u, v} {} u s1"
  then have b: "binv s1 {v} {}" using assms(2) by (simp add: brelse_post_def insert_Diff_if)
  show "wp (brelse v) Q s1"
  proof (rule brelse_wp [OF b])
    show "Q () s2" if "brelse_post s1 {v} {} v s2" for s2
      using that same_brelse [OF that] same_brelse [OF p] by (intro post) (auto simp: brelse_post_def intro: same_trans)
  qed simp_all
qed simp_all

lemma bread2_wp:
  assumes inv: "binv s {} {}" and ab: "a \<noteq> b" "a < FSSIZE" "b < FSSIZE"
    and room: "a \<in> dblk s \<or> card (dblk s) < NBUF" "b \<in> dblk s \<or> card (dblk s) + 1 < NBUF"
    and post: "\<And>x y s'. same s s' \<Longrightarrow> binv s' {x, y} {} \<Longrightarrow> x \<noteq> y \<Longrightarrow> blockno (bufs s' x) = a \<Longrightarrow> blockno (bufs s' y) = b \<Longrightarrow>
       bdata (bufs s' x) = bview s a \<Longrightarrow> bdata (bufs s' y) = bview s b \<Longrightarrow> wp (f x y) Q s'"
  shows "wp (bind (bread ROOTDEV a) (\<lambda>x. bind (bread ROOTDEV b) (\<lambda>y. f x y))) Q s"
proof (subst wp_bind, rule bread_wp [OF inv _ broom_dblk [OF inv] ab(2)])
  fix x s1
  assume p: "bread_post s {} {} a x s1"
  have b1: "binv s1 {x} {}" and hx: "bhit (bufs s1) a x" "bdata (bufs s1 x) = bview s a" using p by (auto simp: bread_post_def)
  show "wp (bind (bread ROOTDEV b) (\<lambda>y. f x y)) Q s1"
  proof (subst wp_bind, rule bread_wp [OF b1 _ broom_dblk [OF b1] ab(3)])
    fix y s2
    assume q: "bread_post s1 {x} {} b y s2"
    have "y \<noteq> x" "binv s2 {x, y} {}" "bufs s2 x = bufs s1 x" "bhit (bufs s2) b y" "bdata (bufs s2 y) = bview s1 b"
      using q by (auto simp: bread_post_def insert_commute)
    then show "wp (f x y) Q s2"
      using same_trans [OF same_bread [OF p] same_bread [OF q]] hx same_bread [OF p]
      by (intro post) (auto simp: bhit_def same_def)
  qed (use ab hx room(2) same_bread [OF p] in \<open>auto simp: bhit_def same_def\<close>)
qed (use room in auto)

lemma install_step_wp:
  assumes inv: "binv s {} {}" and ab: "a \<noteq> b" "a < FSSIZE" "b < FSSIZE"
    and room: "card (dblk s) < NBUF" "b \<in> dblk s \<or> card (dblk s) + 1 < NBUF"
    and post: "\<And>s'. wrote s [(b, bview s a)] s' \<Longrightarrow> Q () s'"
  shows "wp (bind (bread ROOTDEV a) (\<lambda>x. bind (bread ROOTDEV b) (\<lambda>y. bind (bcopy y x) (\<lambda>_. bind (bwrite y) (\<lambda>_.
    bind (brelse x) (\<lambda>_. brelse y)))))) Q s"
proof (rule bread2_wp [OF inv ab])
  fix x y s1
  assume s1: "same s s1" "binv s1 {x, y} {}" "x \<noteq> y" "blockno (bufs s1 x) = a" "blockno (bufs s1 y) = b"
    "bdata (bufs s1 x) = bview s a" "bdata (bufs s1 y) = bview s b"
  have "wp (bind (upd_buf y (\<lambda>k. k\<lparr>bdata := bview s a\<rparr>)) (\<lambda>_. bwrite y)) (\<lambda>_. wp (bind (brelse x) (\<lambda>_. brelse y)) Q) s1"
  proof (rule store_write_wp [OF s1(2) _ s1(5) ab(3)])
    fix s2
    assume w: "written s1 b (bview s a) s2" and b2: "binv s2 {x, y} {}"
    show "wp (bind (brelse x) (\<lambda>_. brelse y)) Q s2"
      by (rule brelse2_wp [OF b2 s1(3)])
         (use w s1(1) in \<open>blast intro: post wrote_written written_same\<close>)
  qed (simp_all add: length_bview [OF inv])
  then show "wp (bind (bcopy y x) (\<lambda>_. bind (bwrite y) (\<lambda>_. bind (brelse x) (\<lambda>_. brelse y)))) Q s1"
    by (simp add: bcopy_def wp_bind_fun wp_gets s1)
qed (use room in auto)

lemma write_step_wp:
  assumes inv: "binv s {} {}" and ab: "a \<noteq> b" "a < FSSIZE" "b < FSSIZE"
    and room: "card (dblk s) < NBUF" "b \<in> dblk s \<or> card (dblk s) + 1 < NBUF"
    and post: "\<And>s'. wrote s [(a, bview s b)] s' \<Longrightarrow> Q () s'"
  shows "wp (bind (bread ROOTDEV a) (\<lambda>x. bind (bread ROOTDEV b) (\<lambda>y. bind (bcopy x y) (\<lambda>_. bind (bwrite x) (\<lambda>_.
    bind (brelse y) (\<lambda>_. brelse x)))))) Q s"
proof (rule bread2_wp [OF inv ab])
  fix x y s1
  assume s1: "same s s1" "binv s1 {x, y} {}" "x \<noteq> y" "blockno (bufs s1 x) = a" "blockno (bufs s1 y) = b"
    "bdata (bufs s1 x) = bview s a" "bdata (bufs s1 y) = bview s b"
  have "wp (bind (upd_buf x (\<lambda>k. k\<lparr>bdata := bview s b\<rparr>)) (\<lambda>_. bwrite x)) (\<lambda>_. wp (bind (brelse y) (\<lambda>_. brelse x)) Q) s1"
  proof (rule store_write_wp [OF s1(2) _ s1(4) ab(2)])
    fix s2
    assume w: "written s1 a (bview s b) s2" and b2: "binv s2 {x, y} {}"
    show "wp (bind (brelse y) (\<lambda>_. brelse x)) Q s2"
      by (rule brelse2_wp)
         (use w b2 s1(1,3) in \<open>auto simp: insert_commute intro!: post wrote_written intro: written_same\<close>)
  qed (simp_all add: length_bview [OF inv])
  then show "wp (bind (bcopy x y) (\<lambda>_. bind (bwrite x) (\<lambda>_. bind (brelse y) (\<lambda>_. brelse x)))) Q s1"
    by (simp add: bcopy_def wp_bind_fun wp_gets s1)
qed (use room in auto)

section \<open>The layout of the log\<close>

definition region :: "log \<Rightarrow> u32 \<Rightarrow> bool" where
  "region l b \<longleftrightarrow> unat (start l) \<le> unat b \<and> unat b < unat (start l) + unat (lsize l)"

definition logblk :: "log \<Rightarrow> nat \<Rightarrow> u32" where
  "logblk l t = start l + of_nat t + 1"

definition lblks :: "log \<Rightarrow> u32 list" where
  "lblks l = take (nat (lh_n l)) (lh_block l)"

definition lh_ok :: "log \<Rightarrow> bool" where
  "lh_ok l \<longleftrightarrow> unat (start l) + unat (lsize l) \<le> unat FSSIZE \<and> ldev l = ROOTDEV \<and>
     0 \<le> lh_n l \<and> lh_n l \<le> LOGSIZE \<and> nat (lh_n l) < unat (lsize l) \<and> length (lh_block l) = nat LOGSIZE \<and>
     distinct (lblks l) \<and> (\<forall>b\<in>set (lblks l). \<not> region l b \<and> b < FSSIZE)"

lemma LOGSIZE_30: "LOGSIZE = 30"
  by (simp add: LOGSIZE_def MAXOPBLOCKS_def)

lemma nth_lblks: "lh_ok l \<Longrightarrow> t < nat (lh_n l) \<Longrightarrow> lblks l ! t = lh_block l ! t \<and> lh_block l ! t \<in> set (lblks l)"
  using nth_mem [of t "lblks l"] by (auto simp: lblks_def lh_ok_def LOGSIZE_30)

lemma length_lblks: "lh_ok l \<Longrightarrow> length (lblks l) = nat (lh_n l)"
  by (auto simp: lblks_def lh_ok_def LOGSIZE_30 min_def)

lemma set_lblks:
  assumes "lh_ok l"
  shows "set (lblks l) = (\<lambda>t. lh_block l ! t) ` {0..<nat (lh_n l)}"
proof -
  have "lblks l = map (\<lambda>t. lh_block l ! t) [0..<nat (lh_n l)]"
    by (rule nth_equalityI) (use length_lblks [OF assms] nth_lblks [OF assms] in auto)
  then show ?thesis by simp
qed

lemma lh_block_inj: "lh_ok l \<Longrightarrow> t < nat (lh_n l) \<Longrightarrow> u < nat (lh_n l) \<Longrightarrow> lh_block l ! t = lh_block l ! u \<longleftrightarrow> t = u"
  using nth_eq_iff_index_eq [of "lblks l" t u] nth_lblks [of l t] nth_lblks [of l u] length_lblks [of l]
  by (auto simp: lh_ok_def)

lemma unat_logblk:
  assumes "lh_ok l" and "t < nat (lh_n l)"
  shows "unat (logblk l t) = unat (start l) + t + 1"
proof -
  have b: "unat (start l) + t + 1 < 2 ^ 32"
    using assms by (simp add: lh_ok_def FSSIZE_def)
  have e: "logblk l t = of_nat (unat (start l) + t + 1)" by (simp add: logblk_def)
  show ?thesis
    unfolding e unat_of_nat by (rule mod_less) (use b in simp)
qed

lemma logblk_facts:
  assumes "lh_ok l" and "t < nat (lh_n l)"
  shows "region l (logblk l t)" and "logblk l t < FSSIZE" and "logblk l t \<noteq> start l"
    and "lh_block l ! t < FSSIZE" and "\<not> region l (lh_block l ! t)"
proof -
  have u: "unat (logblk l t) = unat (start l) + t + 1" and o: "t + 1 < unat (lsize l)" "unat (start l) + unat (lsize l) \<le> unat FSSIZE"
    using unat_logblk [OF assms] assms by (simp_all add: lh_ok_def)
  show "region l (logblk l t)" "logblk l t < FSSIZE" "logblk l t \<noteq> start l"
    using u o by (auto simp: region_def word_less_nat_alt)
  show "lh_block l ! t < FSSIZE" "\<not> region l (lh_block l ! t)"
    using nth_lblks [OF assms] assms(1) by (auto simp: lh_ok_def)
qed

lemma logblk_inj: "lh_ok l \<Longrightarrow> t < nat (lh_n l) \<Longrightarrow> u < nat (lh_n l) \<Longrightarrow> logblk l t = logblk l u \<longleftrightarrow> t = u"
  using unat_logblk [of l t] unat_logblk [of l u] by (metis add_right_cancel add_left_cancel)

lemma logblk_not_home: "lh_ok l \<Longrightarrow> t < nat (lh_n l) \<Longrightarrow> u < nat (lh_n l) \<Longrightarrow> logblk l t \<noteq> lh_block l ! u"
  using logblk_facts(1) [of l t] logblk_facts(5) [of l u] by auto

lemma start_region: "lh_ok l \<Longrightarrow> region l (start l)" and start_FSSIZE: "lh_ok l \<Longrightarrow> start l < FSSIZE"
  by (auto simp: lh_ok_def region_def word_less_nat_alt)

section \<open>The disk writes of the log operations\<close>

definition inst_writes :: "log \<Rightarrow> (u32 \<Rightarrow> u8 list) \<Rightarrow> (u32 \<times> u8 list) list" where
  "inst_writes l V = map (\<lambda>t. (lh_block l ! t, V (logblk l t))) [0..<nat (lh_n l)]"

definition log_writes :: "log \<Rightarrow> (u32 \<Rightarrow> u8 list) \<Rightarrow> (u32 \<times> u8 list) list" where
  "log_writes l V = map (\<lambda>t. (logblk l t, V (lh_block l ! t))) [0..<nat (lh_n l)]"

lemma fst_inst: "lh_ok l \<Longrightarrow> fst ` set (inst_writes l V) = set (lblks l)"
  by (simp add: inst_writes_def set_lblks image_image)

lemma fst_log: "lh_ok l \<Longrightarrow> n \<in> fst ` set (log_writes l V) \<Longrightarrow> region l n \<and> n \<noteq> start l"
  using logblk_facts [of l] by (auto simp: log_writes_def)

lemma install_trans_wp:
  assumes inv: "binv s {} {}" and ok: "lh_ok (lg s)" and room: "card (dblk s) < NBUF" "dblk s = {} \<or> set (lblks (lg s)) \<subseteq> dblk s"
    and post: "\<And>s'. wrote s (inst_writes (lg s) (bview s)) s' \<Longrightarrow> Q () s'"
  shows "wp install_trans Q s"
proof -
  let ?l = "lg s"
  define W where "W k = map (\<lambda>t. (lh_block ?l ! t, bview s (logblk ?l t))) [0..<k]" for k
  have "wp (forM [0..<nat (lh_n ?l)] (\<lambda>tail. bind (gets lg) (\<lambda>l. bind (bread (ldev l) (start l + of_nat tail + 1)) (\<lambda>lbuf.
     bind (bread (ldev l) (lh_block l ! tail)) (\<lambda>dbuf. bind (bcopy dbuf lbuf) (\<lambda>_. bind (bwrite dbuf) (\<lambda>_.
     bind (brelse lbuf) (\<lambda>_. brelse dbuf)))))))) Q s"
  proof (rule wp_for_upt [where I = "\<lambda>k. wrote s (W k)"])
    show "wrote s (W 0) s" using inv by (simp add: W_def wrote_refl)
  next
    fix t s1
    assume t: "t < nat (lh_n ?l)" and w: "wrote s (W t) s1"
    note lb = logblk_facts [OF ok t] and w' = w [unfolded wrote_def]
    have l: "lg s1 = ?l" by (rule wrote_lg [OF w])
    have d: "dblk s1 = dblk s - (\<lambda>u. lh_block ?l ! u) ` {0..<t}" using w' by (simp add: W_def image_image)
    have "logblk ?l t \<notin> fst ` set (W t)"
      using t logblk_not_home [OF ok t] by (auto simp: W_def image_image) (metis order_less_trans)
    then have v: "bview s1 (logblk ?l t) = bview s (logblk ?l t)"
      using w' by (simp add: put_other)
    have fin: "finite (dblk s)" by (simp add: dblk_def didx_def)
    have c: "card (dblk s1) < NBUF"
      using card_mono [OF fin, of "dblk s1"] d room(1) by auto
    have r: "lh_block ?l ! t \<in> dblk s1 \<or> card (dblk s1) + 1 < NBUF"
    proof (cases "dblk s = {}")
      case True
      then show ?thesis using d by (simp add: NBUF_def)
    next
      case False
      then have "lh_block ?l ! t \<in> dblk s" using room(2) nth_lblks [OF ok t] by auto
      moreover have "lh_block ?l ! t \<noteq> lh_block ?l ! u" if "u < t" for u
        using that lh_block_inj [OF ok t, of u] t by simp
      then have "lh_block ?l ! t \<notin> (\<lambda>u. lh_block ?l ! u) ` {0..<t}" by (metis atLeastLessThan_iff imageE)
      ultimately show ?thesis unfolding d by blast
    qed
    have "wp (bind (bread ROOTDEV (logblk ?l t)) (\<lambda>x. bind (bread ROOTDEV (lh_block ?l ! t)) (\<lambda>y. bind (bcopy y x) (\<lambda>_. bind (bwrite y) (\<lambda>_.
      bind (brelse x) (\<lambda>_. brelse y)))))) (\<lambda>_. wrote s (W (Suc t))) s1"
      by (rule install_step_wp) (use w' lb c r v in \<open>auto simp: W_def dest: wrote_trans [OF w]\<close>)
    then show "wp (bind (gets lg) (\<lambda>l. bind (bread (ldev l) (start l + of_nat t + 1)) (\<lambda>lbuf.
     bind (bread (ldev l) (lh_block l ! t)) (\<lambda>dbuf. bind (bcopy dbuf lbuf) (\<lambda>_. bind (bwrite dbuf) (\<lambda>_.
     bind (brelse lbuf) (\<lambda>_. brelse dbuf))))))) (\<lambda>_. wrote s (W (Suc t))) s1"
      using ok by (simp add: wp_bind_fun wp_gets l logblk_def lh_ok_def)
  next
    show "wrote s (W (nat (lh_n ?l))) s1 \<Longrightarrow> Q () s1" for s1
      by (rule post) (simp add: W_def inst_writes_def)
  qed
  then show ?thesis by (simp add: install_trans_def wp_bind_fun wp_gets)
qed

lemma write_log_wp:
  assumes inv: "binv s {} {}" and ok: "lh_ok (lg s)" and room: "card (dblk s) < NBUF" "set (lblks (lg s)) \<subseteq> dblk s"
    and nr: "\<And>b. b \<in> dblk s \<Longrightarrow> \<not> region (lg s) b"
    and post: "\<And>s'. wrote s (log_writes (lg s) (bview s)) s' \<Longrightarrow> dblk s' = dblk s \<Longrightarrow> Q () s'"
  shows "wp write_log Q s"
proof -
  let ?l = "lg s"
  define W where "W k = map (\<lambda>t. (logblk ?l t, bview s (lh_block ?l ! t))) [0..<k]" for k
  let ?I = "\<lambda>k s1. wrote s (W k) s1 \<and> dblk s1 = dblk s"
  have "wp (forM [0..<nat (lh_n ?l)] (\<lambda>tail. bind (gets lg) (\<lambda>l. bind (bread (ldev l) (start l + of_nat tail + 1)) (\<lambda>to.
     bind (bread (ldev l) (lh_block l ! tail)) (\<lambda>from. bind (bcopy to from) (\<lambda>_. bind (bwrite to) (\<lambda>_.
     bind (brelse from) (\<lambda>_. brelse to)))))))) Q s"
  proof (rule wp_for_upt [where I = ?I])
    show "?I 0 s" using inv by (simp add: W_def wrote_refl)
  next
    fix t s1
    assume t: "t < nat (lh_n ?l)" and "?I t s1"
    then have w: "wrote s (W t) s1" and d: "dblk s1 = dblk s" by auto
    note lb = logblk_facts [OF ok t] and w' = w [unfolded wrote_def]
    have l: "lg s1 = ?l" by (rule wrote_lg [OF w])
    have "lh_block ?l ! t \<notin> fst ` set (W t)"
      using t logblk_not_home [OF ok _ t] by (auto simp: W_def image_image) (metis order_less_trans)
    then have v: "bview s1 (lh_block ?l ! t) = bview s (lh_block ?l ! t)"
      using w' by (simp add: put_other)
    have k: "dblk s2 = dblk s" if "wrote s1 [(logblk ?l t, x)] s2" for s2 x
      using that d nr lb(1) by (auto simp: wrote_def)
    have "wp (bind (bread ROOTDEV (logblk ?l t)) (\<lambda>x. bind (bread ROOTDEV (lh_block ?l ! t)) (\<lambda>y. bind (bcopy x y) (\<lambda>_. bind (bwrite x) (\<lambda>_.
      bind (brelse y) (\<lambda>_. brelse x)))))) (\<lambda>_. ?I (Suc t)) s1"
      by (rule write_step_wp) (use w' lb room d nth_lblks [OF ok t] v k in \<open>auto simp: W_def dest: wrote_trans [OF w]\<close>)
    then show "wp (bind (gets lg) (\<lambda>l. bind (bread (ldev l) (start l + of_nat t + 1)) (\<lambda>to.
     bind (bread (ldev l) (lh_block l ! t)) (\<lambda>from. bind (bcopy to from) (\<lambda>_. bind (bwrite to) (\<lambda>_.
     bind (brelse from) (\<lambda>_. brelse to))))))) (\<lambda>_. ?I (Suc t)) s1"
      using ok by (simp add: wp_bind_fun wp_gets l logblk_def lh_ok_def)
  next
    show "?I (nat (lh_n ?l)) s1 \<Longrightarrow> Q () s1" for s1
      by (rule post) (simp_all add: W_def log_writes_def)
  qed
  then show ?thesis by (simp add: write_log_def wp_bind_fun wp_gets)
qed

section \<open>The header\<close>

lemma head_bytes:
  assumes "length d = BSIZE" and "0 \<le> n" and "n \<le> LOGSIZE"
  shows "length (head_bytes n bl d) = BSIZE" and "rd32 (head_bytes n bl d) 0 = word_of_int n"
    and "i < nat n \<Longrightarrow> rd32 (head_bytes n bl d) (4 + 4 * i) = bl ! i"
proof -
  have b: "4 + 4 * nat n \<le> length (wr32 d 0 (word_of_int n))"
    using assms by (simp add: LOGSIZE_30 BSIZE_def)
  note st = words.store_all [where f = "\<lambda>i. bl ! i", OF _ b, folded head_bytes_def]
  show "length (head_bytes n bl d) = BSIZE" using st(1) assms by (simp add: BSIZE_def)
  show "i < nat n \<Longrightarrow> rd32 (head_bytes n bl d) (4 + 4 * i) = bl ! i" using st(2) by simp
  have "rd32 (head_bytes n bl d) 0 = rd32 (wr32 d 0 (word_of_int n)) 0"
    by (rule rd32_cong) (use st(3) assms(1) in \<open>simp add: BSIZE_def\<close>)
  then show "rd32 (head_bytes n bl d) 0 = word_of_int n"
    using assms(1) by (simp add: rd32_wr32 BSIZE_def)
qed

lemma write_head_wp:
  assumes inv: "binv s {} {}" and l: "ldev (lg s) = ROOTDEV" "start (lg s) < FSSIZE" "0 \<le> lh_n (lg s)" "lh_n (lg s) \<le> LOGSIZE"
    and room: "card (dblk s) < NBUF"
    and post: "\<And>s'. wrote s [(start (lg s), head_bytes (lh_n (lg s)) (lh_block (lg s)) (bview s (start (lg s))))] s' \<Longrightarrow> Q () s'"
  shows "wp write_head Q s"
proof -
  let ?l = "lg s"
  let ?f = "\<lambda>k. head_bytes (lh_n ?l) (lh_block ?l) (bdata k)"
  have "wp (bind (bread ROOTDEV (start ?l)) (\<lambda>b. bind (upd_buf b (\<lambda>k. k\<lparr>bdata := ?f k\<rparr>)) (\<lambda>_. bind (bwrite b) (\<lambda>_. brelse b)))) Q s"
  proof (subst wp_bind, rule bread_wp [OF inv _ broom_dblk [OF inv] l(2)])
    fix b s1
    assume p: "bread_post s {} {} (start ?l) b s1"
    then have b1: "binv s1 {b} {}" "blockno (bufs s1 b) = start ?l" "bdata (bufs s1 b) = bview s (start ?l)"
      by (auto simp: bread_post_def bhit_def)
    have "wp (bind (upd_buf b (\<lambda>k. k\<lparr>bdata := ?f k\<rparr>)) (\<lambda>_. bwrite b)) (\<lambda>_. wp (brelse b) Q) s1"
    proof (rule store_write_wp [OF b1(1) _ b1(2) l(2)])
      fix s2
      assume w: "written s1 (start ?l) (?f (bufs s1 b)) s2" and b2: "binv s2 {b} {}"
      show "wp (brelse b) Q s2"
      proof (rule brelse_wp [OF b2])
        show "Q () s3" if "brelse_post s2 {b} {} b s3" for s3
          using that same_brelse [OF that] w b1(3) same_bread [OF p]
          by (intro post wrote_written) (auto simp: brelse_post_def intro: written_same)
      qed simp_all
    qed (use head_bytes(1) l length_bview [OF inv] b1 in auto)
    then show "wp (bind (upd_buf b (\<lambda>k. k\<lparr>bdata := ?f k\<rparr>)) (\<lambda>_. bind (bwrite b) (\<lambda>_. brelse b))) Q s1"
      by (simp add: wp_bind_fun)
  qed (use room in auto)
  then show ?thesis by (simp add: write_head_def wp_bind_fun wp_gets l)
qed

text \<open>The in-memory log is not part of the cache.\<close>

lemma upd_lg [simp]:
  "binv (s\<lparr>lg := l\<rparr>) H M = binv s H M" "bview (s\<lparr>lg := l\<rparr>) = bview s" "dblk (s\<lparr>lg := l\<rparr>) = dblk s" "didx (s\<lparr>lg := l\<rparr>) = didx s"
  by (auto simp: binv_def bsys_def ide_ready_def buf_ok_def bview_def dblk_def didx_def intro!: ext split: option.splits)

lemma bfr_upd_lg: "bfr s s' \<Longrightarrow> bfr (s\<lparr>lg := l\<rparr>) (s'\<lparr>lg := l\<rparr>)"
  by (cases s, cases s') (simp add: bfr_iff)

lemma same_upd_lg: "same s s' \<Longrightarrow> same (s\<lparr>lg := l\<rparr>) (s'\<lparr>lg := l\<rparr>)"
  by (simp add: same_def bfr_upd_lg)

lemma wrote_upd_lg: "wrote s W s' \<Longrightarrow> wrote (s\<lparr>lg := l\<rparr>) W (s'\<lparr>lg := l\<rparr>)"
  by (simp add: wrote_def bfr_upd_lg)

lemma wp_upd_log: "wp (upd_log f) Q s = Q () (s\<lparr>lg := f (lg s)\<rparr>)"
  by (simp add: upd_log_def wp_modify)

text \<open>The header found on the disk contents \<open>D\<close>.\<close>

definition head_log :: "log \<Rightarrow> (u32 \<Rightarrow> u8 list) \<Rightarrow> log" where
  "head_log l D = (let d = D (start l); n = sint (rd32 d 0) in
     l\<lparr>lh_n := n, lh_block := map (\<lambda>i. rd32 d (4 + 4 * i)) [0..<nat n] @ drop (nat n) (lh_block l)\<rparr>)"

lemma read_head_wp:
  assumes inv: "binv s {} {}" and l: "ldev (lg s) = ROOTDEV" "start (lg s) < FSSIZE" "length (lh_block (lg s)) = nat LOGSIZE"
    and n: "sint (rd32 (bview s (start (lg s))) 0) \<le> LOGSIZE" and room: "card (dblk s) < NBUF"
    and post: "\<And>s'. same (s\<lparr>lg := head_log (lg s) (bview s)\<rparr>) s' \<Longrightarrow> binv s' {} {} \<Longrightarrow> Q () s'"
  shows "wp read_head Q s"
proof -
  let ?l = "lg s"
  let ?d = "bview s (start ?l)"
  let ?n = "sint (rd32 ?d 0)"
  have "wp (bind (bread ROOTDEV (start ?l)) (\<lambda>b. bind (gets (\<lambda>s. bdata (bufs s b))) (\<lambda>d.
     bind (upd_log (\<lambda>l. l\<lparr>lh_n := sint (rd32 d 0)\<rparr>)) (\<lambda>_.
     bind (forM [0..<nat (sint (rd32 d 0))] (\<lambda>i. if int i \<ge> LOGSIZE then fault ''log.lh.block'' else
       upd_log (\<lambda>l. l\<lparr>lh_block := (lh_block l)[i := rd32 d (4 + 4 * i)]\<rparr>))) (\<lambda>_. brelse b))))) Q s"
  proof (subst wp_bind, rule bread_wp [OF inv _ broom_dblk [OF inv] l(2)])
    fix b s1
    assume p: "bread_post s {} {} (start ?l) b s1"
    then have b1: "binv s1 {b} {}" "bdata (bufs s1 b) = ?d" by (auto simp: bread_post_def)
    have l1: "lg s1 = ?l" by (rule same_lg [OF same_bread [OF p]])
    let ?L = "\<lambda>k. ?l\<lparr>lh_n := ?n, lh_block := map (\<lambda>i. rd32 ?d (4 + 4 * i)) [0..<k] @ drop k (lh_block ?l)\<rparr>"
    have "wp (forM [0..<nat ?n] (\<lambda>i. if int i \<ge> LOGSIZE then fault ''log.lh.block'' else
       upd_log (\<lambda>l. l\<lparr>lh_block := (lh_block l)[i := rd32 ?d (4 + 4 * i)]\<rparr>))) (\<lambda>_. wp (brelse b) Q) (s1\<lparr>lg := ?L 0\<rparr>)"
    proof (rule wp_for_upt [where I = "\<lambda>k s2. s2 = s1\<lparr>lg := ?L k\<rparr>"])
      fix t s2
      assume t: "t < nat ?n" and s2: "s2 = s1\<lparr>lg := ?L t\<rparr>"
      have "t < length (lh_block ?l)" using t n l(3) by simp
      then have "(map (\<lambda>i. rd32 ?d (4 + 4 * i)) [0..<t] @ drop t (lh_block ?l))[t := rd32 ?d (4 + 4 * t)] =
        map (\<lambda>i. rd32 ?d (4 + 4 * i)) [0..<Suc t] @ drop (Suc t) (lh_block ?l)"
        by (simp add: list_update_append Cons_nth_drop_Suc [symmetric])
      then show "wp (if int t \<ge> LOGSIZE then fault ''log.lh.block'' else
       upd_log (\<lambda>l. l\<lparr>lh_block := (lh_block l)[t := rd32 ?d (4 + 4 * t)]\<rparr>)) (\<lambda>_ s2. s2 = s1\<lparr>lg := ?L (Suc t)\<rparr>) s2"
        using t n by (simp add: wp_simps wp_upd_log s2)
    next
      fix s2
      assume s2: "s2 = s1\<lparr>lg := ?L (nat ?n)\<rparr>"
      have b2: "binv s2 {b} {}" using b1 s2 by simp
      show "wp (brelse b) Q s2"
      proof (rule brelse_wp [OF b2])
        fix s3
        assume q: "brelse_post s2 {b} {} b s3"
        have "same (s\<lparr>lg := head_log ?l (bview s)\<rparr>) s2"
          using same_upd_lg [OF same_bread [OF p]] by (simp add: s2 head_log_def Let_def)
        then show "Q () s3" using q same_brelse [OF q] by (intro post) (auto simp: brelse_post_def intro: same_trans)
      qed simp_all
    qed simp
    then show "wp (bind (gets (\<lambda>s. bdata (bufs s b))) (\<lambda>d. bind (upd_log (\<lambda>l. l\<lparr>lh_n := sint (rd32 d 0)\<rparr>)) (\<lambda>_.
     bind (forM [0..<nat (sint (rd32 d 0))] (\<lambda>i. if int i \<ge> LOGSIZE then fault ''log.lh.block'' else
       upd_log (\<lambda>l. l\<lparr>lh_block := (lh_block l)[i := rd32 d (4 + 4 * i)]\<rparr>))) (\<lambda>_. brelse b)))) Q s1"
      by (cases ?l) (simp add: wp_bind_fun wp_gets wp_upd_log b1 l1 cong: if_cong)
  qed (use room in auto)
  then show ?thesis by (simp add: read_head_def wp_bind_fun wp_gets l)
qed

section \<open>Commit and recovery\<close>

definition commit_writes :: "log \<Rightarrow> (u32 \<Rightarrow> u8 list) \<Rightarrow> (u32 \<times> u8 list) list" where
  "commit_writes l V = (let h = head_bytes (lh_n l) (lh_block l) (V (start l)) in
     log_writes l V @ [(start l, h)] @ map (\<lambda>t. (lh_block l ! t, V (lh_block l ! t))) [0..<nat (lh_n l)] @
     [(start l, head_bytes 0 (lh_block l) h)])"

definition recover_writes :: "log \<Rightarrow> (u32 \<Rightarrow> u8 list) \<Rightarrow> (u32 \<times> u8 list) list" where
  "recover_writes l D = (let l' = head_log l D in inst_writes l' D @ [(start l, head_bytes 0 (lh_block l') (D (start l)))])"

lemma put_log_writes:
  assumes "lh_ok l"
  shows "t < nat (lh_n l) \<Longrightarrow> put (log_writes l V) V (logblk l t) = V (lh_block l ! t)"
    and "\<not> region l b \<or> b = start l \<Longrightarrow> put (log_writes l V) V b = V b"
proof -
  have "distinct (map (logblk l) [0..<nat (lh_n l)])"
    using logblk_inj [OF assms] by (auto simp: distinct_map inj_on_def)
  then show "put (log_writes l V) V (logblk l t) = V (lh_block l ! t)" if "t < nat (lh_n l)"
    using put_map [of "logblk l" "[0..<nat (lh_n l)]" t "\<lambda>t. V (lh_block l ! t)" V] that by (simp add: log_writes_def)
  show "put (log_writes l V) V b = V b" if "\<not> region l b \<or> b = start l"
    using fst_log [OF assms, of b V] that by (intro put_other) auto
qed

lemma lh_ok_clear: "lh_ok l \<Longrightarrow> lh_ok (l\<lparr>lh_n := 0\<rparr>)"
  by (auto simp: lh_ok_def lblks_def LOGSIZE_30)

lemma commit_wp:
  assumes inv: "binv s {} {}" and ok: "lh_ok (lg s)" and n: "0 < lh_n (lg s)" "nat (lh_n (lg s)) < NBUF"
    and d: "dblk s = set (lblks (lg s))"
    and post: "\<And>s'. wrote (s\<lparr>lg := (lg s)\<lparr>lh_n := 0\<rparr>\<rparr>) (commit_writes (lg s) (bview s)) s' \<Longrightarrow> dblk s' = {} \<Longrightarrow> Q () s'"
  shows "wp commit Q s"
proof -
  let ?l = "lg s" and ?V = "bview s"
  let ?h = "head_bytes (lh_n ?l) (lh_block ?l) (?V (start ?l))"
  have lf: "ldev ?l = ROOTDEV" "start ?l < FSSIZE" "0 \<le> lh_n ?l" "lh_n ?l \<le> LOGSIZE"
    using ok start_FSSIZE by (auto simp: lh_ok_def)
  have c: "card (dblk s) < NBUF"
    using card_length [of "lblks ?l"] length_lblks [OF ok] n d by simp
  have nr: "\<not> region ?l b" if "b \<in> dblk s" for b using that d ok by (simp add: lh_ok_def)
  have 1: "wp write_log (\<lambda>_. wp write_head (\<lambda>_. wp install_trans (\<lambda>_. wp (bind (upd_log (\<lambda>l. l\<lparr>lh_n := 0\<rparr>)) (\<lambda>_. write_head)) Q))) s"
  proof (rule write_log_wp [OF inv ok c])
    fix s1
    assume w1: "wrote s (log_writes ?l ?V) s1" and d1: "dblk s1 = dblk s"
    have l1: "lg s1 = ?l" by (rule wrote_lg [OF w1])
    have v1: "bview s1 = put (log_writes ?l ?V) ?V" and b1: "binv s1 {} {}" using w1 by (simp_all add: wrote_def)
    have vs: "bview s1 (start ?l) = ?V (start ?l)" using put_log_writes(2) [OF ok] v1 by simp
    show "wp write_head (\<lambda>_. wp install_trans (\<lambda>_. wp (bind (upd_log (\<lambda>l. l\<lparr>lh_n := 0\<rparr>)) (\<lambda>_. write_head)) Q)) s1"
    proof (rule write_head_wp [OF b1, unfolded l1 vs, OF lf])
      fix s2
      assume w2: "wrote s1 [(start ?l, ?h)] s2"
      have l2: "lg s2 = ?l" using wrote_lg [OF w2] l1 by simp
      have b2: "binv s2 {} {}" and v2: "bview s2 = (bview s1)(start ?l := ?h)" and d2: "dblk s2 = dblk s"
        using w2 d1 nr start_region [OF ok] by (auto simp: wrote_def put_Cons)
      have iw: "inst_writes ?l (bview s2) = map (\<lambda>t. (lh_block ?l ! t, ?V (lh_block ?l ! t))) [0..<nat (lh_n ?l)]"
        unfolding inst_writes_def v2 v1 using put_log_writes(1) [OF ok] logblk_facts(3) [OF ok] by simp
      show "wp install_trans (\<lambda>_. wp (bind (upd_log (\<lambda>l. l\<lparr>lh_n := 0\<rparr>)) (\<lambda>_. write_head)) Q) s2"
      proof (rule install_trans_wp [OF b2, unfolded l2, OF ok])
        fix s3
        assume w3: "wrote s2 (inst_writes ?l (bview s2)) s3"
        let ?t = "s3\<lparr>lg := ?l\<lparr>lh_n := 0\<rparr>\<rparr>"
        have l3: "lg s3 = ?l" using wrote_lg [OF w3] l2 by simp
        have b3: "binv ?t {} {}" and d3: "dblk ?t = {}"
          using w3 d2 d fst_inst [OF ok] by (auto simp: wrote_def)
        have v3: "bview ?t (start ?l) = ?h"
          using w3 fst_inst [OF ok, of "bview s2"] start_region [OF ok] ok v2 by (auto simp: wrote_def put_other lh_ok_def)
        have "wp write_head Q ?t"
        proof (rule write_head_wp [OF b3])
          fix s4
          assume w4: "wrote ?t [(start (lg ?t), head_bytes (lh_n (lg ?t)) (lh_block (lg ?t)) (bview ?t (start (lg ?t))))] s4"
          have "wrote s (log_writes ?l ?V @ [(start ?l, ?h)] @ inst_writes ?l (bview s2)) s3"
            using wrote_trans [OF w1 wrote_trans [OF w2 w3]] by simp
          from wrote_trans [OF wrote_upd_lg [OF this, of "?l\<lparr>lh_n := 0\<rparr>"] w4]
          have "wrote (s\<lparr>lg := ?l\<lparr>lh_n := 0\<rparr>\<rparr>) (commit_writes ?l ?V) s4"
            using v3 by (simp add: commit_writes_def Let_def iw)
          moreover have "dblk s4 = {}" using w4 d3 by (simp add: wrote_def)
          ultimately show "Q () s4" by (rule post)
        qed (use lf d3 in \<open>simp_all add: NBUF_def LOGSIZE_30\<close>)
        then show "wp (bind (upd_log (\<lambda>l. l\<lparr>lh_n := 0\<rparr>)) (\<lambda>_. write_head)) Q s3"
          by (simp add: wp_bind wp_upd_log l3)
      qed (use c d2 d in auto)
    qed (use c d1 in simp)
  qed (use d nr in auto)
  then show ?thesis
    using n by (simp add: commit_def wp_bind_fun wp_gets wp_whenM wp_upd_log)
qed

lemma recover_wp:
  assumes inv: "binv s {} {}" and d: "dblk s = {}" and ok: "lh_ok (head_log (lg s) (bview s))" and len: "length (lh_block (lg s)) = nat LOGSIZE"
    and post: "\<And>s'. wrote (s\<lparr>lg := (head_log (lg s) (bview s))\<lparr>lh_n := 0\<rparr>\<rparr>) (recover_writes (lg s) (bview s)) s' \<Longrightarrow> dblk s' = {} \<Longrightarrow> Q () s'"
  shows "wp recover_from_log Q s"
proof -
  let ?l = "head_log (lg s) (bview s)"
  have st: "start ?l = start (lg s)" "ldev ?l = ldev (lg s)" by (simp_all add: head_log_def Let_def)
  have lf: "ldev (lg s) = ROOTDEV" "start (lg s) < FSSIZE" "sint (rd32 (bview s (start (lg s))) 0) \<le> LOGSIZE"
    using ok start_FSSIZE [OF ok] st by (auto simp: lh_ok_def head_log_def Let_def)
  have "wp read_head (\<lambda>_. wp install_trans (\<lambda>_. wp (bind (upd_log (\<lambda>l. l\<lparr>lh_n := 0\<rparr>)) (\<lambda>_. write_head)) Q)) s"
  proof (rule read_head_wp [OF inv lf(1,2) len lf(3)])
    fix s1
    assume w1: "same (s\<lparr>lg := ?l\<rparr>) s1" and b1: "binv s1 {} {}"
    have l1: "lg s1 = ?l" using same_lg [OF w1] by simp
    have v1: "bview s1 = bview s" and d1: "dblk s1 = {}" using w1 d by (simp_all add: same_def)
    show "wp install_trans (\<lambda>_. wp (bind (upd_log (\<lambda>l. l\<lparr>lh_n := 0\<rparr>)) (\<lambda>_. write_head)) Q) s1"
    proof (rule install_trans_wp [OF b1])
      fix s2
      assume w2: "wrote s1 (inst_writes (lg s1) (bview s1)) s2"
      let ?t = "s2\<lparr>lg := ?l\<lparr>lh_n := 0\<rparr>\<rparr>"
      have l2: "lg s2 = ?l" using wrote_lg [OF w2] l1 by simp
      have b2: "binv ?t {} {}" and d2: "dblk ?t = {}" using w2 d1 by (auto simp: wrote_def)
      have v2: "bview ?t (start ?l) = bview s (start ?l)"
        using w2 fst_inst [OF ok, of "bview s"] start_region [OF ok] ok v1 l1 by (auto simp: wrote_def put_other lh_ok_def)
      have w12: "wrote (s\<lparr>lg := ?l\<rparr>) (inst_writes ?l (bview s)) s2"
        using w2 w1 v1 l1 by (auto simp: wrote_def same_def intro: bfr_trans)
      have "wp write_head Q ?t"
      proof (rule write_head_wp [OF b2])
        fix s4
        assume w4: "wrote ?t [(start (lg ?t), head_bytes (lh_n (lg ?t)) (lh_block (lg ?t)) (bview ?t (start (lg ?t))))] s4"
        from wrote_trans [OF wrote_upd_lg [OF w12, of "?l\<lparr>lh_n := 0\<rparr>"] w4]
        have "wrote (s\<lparr>lg := ?l\<lparr>lh_n := 0\<rparr>\<rparr>) (recover_writes (lg s) (bview s)) s4"
          using v2 by (simp add: recover_writes_def Let_def st)
        moreover have "dblk s4 = {}" using w4 d2 by (simp add: wrote_def)
        ultimately show "Q () s4" by (rule post)
      qed (use lf d2 st in \<open>simp_all add: NBUF_def LOGSIZE_30\<close>)
      then show "wp (bind (upd_log (\<lambda>l. l\<lparr>lh_n := 0\<rparr>)) (\<lambda>_. write_head)) Q s2"
        by (simp add: wp_bind wp_upd_log l2)
    qed (use d1 l1 ok in \<open>simp_all add: NBUF_def\<close>)
  qed (use d in \<open>simp add: NBUF_def\<close>)
  then show ?thesis
    by (simp add: recover_from_log_def wp_bind_fun wp_upd_log)
qed

lemma readsb_wp:
  assumes inv: "binv s {} {}" and room: "card (dblk s) < NBUF"
    and post: "\<And>s'. same s s' \<Longrightarrow> binv s' {} {} \<Longrightarrow> Q (sb_of (bview s 1)) s'"
  shows "wp (readsb ROOTDEV) Q s"
  unfolding readsb_def
proof (subst wp_bind, rule bread_wp [OF inv _ broom_dblk [OF inv]])
  fix i s1
  assume p: "bread_post s {} {} 1 i s1"
  then have b1: "binv s1 {i} {}" "bdata (bufs s1 i) = bview s 1" by (auto simp: bread_post_def)
  have "wp (brelse i) (\<lambda>_. Q (sb_of (bview s 1))) s1"
  proof (rule brelse_wp [OF b1(1)])
    show "Q (sb_of (bview s 1)) s2" if "brelse_post s1 {i} {} i s2" for s2
      using that same_trans [OF same_bread [OF p] same_brelse [OF that]] by (intro post) (auto simp: brelse_post_def)
  qed simp_all
  then show "wp (bind (gets (\<lambda>s. sb_of (bdata (bufs s i)))) (\<lambda>sb. bind (brelse i) (\<lambda>_. ret sb))) Q s1"
    by (simp add: wp_bind wp_gets wp_ret b1)
qed (use room in \<open>auto simp: FSSIZE_def\<close>)

definition sb_log :: "superblock \<Rightarrow> log \<Rightarrow> log" where
  "sb_log sb l = l\<lparr>start := sb_logstart sb, lsize := sb_nlog sb, ldev := ROOTDEV\<rparr>"

lemma initlog_wp:
  assumes inv: "binv s {} {}" and d: "dblk s = {}" and l: "l = sb_log (sb_of (bview s 1)) (lg s)"
    and ok: "lh_ok (head_log l (bview s))" and len: "length (lh_block (lg s)) = nat LOGSIZE"
    and post: "\<And>s'. wrote (s\<lparr>lg := (head_log l (bview s))\<lparr>lh_n := 0\<rparr>\<rparr>) (recover_writes l (bview s)) s' \<Longrightarrow> dblk s' = {} \<Longrightarrow> Q () s'"
  shows "wp (initlog ROOTDEV) Q s"
proof -
  have "wp (readsb ROOTDEV) (\<lambda>sb s1. wp recover_from_log Q (s1\<lparr>lg := sb_log sb (lg s1)\<rparr>)) s"
  proof (rule readsb_wp [OF inv])
    fix s1
    assume sm: "same s s1" and b1: "binv s1 {} {}"
    have l1: "sb_log (sb_of (bview s 1)) (lg s1) = l" using same_lg [OF sm] l by simp
    have v: "bview s1 = bview s" "dblk s1 = {}" using sm d by (simp_all add: same_def)
    show "wp recover_from_log Q (s1\<lparr>lg := sb_log (sb_of (bview s 1)) (lg s1)\<rparr>)"
      unfolding l1
    proof (rule recover_wp)
      fix s'
      assume "wrote (s1\<lparr>lg := l, lg := (head_log (lg (s1\<lparr>lg := l\<rparr>)) (bview (s1\<lparr>lg := l\<rparr>)))\<lparr>lh_n := 0\<rparr>\<rparr>)
         (recover_writes (lg (s1\<lparr>lg := l\<rparr>)) (bview (s1\<lparr>lg := l\<rparr>))) s'" and e: "dblk s' = {}"
      then have w: "wrote (s1\<lparr>lg := (head_log l (bview s))\<lparr>lh_n := 0\<rparr>\<rparr>) (recover_writes l (bview s)) s'" by (simp add: v)
      have "wrote (s\<lparr>lg := (head_log l (bview s))\<lparr>lh_n := 0\<rparr>\<rparr>) (recover_writes l (bview s)) s'"
        using w same_upd_lg [OF sm, of "(head_log l (bview s))\<lparr>lh_n := 0\<rparr>"]
        by (auto simp: wrote_def same_def intro: bfr_trans)
      then show "Q () s'" using e by (rule post)
    qed (use b1 v ok len in \<open>simp_all add: l sb_log_def\<close>)
  qed (use d in \<open>simp add: NBUF_def\<close>)
  then show ?thesis
    using bsysD(3) [OF binvD(1) [OF inv], of LogLk]
    by (simp add: initlog_def LOGSIZE_30 BSIZE_def wp_bind initlock_free wp_upd_log sb_log_def)
qed

section \<open>Power failures\<close>

text \<open>What recovery makes of the disk contents \<open>D\<close>.\<close>

definition recovered :: "log \<Rightarrow> (u32 \<Rightarrow> u8 list) \<Rightarrow> u32 \<Rightarrow> u8 list" where
  "recovered l D = put (recover_writes l D) D"

definition hdr_ok :: "log \<Rightarrow> (u32 \<Rightarrow> u8 list) \<Rightarrow> bool" where
  "hdr_ok l D \<longleftrightarrow> lh_ok (head_log l D) \<and> length (lh_block l) = nat LOGSIZE \<and> length (D (start l)) = BSIZE"

lemma head_log_cong: "D (start l) = D' (start l) \<Longrightarrow> head_log l D = head_log l D'"
  by (simp add: head_log_def)

lemma head_log_sel [simp]:
  "start (head_log l D) = start l" "lsize (head_log l D) = lsize l" "ldev (head_log l D) = ldev l"
  "lh_n (head_log l D) = sint (rd32 (D (start l)) 0)" "region (head_log l D) = region l" "logblk (head_log l D) = logblk l"
  by (simp_all add: head_log_def Let_def region_def logblk_def fun_eq_iff)

lemma recovered_home:
  assumes "hdr_ok l D" and "\<not> region l b"
  shows "recovered l D b = put (inst_writes (head_log l D) D) D b"
proof -
  have "start l \<noteq> b" using assms start_region [of "head_log l D"] by (auto simp: hdr_ok_def)
  then show ?thesis by (simp add: recovered_def recover_writes_def Let_def put_append put_Cons)
qed

lemma put_inst_logged:
  assumes "lh_ok l" and "t < nat (lh_n l)"
  shows "put (inst_writes l D) D' (lh_block l ! t) = D (logblk l t)"
proof -
  have "distinct (map ((!) (lh_block l)) [0..<nat (lh_n l)])"
    using lh_block_inj [OF assms(1)] by (auto simp: distinct_map inj_on_def)
  then show ?thesis
    using put_map [of "(!) (lh_block l)" "[0..<nat (lh_n l)]" t "\<lambda>t. D (logblk l t)" D'] assms(2) by (simp add: inst_writes_def)
qed

text \<open>Recovery interrupted after any of its writes, and started again, ends with the same home blocks.\<close>

lemma recover_prefix:
  assumes ok: "hdr_ok l D" and k: "k \<le> length (recover_writes l D)"
  defines "D' \<equiv> put (take k (recover_writes l D)) D"
  shows "hdr_ok l D'" and "\<not> region l b \<Longrightarrow> recovered l D' b = recovered l D b"
    and "set (lblks (head_log l D')) \<subseteq> set (lblks (head_log l D))"
proof -
  let ?h = "head_log l D"
  let ?n = "nat (lh_n ?h)" and ?I = "inst_writes ?h D"
  have lok: "lh_ok ?h" and ln: "length (lh_block l) = nat LOGSIZE" "length (D (start l)) = BSIZE" using ok by (simp_all add: hdr_ok_def)
  have fi: "fst ` set ?I = set (lblks ?h)" by (rule fst_inst [OF lok])
  have si: "b \<notin> set (lblks ?h)" if "region l b" for b using that lok by (auto simp: lh_ok_def)
  have st: "region l (start l)" using start_region [OF lok] by simp
  have len: "length (recover_writes l D) = length ?I + 1" by (simp add: recover_writes_def Let_def)
  have rec: "recovered l D b = put ?I D b" if "\<not> region l b" for b by (rule recovered_home [OF ok that])
  have "hdr_ok l D' \<and> (\<forall>b. \<not> region l b \<longrightarrow> recovered l D' b = recovered l D b) \<and>
    set (lblks (head_log l D')) \<subseteq> set (lblks ?h)"
  proof (cases "k \<le> length ?I")
    case True
    then have D': "D' = put (take k ?I) D" by (simp add: D'_def recover_writes_def Let_def)
    have reg: "D' b = D b" if "region l b" for b
      unfolding D' by (rule put_other) (use si [OF that] fi set_take_subset [of k ?I] in blast)
    have h: "head_log l D' = ?h" by (rule head_log_cong) (rule reg [OF st])
    have ok': "hdr_ok l D'" using ok h reg [OF st] by (simp add: hdr_ok_def)
    have I: "inst_writes ?h D' = ?I"
      using reg logblk_facts(1) [OF lok] by (simp add: inst_writes_def)
    have "put ?I D' b = put ?I D b" if "\<not> region l b" for b
    proof (cases "b \<in> set (lblks ?h)")
      case True
      then obtain t where "t < ?n" "b = lh_block ?h ! t" using set_lblks [OF lok] by auto
      then show ?thesis using put_inst_logged [OF lok, of t] by simp
    next
      case False
      then have "b \<notin> fst ` set (take k ?I)" "b \<notin> fst ` set ?I" using fi set_take_subset [of k ?I] by blast+
      then show ?thesis by (simp add: put_other D')
    qed
    then have "recovered l D' b = recovered l D b" if "\<not> region l b" for b
      using recovered_home [OF ok' that] rec [OF that] that by (simp add: h I)
    with ok' h show ?thesis by simp
  next
    case False
    then have kk: "take k (recover_writes l D) = recover_writes l D" using k len by simp
    let ?c = "head_bytes 0 (lh_block ?h) (D (start l))"
    have D': "D' = (put ?I D)(start l := ?c)"
      unfolding D'_def kk by (simp add: recover_writes_def Let_def put_append put_Cons)
    note hb = head_bytes [OF ln(2), where n = 0 and bl = "lh_block ?h"]
    have h: "lh_n (head_log l D') = 0" and lb: "lh_block (head_log l D') = lh_block l"
      using hb(2) by (simp_all add: D' LOGSIZE_30 head_log_def Let_def)
    have ok': "hdr_ok l D'"
      using lok ln h lb hb(1) by (simp add: hdr_ok_def lh_ok_def lblks_def D' LOGSIZE_30)
    moreover have "recovered l D' b = recovered l D b" if "\<not> region l b" for b
      using recovered_home [OF ok' that] rec [OF that] h st that by (auto simp: inst_writes_def D')
    moreover have "lblks (head_log l D') = []" by (simp only: lblks_def h) simp
    ultimately show ?thesis by simp
  qed
  then show "hdr_ok l D'" and "\<not> region l b \<Longrightarrow> recovered l D' b = recovered l D b"
    and "set (lblks (head_log l D')) \<subseteq> set (lblks (head_log l D))" by blast+
qed

lemma recover_prefix_other:
  assumes "hdr_ok l D" and "\<not> region l b" and "b \<notin> set (lblks (head_log l D))"
  shows "put (take k (recover_writes l D)) D b = D b"
proof (rule put_other)
  have ok: "lh_ok (head_log l D)" using assms(1) by (simp add: hdr_ok_def)
  have "fst ` set (recover_writes l D) = insert (start l) (set (lblks (head_log l D)))"
    using fst_inst [OF ok] by (simp add: recover_writes_def Let_def)
  then have "b \<notin> fst ` set (recover_writes l D)"
    using assms(2,3) start_region [OF ok] by auto
  then show "b \<notin> fst ` set (take k (recover_writes l D))"
    using set_take_subset [of k "recover_writes l D"] by blast
qed

lemma recover_cong:
  assumes "start l' = start l" "lsize l' = lsize l" "ldev l' = ldev l" "length (lh_block l') = nat LOGSIZE" and ok: "hdr_ok l D"
  shows "hdr_ok l' D" and "recover_writes l' D = recover_writes l D"
proof -
  let ?n = "nat (sint (rd32 (D (start l)) 0))"
  have lb: "lblks (head_log l' D) = lblks (head_log l D)"
    by (simp add: lblks_def) (simp add: head_log_def Let_def assms(1))
  have ln: "length (lh_block (head_log l' D)) = nat LOGSIZE"
    using ok assms(4) by (simp add: hdr_ok_def lh_ok_def) (simp add: head_log_def Let_def assms(1))
  show ok': "hdr_ok l' D"
    using ok lb ln assms(4) unfolding hdr_ok_def lh_ok_def head_log_sel assms(1-3) region_def by simp
  have "lh_block (head_log l' D) ! t = lh_block (head_log l D) ! t" if "t < ?n" for t
    using nth_lblks [of "head_log l D" t] nth_lblks [of "head_log l' D" t] lb that ok ok' assms(1) by (simp add: hdr_ok_def)
  then show "recover_writes l' D = recover_writes l D"
    by (simp add: recover_writes_def Let_def inst_writes_def assms(1) head_bytes_def logblk_def)
qed

text \<open>The two phases of a commit, for a power failure after any number \<open>k\<close> of its writes.\<close>

lemma commit_prefix:
  assumes ok: "lh_ok l" and h0: "rd32 (D (start l)) 0 = 0" and len: "\<And>b. length (D b) = BSIZE"
    and V: "\<And>b. b \<notin> set (lblks l) \<Longrightarrow> V b = D b" and k: "k \<le> length (commit_writes l V)"
  defines "D' \<equiv> put (take k (commit_writes l V)) D"
  shows "hdr_ok l D'" and "\<not> region l b \<Longrightarrow> recovered l D' b = (if k \<le> nat (lh_n l) then D b else V b)"
    and "set (lblks (head_log l D')) \<subseteq> set (lblks l)"
proof -
  let ?n = "nat (lh_n l)" and ?h = "head_bytes (lh_n l) (lh_block l) (V (start l))" and ?L = "log_writes l V"
  have lok: "0 \<le> lh_n l" "lh_n l \<le> LOGSIZE" "length (lh_block l) = nat LOGSIZE" using ok by (simp_all add: lh_ok_def)
  have st: "region l (start l)" "start l \<notin> set (lblks l)" using start_region [OF ok] ok by (auto simp: lh_ok_def)
  have Vs: "V (start l) = D (start l)" by (rule V) (rule st)
  have lenL: "length ?L = ?n" by (simp add: log_writes_def)
  have "hdr_ok l D' \<and> (\<forall>b. \<not> region l b \<longrightarrow> recovered l D' b = (if k \<le> ?n then D b else V b)) \<and>
    set (lblks (head_log l D')) \<subseteq> set (lblks l)"
  proof (cases "k \<le> ?n")
    case True
    then have D': "D' = put (take k ?L) D" using lenL by (simp add: D'_def commit_writes_def Let_def)
    have un: "D' b = D b" if "\<not> region l b \<or> b = start l" for b
      unfolding D' by (rule put_other) (use that fst_log [OF ok, of b V] set_take_subset [of k ?L] in blast)
    have n0: "lh_n (head_log l D') = 0" "lh_block (head_log l D') = lh_block l"
      using un [of "start l"] h0 by (simp_all add: head_log_def Let_def)
    have ok': "hdr_ok l D'"
      using ok n0 un [of "start l"] len by (simp add: hdr_ok_def lh_ok_def lblks_def LOGSIZE_30)
    have "recovered l D' b = D b" if "\<not> region l b" for b
      using recovered_home [OF ok' that] n0 un [of b] that by (simp add: inst_writes_def)
    moreover have "lblks (head_log l D') = []" by (simp only: lblks_def n0) simp
    ultimately show ?thesis using ok' True by simp
  next
    case False
    let ?D1 = "put (?L @ [(start l, ?h)]) D"
    note hb = head_bytes [where d = "V (start l)" and n = "lh_n l" and bl = "lh_block l", OF _ lok(1,2)]
    have D1: "?D1 = (put ?L D)(start l := ?h)" by (simp add: put_append put_Cons)
    have n1: "sint (rd32 ?h 0) = lh_n l"
      using hb(2) Vs len lok by (simp add: sint_sbintrunc' signed_take_bit_int_eq_self LOGSIZE_30)
    have "map (\<lambda>i. rd32 ?h (4 + 4 * i)) [0..<?n] @ drop ?n (lh_block l) = lh_block l"
      by (rule nth_equalityI) (use hb(3) Vs len lok in \<open>auto simp: nth_append\<close>)
    then have hl: "head_log l ?D1 = l" using n1 by (simp add: head_log_def Let_def D1)
    have "?D1 (start l) = ?h" by (simp add: D1)
    then have ok1: "hdr_ok l ?D1" unfolding hdr_ok_def hl using ok hb(1) Vs len lok by simp
    have lgb: "?D1 (logblk l t) = V (lh_block l ! t)" if "t < ?n" for t
    proof -
      have "distinct (map (logblk l) [0..<?n])"
        using logblk_inj [OF ok] by (auto simp: distinct_map inj_on_def)
      then show ?thesis
        using put_map [of "logblk l" "[0..<?n]" t "\<lambda>t. V (lh_block l ! t)" D] that logblk_facts(3) [OF ok that]
        by (simp add: put_append put_Cons log_writes_def)
    qed
    have cw: "commit_writes l V = (?L @ [(start l, ?h)]) @ recover_writes l ?D1"
      using lgb by (simp add: commit_writes_def recover_writes_def Let_def hl inst_writes_def)
        (simp add: put_append put_Cons head_bytes_def)
    let ?k = "k - (?n + 1)"
    have tk: "take k (commit_writes l V) = (?L @ [(start l, ?h)]) @ take ?k (recover_writes l ?D1)"
    proof -
      have "k - ?n = Suc ?k" using False by simp
      then show ?thesis unfolding cw by (simp add: lenL)
    qed
    have D': "D' = put (take ?k (recover_writes l ?D1)) ?D1" unfolding D'_def tk by (rule put_append)
    have kk: "?k \<le> length (recover_writes l ?D1)" using k lenL unfolding cw by simp
    note rp = recover_prefix [OF ok1 kk, folded D']
    have "recovered l ?D1 b = V b" if b: "\<not> region l b" for b
    proof (cases "b \<in> set (lblks l)")
      case True
      then obtain t where t: "t < ?n" "b = lh_block l ! t" using set_lblks [OF ok] by auto
      then show ?thesis
        using recovered_home [OF ok1 b] put_inst_logged [OF ok t(1)] lgb [OF t(1)] by (simp add: hl)
    next
      case False
      moreover have "?D1 b = D b"
        by (rule put_other) (use b fst_log [OF ok, of b V] st(1) in auto)
      ultimately show ?thesis
        using recovered_home [OF ok1 b] fst_inst [OF ok] V [OF False] by (simp add: hl put_other)
    qed
    with rp False show ?thesis by (simp add: hl)
  qed
  then show "hdr_ok l D'" and "\<not> region l b \<Longrightarrow> recovered l D' b = (if k \<le> ?n then D b else V b)"
    and "set (lblks (head_log l D')) \<subseteq> set (lblks l)" by blast+
qed

lemma commit_prefix_other:
  assumes ok: "lh_ok l" and "\<not> region l b" and "b \<notin> set (lblks l)"
  shows "put (take k (commit_writes l V)) D b = D b"
proof (rule put_other)
  have "b \<notin> fst ` set (commit_writes l V)"
    using assms start_region [OF ok] set_lblks [OF ok] fst_log [OF ok, of b V] by (auto simp: commit_writes_def Let_def)
  then show "b \<notin> fst ` set (take k (commit_writes l V))"
    using set_take_subset [of k "commit_writes l V"] by auto
qed

text \<open>Any number of recoveries, each cut short by another power failure.\<close>

inductive recovering :: "log \<Rightarrow> (u32 \<Rightarrow> u8 list) \<Rightarrow> (u32 \<Rightarrow> u8 list) \<Rightarrow> bool" for l D where
  recovering_start: "recovering l D D"
| recovering_crash: "recovering l D D' \<Longrightarrow> k \<le> length (recover_writes l D') \<Longrightarrow>
     recovering l D (put (take k (recover_writes l D')) D')"

lemma recovering_inv:
  assumes "recovering l D D'" and "hdr_ok l D"
  shows "hdr_ok l D' \<and> (\<forall>b. \<not> region l b \<longrightarrow> recovered l D' b = recovered l D b) \<and>
    set (lblks (head_log l D')) \<subseteq> set (lblks (head_log l D)) \<and>
    (\<forall>b. \<not> region l b \<longrightarrow> b \<notin> set (lblks (head_log l D)) \<longrightarrow> D' b = D b)"
  using assms(1)
proof induction
  case recovering_start
  then show ?case using assms(2) by simp
next
  case (recovering_crash D' k)
  then have "put (take k (recover_writes l D')) D' b = D b" if "\<not> region l b" "b \<notin> set (lblks (head_log l D))" for b
    using that recover_prefix_other [of l D' b k] by (metis subsetD)
  then show ?case using recovering_crash recover_prefix [of l D' k] by auto
qed

text \<open>A machine that has just booted from the disk \<open>D\<close>, before \<open>initlog\<close>.\<close>

definition booted :: "(u32 \<Rightarrow> u8 list) \<Rightarrow> 'x lst_scheme \<Rightarrow> bool" where
  "booted D s \<longleftrightarrow> binv s {} {} \<and> dblk s = {} \<and> disk s ROOTDEV = D \<and> length (lh_block (lg s)) = nat LOGSIZE"

definition sb_for :: "log \<Rightarrow> (u32 \<Rightarrow> u8 list) \<Rightarrow> bool" where
  "sb_for l D \<longleftrightarrow> sb_logstart (sb_of (D 1)) = start l \<and> sb_nlog (sb_of (D 1)) = lsize l \<and> ldev l = ROOTDEV \<and> \<not> region l 1"

lemma initlog_recovers:
  assumes b: "booted D s" and sb: "sb_for l D" and ok: "hdr_ok l D"
  shows "wp (initlog ROOTDEV) (\<lambda>_ s'. binv s' {} {} \<and> dblk s' = {} \<and> disk s' ROOTDEV = recovered l D \<and> bview s' = disk s' ROOTDEV \<and>
    start (lg s') = start l \<and> lsize (lg s') = lsize l \<and> ldev (lg s') = ROOTDEV \<and> lh_n (lg s') = 0 \<and> length (lh_block (lg s')) = nat LOGSIZE \<and>
    outstanding (lg s') = outstanding (lg s) \<and> committing (lg s') = committing (lg s)) s"
proof -
  have inv: "binv s {} {}" and d: "dblk s = {}" and D: "disk s ROOTDEV = D" and ln: "length (lh_block (lg s)) = nat LOGSIZE"
    using b by (auto simp: booted_def)
  have v: "bview s = D" using bview_clean [OF inv] d D by (auto intro!: ext)
  let ?l = "sb_log (sb_of (bview s 1)) (lg s)"
  have lf: "start ?l = start l" "lsize ?l = lsize l" "ldev ?l = ldev l" "length (lh_block ?l) = nat LOGSIZE"
    using sb v ln by (simp_all add: sb_log_def sb_for_def)
  note rc = recover_cong [OF lf ok]
  show ?thesis
  proof (rule initlog_wp [OF inv d refl])
    show "lh_ok (head_log ?l (bview s))" using rc(1) by (simp add: hdr_ok_def v)
    show "length (lh_block (lg s)) = nat LOGSIZE" by (rule ln)
    fix s'
    assume w: "wrote (s\<lparr>lg := (head_log ?l (bview s))\<lparr>lh_n := 0\<rparr>\<rparr>) (recover_writes ?l (bview s)) s'" and d': "dblk s' = {}"
    have l': "lg s' = (head_log ?l (bview s))\<lparr>lh_n := 0\<rparr>" using wrote_lg [OF w] by simp
    have b': "binv s' {} {}" using w by (simp add: wrote_def)
    have "length (lh_block (lg s')) = nat LOGSIZE" using rc(1) by (simp add: l' hdr_ok_def lh_ok_def v)
    then show "binv s' {} {} \<and> dblk s' = {} \<and> disk s' ROOTDEV = recovered l D \<and> bview s' = disk s' ROOTDEV \<and>
      start (lg s') = start l \<and> lsize (lg s') = lsize l \<and> ldev (lg s') = ROOTDEV \<and> lh_n (lg s') = 0 \<and> length (lh_block (lg s')) = nat LOGSIZE \<and>
      outstanding (lg s') = outstanding (lg s) \<and> committing (lg s') = committing (lg s)"
      using w d' b' lf rc(2) D sb bview_clean [OF b'] d'
      by (auto simp: wrote_def recovered_def l' v sb_for_def intro!: ext) (simp_all add: head_log_def Let_def sb_log_def)
  qed
qed

section \<open>Operations\<close>

text \<open>The invariant between log operations: the dirty buffers are the logged blocks, and the log on disk is empty.\<close>

definition linv :: "'x lst_scheme \<Rightarrow> nat set \<Rightarrow> nat set \<Rightarrow> bool" where
  "linv s H M \<longleftrightarrow> binv s H M \<and> lh_ok (lg s) \<and> dblk s = set (lblks (lg s)) \<and> rd32 (disk s ROOTDEV (start (lg s))) 0 = 0 \<and>
     (\<forall>i\<in>H. \<not> region (lg s) (blockno (bufs s i)))"

lemma linvD:
  assumes "linv s H M"
  shows "binv s H M" "lh_ok (lg s)" "dblk s = set (lblks (lg s))" "rd32 (disk s ROOTDEV (start (lg s))) 0 = 0"
    "i \<in> H \<Longrightarrow> \<not> region (lg s) (blockno (bufs s i))"
  using assms by (auto simp: linv_def)

lemma card_dblk_lg: "linv s H M \<Longrightarrow> card (dblk s) = nat (lh_n (lg s))"
  using linvD [of s H M] length_lblks [of "lg s"] distinct_card [of "lblks (lg s)"] by (simp add: lh_ok_def)

text \<open>Changing only the shared core of the state, as taking and releasing locks does.\<close>

lemma bfr_core: "env c = env (core s) \<Longrightarrow> slp c = slp (core s) \<Longrightarrow> bfr s (s\<lparr>core := c\<rparr>)"
  by (rule bfrI) simp_all

lemma binv_core:
  assumes "binv s H M" and "env c = env (core s)" and "slp c = slp (core s)"
  shows "binv (s\<lparr>core := c\<rparr>) H M"
proof -
  have "bsys (s\<lparr>core := c\<rparr>)"
    using bsys_bfr [OF bfr_core [OF assms(2,3)] _ binvD(1) [OF assms(1)]] bsysD(8) [OF binvD(1) [OF assms(1)]] by simp
  moreover have "buf_ok (s\<lparr>core := c\<rparr>) H M i = buf_ok s H M i" for i
    by (simp add: buf_ok_def assms(3))
  ultimately show ?thesis
    using assms(1) by (simp add: binv_def)
qed

lemma view_core [simp]: "bview (s\<lparr>core := c\<rparr>) = bview s" "dblk (s\<lparr>core := c\<rparr>) = dblk s" "didx (s\<lparr>core := c\<rparr>) = didx s"
  by (auto simp: bview_def dblk_def didx_def intro!: ext split: option.splits)

lemma linv_core: "linv s H M \<Longrightarrow> env c = env (core s) \<Longrightarrow> slp c = slp (core s) \<Longrightarrow> linv (s\<lparr>core := c\<rparr>) H M"
  by (simp add: linv_def binv_core)

definition begin_post :: "'x lst_scheme \<Rightarrow> 'x lst_scheme \<Rightarrow> bool" where
  "begin_post s s' \<longleftrightarrow> (\<exists>c. env c = env (core s) \<and> slp c = slp (core s) \<and>
     s' = s\<lparr>lg := (lg s)\<lparr>outstanding := outstanding (lg s) + 1\<rparr>, core := c\<rparr>)"

lemma begin_op_wp:
  assumes "bsys s" and "\<not> committing (lg s)" and "lh_n (lg s) + (outstanding (lg s) + 1) * MAXOPBLOCKS \<le> LOGSIZE"
    and post: "\<And>s'. begin_post s s' \<Longrightarrow> Q () s'"
  shows "wp begin_op Q s"
proof -
  note sy = bsysD [OF assms(1)]
  have "begin_post s (s\<lparr>lg := (lg s)\<lparr>outstanding := outstanding (lg s) + 1\<rparr>, core := popped (core s)\<rparr>)"
    unfolding begin_post_def by (rule exI [of _ "popped (core s)"]) simp
  with post assms(2,3) show ?thesis
    by (simp add: begin_op_def wp_bind wp_acquire_free sy wp_gets wp_upd_log wp_release [OF _ sy(2,3)])
qed

lemma lh_ok_cong:
  "start l' = start l \<Longrightarrow> lsize l' = lsize l \<Longrightarrow> ldev l' = ldev l \<Longrightarrow> lh_n l' = lh_n l \<Longrightarrow> lh_block l' = lh_block l \<Longrightarrow>
   lh_ok l' = lh_ok l \<and> lblks l' = lblks l \<and> region l' = region l"
  by (auto simp: lh_ok_def lblks_def region_def fun_eq_iff)

lemma begin_post_linv: "begin_post s s' \<Longrightarrow> linv s H M \<Longrightarrow> linv s' H M"
proof -
  assume "begin_post s s'" and l: "linv s H M"
  then obtain c where c: "env c = env (core s)" "slp c = slp (core s)"
    and s': "s' = s\<lparr>lg := (lg s)\<lparr>outstanding := outstanding (lg s) + 1\<rparr>, core := c\<rparr>" by (auto simp: begin_post_def)
  have "linv (s\<lparr>lg := (lg s)\<lparr>outstanding := outstanding (lg s) + 1\<rparr>\<rparr>) H M"
    using l lh_ok_cong [of "(lg s)\<lparr>outstanding := outstanding (lg s) + 1\<rparr>" "lg s"] by (simp add: linv_def)
  from linv_core [OF this, of c] c show ?thesis by (simp add: s')
qed

text \<open>Marking a held buffer dirty pins it.\<close>

lemma bdirty_set:
  assumes inv: "binv s H M" and i: "i \<in> H" and t: "t = s\<lparr>bufs := (bufs s)(i := (bufs s i)\<lparr>flags := flags (bufs s i) OR B_DIRTY\<rparr>)\<rparr>"
  shows "binv t H (M - {i})" and "bview t = bview s" and "dblk t = insert (blockno (bufs s i)) (dblk s)"
proof -
  note d = binvD [OF inv]
  have iN: "i < NBUF" using d(5) i(1) by auto
  have bi: "bvalid (bufs s i)" "bdev (bufs s i) = ROOTDEV" "length (bdata (bufs s i)) = BSIZE"
    using d(6) [OF iN] i by (simp_all add: buf_ok_def Let_def bhit_def)
  have u: "uniq (bufs t)" using d(3) by (subst uniq_key [of _ "bufs s"]) (simp_all add: t)
  have "lru_ok (bufs t)" using d(2) lru_list_cong [of "bufs t" "bufs s"] by (simp add: lru_ok_def t)
  moreover have "buf_ok t H (M - {i}) j" if "j < NBUF" for j
  proof (cases "j = i")
    case True
    then show ?thesis using d(6) [OF iN] i bi by (simp add: buf_ok_def Let_def t)
  next
    case False
    then show ?thesis by (intro buf_ok_frame [OF d(6) [OF that]]) (simp_all add: t)
  qed
  moreover have "bsys t" using d(1) by (simp add: t bsys_def ide_ready_def)
  ultimately show "binv t H (M - {i})" using d u i by (auto simp: binv_def)
  have v: "bvalid (bufs t j) = bvalid (bufs s j)" "bhit (bufs t) n j = bhit (bufs s) n j" "bdata (bufs t j) = bdata (bufs s j)" for j n
    using bi by (auto simp: t bhit_def)
  have "disk t = disk s" by (simp add: t)
  then show "bview t = bview s" by (intro ext) (simp add: bview_def v cong: option.case_cong)
  have "didx t = insert i (didx s)" using iN by (auto simp: didx_def t)
  then show "dblk t = insert (blockno (bufs s i)) (dblk s)" by (auto simp: dblk_def t)
qed

definition logged :: "log \<Rightarrow> u32 \<Rightarrow> log" where
  "logged l b = (if b \<in> set (lblks l) then l else l\<lparr>lh_n := lh_n l + 1, lh_block := (lh_block l)[nat (lh_n l) := b]\<rparr>)"

lemma log_slot:
  assumes "lh_ok l"
  shows "if b \<in> set (lblks l) then log_slot l b < nat (lh_n l) \<and> lh_block l ! log_slot l b = b else log_slot l b = nat (lh_n l)"
proof (cases "List.find (\<lambda>i. lh_block l ! i = b) [0..<nat (lh_n l)]")
  case None
  then have "b \<notin> set (lblks l)" using set_lblks [OF assms] by (auto simp: find_None_iff)
  with None show ?thesis by (simp add: log_slot_def)
next
  case (Some i)
  then have "i < nat (lh_n l)" "lh_block l ! i = b" using find_upt_Some by auto
  with set_lblks [OF assms] Some show ?thesis by (auto simp: log_slot_def)
qed

lemma logged_ok:
  assumes ok: "lh_ok l" and n: "lh_n l < LOGSIZE" "lh_n l < sint (lsize l) - 1" and b: "\<not> region l b" "b < FSSIZE"
  shows "lh_ok (logged l b)" and "set (lblks (logged l b)) = insert b (set (lblks l))"
proof -
  have sz: "nat (lh_n l + 1) < unat (lsize l)"
  proof -
    have "unat (lsize l) \<le> 1000" using ok by (simp add: lh_ok_def FSSIZE_def)
    then have "sint (lsize l) = int (unat (lsize l))" by (intro sint_small) simp
    with n ok show ?thesis by (simp only: lh_ok_def) linarith
  qed
  have e: "lblks (logged l b) = (if b \<in> set (lblks l) then lblks l else lblks l @ [b])"
    using ok n by (auto simp: lh_ok_def logged_def lblks_def nat_add_distrib take_Suc_conv_app_nth LOGSIZE_30)
  then show "set (lblks (logged l b)) = insert b (set (lblks l))" by auto
  show "lh_ok (logged l b)"
  proof (cases "b \<in> set (lblks l)")
    case True
    then show ?thesis using ok by (simp add: logged_def)
  next
    case False
    have r: "region (logged l b) = region l" by (simp add: logged_def region_def fun_eq_iff)
    have "lh_n (logged l b) = lh_n l + 1" "start (logged l b) = start l" "lsize (logged l b) = lsize l" "ldev (logged l b) = ldev l"
      "length (lh_block (logged l b)) = length (lh_block l)" using False by (simp_all add: logged_def)
    then show ?thesis
      using ok n b sz False unfolding lh_ok_def e r by auto
  qed
qed

definition log_write_post :: "'x lst_scheme \<Rightarrow> nat set \<Rightarrow> nat set \<Rightarrow> nat \<Rightarrow> 'x lst_scheme \<Rightarrow> bool" where
  "log_write_post s H M i s' \<longleftrightarrow> linv s' H (M - {i}) \<and> lg s' = logged (lg s) (blockno (bufs s i)) \<and>
     bfr (s\<lparr>lg := lg s'\<rparr>) s' \<and> disk s' = disk s \<and> wrlog s' = wrlog s \<and> bview s' = bview s \<and>
     bufs s' = (bufs s)(i := (bufs s i)\<lparr>flags := flags (bufs s i) OR B_DIRTY\<rparr>)"

lemma log_write_wp:
  assumes inv: "linv s H M" and i: "i \<in> H" and n: "lh_n (lg s) < LOGSIZE" "lh_n (lg s) < sint (lsize (lg s)) - 1"
    and o: "1 \<le> outstanding (lg s)" and b: "blockno (bufs s i) < FSSIZE"
    and post: "\<And>s'. log_write_post s H M i s' \<Longrightarrow> Q () s'"
  shows "wp (log_write i) Q s"
proof -
  note d = linvD [OF inv] and sy = bsysD [OF binvD(1) [OF linvD(1) [OF inv]]]
  let ?b = "blockno (bufs s i)" and ?l = "lg s"
  let ?B = "(bufs s)(i := (bufs s i)\<lparr>flags := flags (bufs s i) OR B_DIRTY\<rparr>)"
  note sl = log_slot [OF d(2), of ?b]
  have upd: "(if int (log_slot ?l ?b) = lh_n ?l then ?l\<lparr>lh_block := (lh_block ?l)[log_slot ?l ?b := ?b], lh_n := lh_n ?l + 1\<rparr>
     else ?l\<lparr>lh_block := (lh_block ?l)[log_slot ?l ?b := ?b]\<rparr>) = logged ?l ?b"
  proof (cases "?b \<in> set (lblks ?l)")
    case True
    with sl have "(lh_block ?l)[log_slot ?l ?b := ?b] = lh_block ?l" by (metis list_update_id)
    with True sl show ?thesis by (auto simp: logged_def)
  next
    case False
    with sl d(2) show ?thesis by (simp add: logged_def lh_ok_def)
  qed
  note lo = logged_ok [OF d(2) n d(5) [OF i] b]
  note bd = bdirty_set [OF d(1) i refl]
  have fin: "Q () (s\<lparr>lg := logged ?l ?b, bufs := ?B, core := popped (core s)\<rparr>)"
  proof (rule post)
    let ?t = "s\<lparr>bufs := ?B, lg := logged ?l ?b\<rparr>"
    have st: "start (logged ?l ?b) = start ?l" "region (logged ?l ?b) = region ?l"
      by (auto simp: logged_def region_def fun_eq_iff)
    have "linv ?t H (M - {i})"
      using bd lo d st by (auto simp: linv_def)
    then have l': "linv (?t\<lparr>core := popped (core s)\<rparr>) H (M - {i})" by (rule linv_core) simp_all
    have e: "?t\<lparr>core := popped (core s)\<rparr> = s\<lparr>lg := logged ?l ?b, bufs := ?B, core := popped (core s)\<rparr>" by simp
    have "bfr (s\<lparr>lg := logged ?l ?b\<rparr>) (s\<lparr>lg := logged ?l ?b, bufs := ?B, core := popped (core s)\<rparr>)"
      by (rule bfrI) simp_all
    moreover have "bview (s\<lparr>lg := logged ?l ?b, bufs := ?B, core := popped (core s)\<rparr>) = bview s"
      using bd(2) unfolding e [symmetric] by simp
    ultimately show "log_write_post s H M i (s\<lparr>lg := logged ?l ?b, bufs := ?B, core := popped (core s)\<rparr>)"
      using l' unfolding e log_write_post_def by simp
  qed
  have 1: "wp (bind (gets (\<lambda>s. (lg s, blockno (bufs s i)))) (\<lambda>(l, bn). let k = log_slot l bn in
       bind (upd_log (\<lambda>l. l\<lparr>lh_block := (lh_block l)[k := bn]\<rparr>)) (\<lambda>_.
       bind (whenM (int k = lh_n l) (upd_log (\<lambda>l. l\<lparr>lh_n := lh_n l + 1\<rparr>))) (\<lambda>_.
       upd_buf i (\<lambda>k. k\<lparr>flags := flags k OR B_DIRTY\<rparr>))))) R t = R () (t\<lparr>lg := logged ?l ?b, bufs := ?B\<rparr>)"
    if "lg t = ?l" "bufs t = bufs s" for R t
    unfolding upd [symmetric] using that by (simp add: Let_def wp_simps wp_upd_log upd_buf_def)
  show ?thesis
    using n o sy by (simp add: log_write_def wp_bind wp_gets)
      (rule with_lock_wp_plain, simp_all add: sy 1 fin)
qed

lemma put_commit_home:
  assumes ok: "lh_ok l" and b: "\<not> region l b"
  shows "put (commit_writes l V) D b = (if b \<in> set (lblks l) then V b else D b)"
proof -
  have st: "start l \<noteq> b" using start_region [OF ok] b by auto
  let ?m = "map (\<lambda>t. (lh_block l ! t, V (lh_block l ! t))) [0..<nat (lh_n l)]"
  have "put ?m D' b = (if b \<in> set (lblks l) then V b else D' b)" for D'
  proof (cases "b \<in> set (lblks l)")
    case True
    then obtain t where t: "t < nat (lh_n l)" "b = lh_block l ! t" using set_lblks [OF ok] by auto
    have "distinct (map ((!) (lh_block l)) [0..<nat (lh_n l)])"
      using lh_block_inj [OF ok] by (auto simp: distinct_map inj_on_def)
    from put_map [OF this, of t "\<lambda>t. V (lh_block l ! t)" D'] t True show ?thesis by simp
  next
    case False
    then show ?thesis using set_lblks [OF ok] by (simp add: put_other image_image)
  qed
  moreover have "put (log_writes l V) D b = D b" by (rule put_other) (use fst_log [OF ok, of b V] b in blast)
  ultimately show ?thesis
    using st by (simp add: commit_writes_def Let_def put_append put_Cons)
qed

lemma put_commit_head:
  assumes "lh_ok l" and "length (V (start l)) = BSIZE"
  shows "rd32 (put (commit_writes l V) D (start l)) 0 = 0"
  using head_bytes(1) [OF assms(2), where n = "lh_n l" and bl = "lh_block l"] assms(1)
    head_bytes(2) [where n = 0 and bl = "lh_block l"]
  by (simp add: commit_writes_def Let_def put_append put_Cons LOGSIZE_30 lh_ok_def)

definition end_post :: "'x lst_scheme \<Rightarrow> 'x lst_scheme \<Rightarrow> bool" where
  "end_post s s' \<longleftrightarrow> linv s' {} {} \<and> lg s' = (lg s)\<lparr>lh_n := 0, outstanding := 0, committing := False\<rparr> \<and> bfr (s\<lparr>lg := lg s'\<rparr>) s' \<and>
     (\<forall>b. \<not> region (lg s) b \<longrightarrow> bview s' b = bview s b \<and> disk s' ROOTDEV b = bview s b)"

lemma commit_wp':
  assumes inv: "linv s {} {}" and n: "nat (lh_n (lg s)) < NBUF"
    and post: "\<And>s'. linv s' {} {} \<Longrightarrow> lg s' = (lg s)\<lparr>lh_n := 0\<rparr> \<Longrightarrow> bfr (s\<lparr>lg := lg s'\<rparr>) s' \<Longrightarrow>
      (\<And>b. \<not> region (lg s) b \<Longrightarrow> bview s' b = bview s b \<and> disk s' ROOTDEV b = bview s b) \<Longrightarrow> Q () s'"
  shows "wp commit Q s"
proof (cases "0 < lh_n (lg s)")
  case True
  note d = linvD [OF inv]
  show ?thesis
  proof (rule commit_wp [OF d(1,2) True n d(3)])
    fix s'
    assume w: "wrote (s\<lparr>lg := (lg s)\<lparr>lh_n := 0\<rparr>\<rparr>) (commit_writes (lg s) (bview s)) s'" and d': "dblk s' = {}"
    have l': "lg s' = (lg s)\<lparr>lh_n := 0\<rparr>" using wrote_lg [OF w] by simp
    have W: "binv s' {} {}" "disk s' = (disk s)(ROOTDEV := put (commit_writes (lg s) (bview s)) (disk s ROOTDEV))"
      "bview s' = put (commit_writes (lg s) (bview s)) (bview s)" "bfr (s\<lparr>lg := lg s'\<rparr>) s'"
      using w by (simp_all add: wrote_def l')
    have cl: "disk s ROOTDEV b = bview s b" if "b \<notin> set (lblks (lg s))" for b
      using bview_clean [OF d(1), of b] that d(3) by simp
    have "linv s' {} {}"
      using W d' lh_ok_clear [OF d(2)] put_commit_head [OF d(2), of "bview s"] length_bview [OF d(1)]
      by (simp add: linv_def l' lblks_def)
    then show "Q () s'"
      by (rule post) (use l' W put_commit_home [OF d(2)] cl in auto)
  qed
next
  case False
  note d = linvD [OF inv]
  have z: "lh_n (lg s) = 0" using False d(2) by (simp add: lh_ok_def)
  then have "dblk s = {}" using d(3) by (simp add: lblks_def)
  then have "bview s b = disk s ROOTDEV b" for b using bview_clean [OF d(1)] by simp
  then have "Q () s" using inv z by (intro post) simp_all
  then show ?thesis using z by (simp add: commit_def wp_simps)
qed

lemma lock_section: "bind (acquire l) (\<lambda>_. bind m (\<lambda>_. bind n (\<lambda>_. release l))) = with_lock l (bind m (\<lambda>_. n))" for n :: "('x, unit) kk"
proof -
  have "bind (release l) (\<lambda>_. ret x) = release l" for x :: unit
    using ret_bind [of "release l"] by (simp add: fun_eq_iff bind_def ret_def split: res.splits)
  then show ?thesis by (simp add: with_lock_def bind_assoc)
qed

lemma end_op_wp:
  assumes inv: "linv s {} {}" and l: "\<not> committing (lg s)" "outstanding (lg s) = 1" and n: "nat (lh_n (lg s)) < NBUF"
    and post: "\<And>s'. end_post s s' \<Longrightarrow> Q () s'"
  shows "wp end_op Q s"
proof -
  note d = linvD [OF inv] and sy = bsysD [OF binvD(1) [OF linvD(1) [OF inv]]]
  let ?l = "(lg s)\<lparr>outstanding := 0, committing := True\<rparr>"
  let ?t = "s\<lparr>lg := ?l, core := popped (core s)\<rparr>"
  have lc: "lh_ok ?l = lh_ok (lg s)" "lblks ?l = lblks (lg s)" "region ?l = region (lg s)"
    using lh_ok_cong [of ?l "lg s"] by auto
  have "linv (s\<lparr>lg := ?l\<rparr>) {} {}" using inv lc by (simp add: linv_def)
  then have it: "linv ?t {} {}" using linv_core [of "s\<lparr>lg := ?l\<rparr>" "{}" "{}" "popped (core s)"] by simp
  have "wp commit (\<lambda>_. wp (with_lock LogLk (bind (upd_log (\<lambda>l. l\<lparr>committing := False\<rparr>)) (\<lambda>_. wakeup ChLog))) Q) ?t"
  proof (rule commit_wp' [OF it])
    show "nat (lh_n (lg ?t)) < NBUF" using n by simp
    fix s1
    assume c: "linv s1 {} {}" "lg s1 = (lg ?t)\<lparr>lh_n := 0\<rparr>" "bfr (?t\<lparr>lg := lg s1\<rparr>) s1"
      "\<And>b. \<not> region (lg ?t) b \<Longrightarrow> bview s1 b = bview ?t b \<and> disk s1 ROOTDEV b = bview ?t b"
    note sy1 = bsysD [OF binvD(1) [OF linvD(1) [OF c(1)]]]
    let ?l2 = "(lg s)\<lparr>lh_n := 0, outstanding := 0, committing := False\<rparr>"
    have l2: "(lg s1)\<lparr>committing := False\<rparr> = ?l2" by (simp add: c(2))
    have lc2: "lh_ok ?l2 = lh_ok (lg s1)" "lblks ?l2 = lblks (lg s1)" "region ?l2 = region (lg s1)"
      using lh_ok_cong [of ?l2 "lg s1"] by (auto simp: c(2))
    have fin: "Q () (s1\<lparr>lg := ?l2, core := c2\<rparr>)" if e: "env c2 = env (core s1)" "slp c2 = slp (core s1)" for c2
    proof (rule post)
      have i2: "linv (s1\<lparr>lg := ?l2\<rparr>) {} {}" using c(1) lc2 by (simp add: linv_def) (simp add: c(2))
      have i3: "linv (s1\<lparr>lg := ?l2, core := c2\<rparr>) {} {}" using linv_core [OF i2, of c2] e by simp
      have "?t\<lparr>lg := ?l2\<rparr> = s\<lparr>lg := ?l2, core := popped (core s)\<rparr>" by simp
      moreover have "bfr (s\<lparr>lg := ?l2\<rparr>) (s\<lparr>lg := ?l2, core := popped (core s)\<rparr>)" by (rule bfrI) simp_all
      ultimately have "bfr (s\<lparr>lg := ?l2\<rparr>) (?t\<lparr>lg := ?l2\<rparr>)" by metis
      moreover have "bfr (?t\<lparr>lg := lg s1, lg := ?l2\<rparr>) (s1\<lparr>lg := ?l2\<rparr>)" by (rule bfr_upd_lg [OF c(3)])
      then have "bfr (?t\<lparr>lg := ?l2\<rparr>) (s1\<lparr>lg := ?l2\<rparr>)" by simp
      moreover have "bfr (s1\<lparr>lg := ?l2\<rparr>) (s1\<lparr>lg := ?l2, core := c2\<rparr>)" by (rule bfrI) (simp_all add: e)
      ultimately have "bfr (s\<lparr>lg := ?l2\<rparr>) (s1\<lparr>lg := ?l2, core := c2\<rparr>)" by (meson bfr_trans)
      then show "end_post s (s1\<lparr>lg := ?l2, core := c2\<rparr>)"
        using i3 c(4) lc(3) by (simp add: end_post_def)
    qed
    show "wp (with_lock LogLk (bind (upd_log (\<lambda>l. l\<lparr>committing := False\<rparr>)) (\<lambda>_. wakeup ChLog))) Q s1"
    proof (rule with_lock_wp [OF sy1(2,3)])
      let ?u = "s1\<lparr>core := acquired LogLk (core s1), lg := ?l2\<rparr>"
      have "wp (wakeup ChLog) (\<lambda>x s'. \<exists>g p. core s' = set_sp g p (acquired LogLk (core s1)) \<and> Q x (s'\<lparr>core := set_sp g p (popped (core s1))\<rparr>)) ?u"
      proof (rule wakeup_wp)
        let ?p = "woken ChLog (procs (core s1))"
        have "Q () (s1\<lparr>lg := ?l2, core := set_sp (slp (core s1)) ?p (popped (core s1))\<rparr>)"
          by (rule fin) simp_all
        then show "\<exists>g p. core (?u\<lparr>core := set_sp (slp (core ?u)) (woken ChLog (procs (core ?u))) (popped (core ?u))\<rparr>) = set_sp g p (acquired LogLk (core s1)) \<and>
          Q () (?u\<lparr>core := set_sp (slp (core ?u)) (woken ChLog (procs (core ?u))) (popped (core ?u)), core := set_sp g p (popped (core s1))\<rparr>)"
          by (intro exI [of _ "slp (core s1)"] exI [of _ ?p]) (simp add: sy1)
      qed (simp_all add: sy1)
      then show "wp (bind (upd_log (\<lambda>l. l\<lparr>committing := False\<rparr>)) (\<lambda>_. wakeup ChLog))
        (\<lambda>x s'. \<exists>g p. core s' = set_sp g p (acquired LogLk (core s1)) \<and> Q x (s'\<lparr>core := set_sp g p (popped (core s1))\<rparr>))
        (s1\<lparr>core := acquired LogLk (core s1)\<rparr>)"
        by (simp add: wp_bind wp_upd_log l2)
    qed
  qed
  then show ?thesis
    using l by (simp add: end_op_def lock_section wp_bind wp_acquire_free sy wp_gets wp_upd_log wp_release [OF _ sy(2,3)] wp_whenM)
qed

section \<open>Properties\<close>


text \<open>A machine booted from \<open>dk\<close> with an idle log \<open>l\<close>, and one with a logged change of block 60.\<close>

definition lboot :: "(u32 \<Rightarrow> u8 list) \<Rightarrow> log \<Rightarrow> lst" where
  "lboot dk l = \<lparr>core = core0, cns = console0, mmu = mmu0, mem = (\<lambda>_. 0), freelist = 0, use_lock = True, kend = 0, bufs = bufs0, idequeue = None, havedisk1 = True,
     idests = IDE_DRDY, probe1 = 1, idecmd = None, disk = (\<lambda>_. dk), wrlog = [], lg = l\<rparr>"

definition log0 :: log where
  "log0 = \<lparr>start = 2, lsize = 30, outstanding = 0, committing = False, ldev = ROOTDEV, lh_n = 0, lh_block = replicate 30 0\<rparr>"

definition disk_sb :: "u32 \<Rightarrow> u8 list" where
  "disk_sb n = (if n = 1 then wr32 (wr32 (replicate BSIZE 0) 12 30) 16 2 else replicate BSIZE 0)"

definition log_demo :: lst where
  "log_demo = (lboot disk_sb (log0\<lparr>lh_n := 1, lh_block := (replicate 30 0)[0 := 60]\<rparr>))
     \<lparr>bufs := bufs0(0 := (bufs0 0)\<lparr>flags := 6, bdev := ROOTDEV, blockno := 60, bdata := replicate BSIZE 7\<rparr>)\<rparr>"

lemma length_disk_sb: "length (disk_sb n) = BSIZE"
  by (simp add: disk_sb_def BSIZE_def)

lemma bsys_lboot: "(\<And>n. length (dk n) = BSIZE) \<Longrightarrow> bsys (lboot dk l)"
  by (simp add: bsys_def lboot_def ide_ready_def IDE_DRDY_def IDE_BSY_def IDE_DF_def IDE_ERR_def)

lemma booted_lboot: "(\<And>n. length (dk n) = BSIZE) \<Longrightarrow> booted dk (lboot dk log0)"
  using binv_boot [of "lboot dk log0"] bsys_lboot [of dk log0]
  by (simp add: booted_def lboot_def log0_def LOGSIZE_30 dblk_def)

lemma rd32_zeros: "i + 4 \<le> n \<Longrightarrow> rd32 (replicate n 0) i = 0"
  by (simp add: rd32_def)

lemma lh_ok_demo: "lh_ok (lg log_demo)" "lblks (lg log_demo) = [60]"
proof -
  show l: "lblks (lg log_demo) = [60]" by (simp add: log_demo_def lboot_def lblks_def numeral_eq_Suc)
  show "lh_ok (lg log_demo)"
    unfolding lh_ok_def l by (simp add: log_demo_def lboot_def log0_def FSSIZE_def LOGSIZE_30 region_def)
qed

lemma linv_demo: "linv log_demo {} {}"
proof -
  let ?B = "bufs0(0 := (bufs0 0)\<lparr>flags := 6, bdev := ROOTDEV, blockno := 60, bdata := replicate BSIZE 7\<rparr>)"
  have v: "bvalid (?B i) = (i = 0)" "bdirty (?B i) = (i = 0)" "bdev (?B i) = (if i = 0 then ROOTDEV else 0)" "refcnt (?B i) = 0" for i
    by (auto simp: bufs0_def zbuf_def bvalid_def bdirty_def B_VALID_def B_DIRTY_def)
  have B: "bufs log_demo = ?B" and D: "disk log_demo = (\<lambda>_. disk_sb)" and C: "core log_demo = core0"
    by (simp_all add: log_demo_def lboot_def)
  have "bsys log_demo" using bsys_lboot [OF length_disk_sb, where l = "log0\<lparr>lh_n := 1, lh_block := (replicate 30 0)[0 := 60]\<rparr>"]
    by (simp add: log_demo_def bsys_def ide_ready_def)
  moreover have "lru_ok ?B"
    using lru_bufs0 lru_list_cong [of ?B bufs0] by (simp add: lru_ok_def) blast
  moreover have "uniq ?B" unfolding uniq_def v by (simp add: ROOTDEV_def)
  moreover have "buf_ok log_demo {} {} i" for i
    using v [of i] by (cases "i = 0") (simp_all add: buf_ok_def B C)
  ultimately have b: "binv log_demo {} {}" by (simp add: binv_def B)
  have "didx log_demo = {0}" unfolding didx_def B v(2) by (auto simp: NBUF_def)
  then have "dblk log_demo = {60}" by (simp add: dblk_def B)
  moreover have "start (lg log_demo) = 2" by (simp add: log_demo_def lboot_def log0_def)
  ultimately show ?thesis
    using b lh_ok_demo by (simp add: linv_def D disk_sb_def rd32_zeros BSIZE_def)
qed


end
