(* ===== verification/Inode.thy ===== *)
theory Inode
  imports Log
begin

text \<open>
  Disk blocks and inodes: the first half of \<^verbatim>\<open>fs.c\<close>. On disk, the free map has a bit per block and the
  inode area is an array of 64-byte \<open>dinode\<close>s; in memory, \<open>icache\<close> is a table of reference-counted
  inodes with a sleep lock each. An inode pointer of the source is an index of the table.
\<close>

section \<open>Constants and types\<close>

definition NDIRECT :: nat where "NDIRECT = 12"
definition NINDIRECT :: nat where "NINDIRECT = BSIZE div 4"
definition MAXFILE :: nat where "MAXFILE = NDIRECT + NINDIRECT"
definition IPB :: nat where "IPB = BSIZE div 64"
definition BPB :: nat where "BPB = BSIZE * 8"
definition NINODE :: nat where "NINODE = 50"
definition ROOTINO :: u32 where "ROOTINO = 1"
definition T_DIR :: u16 where "T_DIR = 1"
definition T_FILE :: u16 where "T_FILE = 2"
definition T_DEV :: u16 where "T_DEV = 3"

record dinode =
  d_type :: u16
  d_major :: u16
  d_minor :: u16
  d_nlink :: u16
  d_size :: u32
  d_addrs :: "u32 list"

record inode =
  idev :: u32
  iinum :: u32
  iref :: int
  ivalid :: bool
  itype :: u16
  imajor :: u16
  iminor :: u16
  inlink :: u16
  isize :: u32
  iaddrs :: "u32 list"

record ist = lst +
  icache :: "nat \<Rightarrow> inode"
  sb :: superblock

definition upd_ino :: "nat \<Rightarrow> (inode \<Rightarrow> inode) \<Rightarrow> ('x ist_scheme, unit) sm" where
  "upd_ino ip f = modify (\<lambda>s. s\<lparr>icache := (icache s)(ip := f (icache s ip))\<rparr>)"

definition IBLOCK :: "u32 \<Rightarrow> superblock \<Rightarrow> u32" where
  "IBLOCK i b = i div of_nat IPB + sb_inodestart b"

definition BBLOCK :: "u32 \<Rightarrow> superblock \<Rightarrow> u32" where
  "BBLOCK b s = b div of_nat BPB + sb_bmapstart s"

text \<open>The on-disk inode at byte offset \<open>o\<close> of a block.\<close>

definition get_dinode :: "u8 list \<Rightarrow> nat \<Rightarrow> dinode" where
  "get_dinode x p = \<lparr>d_type = rd16 x p, d_major = rd16 x (p + 2), d_minor = rd16 x (p + 4), d_nlink = rd16 x (p + 6),
     d_size = rd32 x (p + 8), d_addrs = map (\<lambda>i. rd32 x (p + 12 + 4 * i)) [0..<NDIRECT + 1]\<rparr>"

definition put_dinode :: "u8 list \<Rightarrow> nat \<Rightarrow> dinode \<Rightarrow> u8 list" where
  "put_dinode x p d = fold (\<lambda>i y. wr32 y (p + 12 + 4 * i) (d_addrs d ! i)) [0..<NDIRECT + 1]
     (wr32 (wr16 (wr16 (wr16 (wr16 x p (d_type d)) (p + 2) (d_major d)) (p + 4) (d_minor d)) (p + 6) (d_nlink d)) (p + 8) (d_size d))"

definition zdinode :: dinode where
  "zdinode = \<lparr>d_type = 0, d_major = 0, d_minor = 0, d_nlink = 0, d_size = 0, d_addrs = replicate (NDIRECT + 1) 0\<rparr>"

section \<open>Blocks\<close>

definition bzero :: "u32 \<Rightarrow> u32 \<Rightarrow> ('x lst_scheme, unit) sm" where
  "bzero dv bno = bind (bread dv bno) (\<lambda>bp.
     bind (upd_buf bp (\<lambda>b. b\<lparr>bdata := replicate BSIZE 0\<rparr>)) (\<lambda>_.
     bind (log_write bp) (\<lambda>_.
     brelse bp)))"

definition bit_mask :: "nat \<Rightarrow> u8" where
  "bit_mask bi = push_bit (bi mod 8) 1"

definition balloc :: "u32 \<Rightarrow> ('x ist_scheme, u32) sm" where
  "balloc dv = bind (gets sb) (\<lambda>sb.
     let size = unat (sb_size sb) in
     bind (findM [0..<(size + BPB - 1) div BPB] (\<lambda>k. let b = k * BPB in
       bind (bread dv (BBLOCK (of_nat b) sb)) (\<lambda>bp.
       bind (gets (\<lambda>s. bdata (bufs s bp))) (\<lambda>d.
       case List.find (\<lambda>bi. d ! (bi div 8) AND bit_mask bi = 0) [0..<min BPB (size - b)] of
         Some bi \<Rightarrow>
           bind (upd_buf bp (\<lambda>u. u\<lparr>bdata := (bdata u)[bi div 8 := bdata u ! (bi div 8) OR bit_mask bi]\<rparr>)) (\<lambda>_.
           bind (log_write bp) (\<lambda>_.
           bind (brelse bp) (\<lambda>_.
           bind (bzero dv (of_nat (b + bi))) (\<lambda>_.
           ret (Some (of_nat (b + bi)))))))
       | None \<Rightarrow> bind (brelse bp) (\<lambda>_. ret None))))) (\<lambda>r.
     case r of Some b \<Rightarrow> ret b | None \<Rightarrow> panic ''balloc: out of blocks''))"

definition bfree :: "u32 \<Rightarrow> u32 \<Rightarrow> ('x ist_scheme, unit) sm" where
  "bfree dv b = bind (readsb dv) (\<lambda>x. bind (modify (\<lambda>s. s\<lparr>sb := x\<rparr>)) (\<lambda>_.
     bind (bread dv (BBLOCK b x)) (\<lambda>bp.
     let bi = unat b mod BPB in
     bind (gets (\<lambda>s. bdata (bufs s bp))) (\<lambda>d.
     if d ! (bi div 8) AND bit_mask bi = 0 then panic ''freeing free block'' else
     bind (upd_buf bp (\<lambda>u. u\<lparr>bdata := (bdata u)[bi div 8 := bdata u ! (bi div 8) AND NOT (bit_mask bi)]\<rparr>)) (\<lambda>_.
     bind (log_write bp) (\<lambda>_.
     brelse bp))))))"

section \<open>The inode cache\<close>

definition iinit :: "u32 \<Rightarrow> ('x ist_scheme, unit) sm" where
  "iinit dv = bind (initlock IcacheLk) (\<lambda>_.
     bind (forM [0..<NINODE] (\<lambda>i. initsleeplock (InoL i))) (\<lambda>_.
     bind (readsb dv) (\<lambda>x. bind (modify (\<lambda>s. s\<lparr>sb := x\<rparr>)) (\<lambda>_.
     cprintf (bytes ''sb: size %d nblocks %d ninodes %d nlog %d logstart %d inodestart %d bmap start %d'' @ [10])
       [Word (sb_size x), Word (sb_nblocks x), Word (sb_ninodes x), Word (sb_nlog x), Word (sb_logstart x),
        Word (sb_inodestart x), Word (sb_bmapstart x)]))))"

definition iget :: "u32 \<Rightarrow> u32 \<Rightarrow> ('x ist_scheme, nat) sm" where
  "iget dv inum = bind (acquire IcacheLk) (\<lambda>_. bind (gets icache) (\<lambda>c.
     case List.find (\<lambda>i. iref (c i) > 0 \<and> idev (c i) = dv \<and> iinum (c i) = inum) [0..<NINODE] of
       Some ip \<Rightarrow>
         bind (upd_ino ip (\<lambda>x. x\<lparr>iref := iref x + 1\<rparr>)) (\<lambda>_.
         bind (release IcacheLk) (\<lambda>_. ret ip))
     | None \<Rightarrow>
        (case List.find (\<lambda>i. iref (c i) = 0) [0..<NINODE] of
           None \<Rightarrow> panic ''iget: no inodes''
         | Some ip \<Rightarrow>
             bind (upd_ino ip (\<lambda>x. x\<lparr>idev := dv, iinum := inum, iref := 1, ivalid := False\<rparr>)) (\<lambda>_.
             bind (release IcacheLk) (\<lambda>_. ret ip)))))"

definition ialloc :: "u32 \<Rightarrow> u16 \<Rightarrow> ('x ist_scheme, nat) sm" where
  "ialloc dv ty = bind (gets sb) (\<lambda>sb.
     bind (findM [1..<unat (sb_ninodes sb)] (\<lambda>inum.
       bind (bread dv (IBLOCK (of_nat inum) sb)) (\<lambda>bp.
       let p = 64 * (inum mod IPB) in
       bind (gets (\<lambda>s. get_dinode (bdata (bufs s bp)) p)) (\<lambda>dip.
       if d_type dip = 0 then
         bind (upd_buf bp (\<lambda>u. u\<lparr>bdata := put_dinode (bdata u) p (zdinode\<lparr>d_type := ty\<rparr>)\<rparr>)) (\<lambda>_.
         bind (log_write bp) (\<lambda>_.
         bind (brelse bp) (\<lambda>_.
         bind (iget dv (of_nat inum)) (\<lambda>ip. ret (Some ip)))))
       else bind (brelse bp) (\<lambda>_. ret None))))) (\<lambda>r.
     case r of Some ip \<Rightarrow> ret ip | None \<Rightarrow> panic ''ialloc: no inodes''))"

definition dinode_of :: "inode \<Rightarrow> dinode" where
  "dinode_of i = \<lparr>d_type = itype i, d_major = imajor i, d_minor = iminor i, d_nlink = inlink i, d_size = isize i, d_addrs = iaddrs i\<rparr>"

definition iupdate :: "nat \<Rightarrow> ('x ist_scheme, unit) sm" where
  "iupdate ip = bind (gets (\<lambda>s. (icache s ip, sb s))) (\<lambda>(i, sb).
     bind (bread (idev i) (IBLOCK (iinum i) sb)) (\<lambda>bp.
     bind (upd_buf bp (\<lambda>u. u\<lparr>bdata := put_dinode (bdata u) (64 * (unat (iinum i) mod IPB)) (dinode_of i)\<rparr>)) (\<lambda>_.
     bind (log_write bp) (\<lambda>_.
     brelse bp))))"

definition idup :: "nat \<Rightarrow> ('x ist_scheme, nat) sm" where
  "idup ip = bind (acquire IcacheLk) (\<lambda>_.
     bind (upd_ino ip (\<lambda>x. x\<lparr>iref := iref x + 1\<rparr>)) (\<lambda>_.
     bind (release IcacheLk) (\<lambda>_. ret ip)))"

definition ilock :: "nat \<Rightarrow> ('x ist_scheme, unit) sm" where
  "ilock ip = bind (gets (\<lambda>s. iref (icache s ip))) (\<lambda>r.
     if r < 1 then panic ''ilock'' else
     bind (acquiresleep (InoL ip)) (\<lambda>_.
     bind (gets (\<lambda>s. (icache s ip, sb s))) (\<lambda>(i, sb).
     whenM (\<not> ivalid i)
       (bind (bread (idev i) (IBLOCK (iinum i) sb)) (\<lambda>bp.
        bind (gets (\<lambda>s. get_dinode (bdata (bufs s bp)) (64 * (unat (iinum i) mod IPB)))) (\<lambda>d.
        bind (upd_ino ip (\<lambda>x. x\<lparr>itype := d_type d, imajor := d_major d, iminor := d_minor d, inlink := d_nlink d,
               isize := d_size d, iaddrs := d_addrs d\<rparr>)) (\<lambda>_.
        bind (brelse bp) (\<lambda>_.
        bind (upd_ino ip (\<lambda>x. x\<lparr>ivalid := True\<rparr>)) (\<lambda>_.
        whenM (d_type d = 0) (panic ''ilock: no type''))))))))))"

definition iunlock :: "nat \<Rightarrow> ('x ist_scheme, unit) sm" where
  "iunlock ip = bind (holdingsleep (InoL ip)) (\<lambda>h.
     bind (gets (\<lambda>s. iref (icache s ip))) (\<lambda>r.
     if \<not> h \<or> r < 1 then panic ''iunlock'' else releasesleep (InoL ip)))"

section \<open>Inode content\<close>

definition bmap :: "nat \<Rightarrow> u32 \<Rightarrow> ('x ist_scheme, u32) sm" where
  "bmap ip bn = bind (gets (\<lambda>s. icache s ip)) (\<lambda>i.
     if unat bn < NDIRECT then
       (let addr = iaddrs i ! unat bn in
        if addr = 0 then
          bind (balloc (idev i)) (\<lambda>a.
          bind (upd_ino ip (\<lambda>x. x\<lparr>iaddrs := (iaddrs x)[unat bn := a]\<rparr>)) (\<lambda>_. ret a))
        else ret addr)
     else (let n = unat bn - NDIRECT in
     if n < NINDIRECT then
       bind (if iaddrs i ! NDIRECT = 0 then
               bind (balloc (idev i)) (\<lambda>a.
               bind (upd_ino ip (\<lambda>x. x\<lparr>iaddrs := (iaddrs x)[NDIRECT := a]\<rparr>)) (\<lambda>_. ret a))
             else ret (iaddrs i ! NDIRECT)) (\<lambda>ia.
       bind (bread (idev i) ia) (\<lambda>bp.
       bind (gets (\<lambda>s. rd32 (bdata (bufs s bp)) (4 * n))) (\<lambda>addr.
       bind (if addr = 0 then
               bind (balloc (idev i)) (\<lambda>a.
               bind (upd_buf bp (\<lambda>u. u\<lparr>bdata := wr32 (bdata u) (4 * n) a\<rparr>)) (\<lambda>_.
               bind (log_write bp) (\<lambda>_. ret a)))
             else ret addr) (\<lambda>a.
       bind (brelse bp) (\<lambda>_. ret a)))))
     else panic ''bmap: out of range''))"

definition itrunc :: "nat \<Rightarrow> ('x ist_scheme, unit) sm" where
  "itrunc ip =
     bind (forM [0..<NDIRECT] (\<lambda>i.
       bind (gets (\<lambda>s. icache s ip)) (\<lambda>x.
       whenM (iaddrs x ! i \<noteq> 0)
         (bind (bfree (idev x) (iaddrs x ! i)) (\<lambda>_.
          upd_ino ip (\<lambda>x. x\<lparr>iaddrs := (iaddrs x)[i := 0]\<rparr>)))))) (\<lambda>_.
     bind (gets (\<lambda>s. icache s ip)) (\<lambda>x.
     bind (whenM (iaddrs x ! NDIRECT \<noteq> 0)
       (bind (bread (idev x) (iaddrs x ! NDIRECT)) (\<lambda>bp.
        bind (forM [0..<NINDIRECT] (\<lambda>j.
          bind (gets (\<lambda>s. rd32 (bdata (bufs s bp)) (4 * j))) (\<lambda>a.
          whenM (a \<noteq> 0) (bfree (idev x) a)))) (\<lambda>_.
        bind (brelse bp) (\<lambda>_.
        bind (bfree (idev x) (iaddrs x ! NDIRECT)) (\<lambda>_.
        upd_ino ip (\<lambda>x. x\<lparr>iaddrs := (iaddrs x)[NDIRECT := 0]\<rparr>))))))) (\<lambda>_.
     bind (upd_ino ip (\<lambda>x. x\<lparr>isize := 0\<rparr>)) (\<lambda>_.
     iupdate ip))))"

definition iput :: "nat \<Rightarrow> ('x ist_scheme, unit) sm" where
  "iput ip = bind (acquiresleep (InoL ip)) (\<lambda>_.
     bind (gets (\<lambda>s. icache s ip)) (\<lambda>i.
     bind (whenM (ivalid i \<and> inlink i = 0)
       (bind (with_lock IcacheLk (gets (\<lambda>s. iref (icache s ip)))) (\<lambda>r.
        whenM (r = 1)
          (bind (itrunc ip) (\<lambda>_.
           bind (upd_ino ip (\<lambda>x. x\<lparr>itype := 0\<rparr>)) (\<lambda>_.
           bind (iupdate ip) (\<lambda>_.
           upd_ino ip (\<lambda>x. x\<lparr>ivalid := False\<rparr>)))))))) (\<lambda>_.
     bind (releasesleep (InoL ip)) (\<lambda>_.
     bind (acquire IcacheLk) (\<lambda>_.
     bind (upd_ino ip (\<lambda>x. x\<lparr>iref := iref x - 1\<rparr>)) (\<lambda>_.
     release IcacheLk))))))"

definition iunlockput :: "nat \<Rightarrow> ('x ist_scheme, unit) sm" where
  "iunlockput ip = bind (iunlock ip) (\<lambda>_. iput ip)"

record stat =
  st_type :: u16
  st_dev :: u32
  st_ino :: u32
  st_nlink :: u16
  st_size :: u32

definition stati :: "nat \<Rightarrow> ('x ist_scheme, stat) sm" where
  "stati ip = gets (\<lambda>s. let i = icache s ip in
     \<lparr>st_type = itype i, st_dev = idev i, st_ino = iinum i, st_nlink = inlink i, st_size = isize i\<rparr>)"

end
