(* ===== verification/Fs.thy ===== *)
theory Fs
  imports Inode
begin

text \<open>
  Files, devices, directories and path names: the second half of \<^verbatim>\<open>fs.c\<close>, and \<open>consoleread\<close> and
  \<open>consolewrite\<close> of \<^verbatim>\<open>console.c\<close>, which lock inodes. Data that the C code copies to or from a caller's buffer is
  a list of bytes here: \<open>readi\<close> returns the bytes it stores, \<open>writei\<close> takes the bytes it reads. A C string is
  the list of its bytes before the NUL.
\<close>

section \<open>Devices\<close>

text \<open>The device switch: the console is the only driver of the kernel.\<close>

datatype driver = ConsoleDev

record fss = ist +
  devsw :: "nat \<Rightarrow> driver option"

definition NDEV :: nat where "NDEV = 10"
definition CONSOLE :: nat where "CONSOLE = 1"

definition consoleinit :: "('x fss_scheme, unit) sm" where
  "consoleinit = bind (initlock ConsLk) (\<lambda>_.
     bind (modify (\<lambda>s. s\<lparr>devsw := (devsw s)(CONSOLE \<mapsto> ConsoleDev)\<rparr>)) (\<lambda>_.
     upd_cns (\<lambda>k. k\<lparr>locking := True\<rparr>)))"

text \<open>
  \<open>consoleread\<close> from the top of its loop, with its locals as arguments: the bytes stored so far and the
  number still wanted. A reader that sleeps goes on with the locals that \<open>cons_take\<close> leaves.
\<close>

definition consoleread_loop :: "nat \<Rightarrow> nat \<Rightarrow> u8 list \<Rightarrow> nat \<Rightarrow> ('x fss_scheme, int \<times> u8 list) sm" where
  "consoleread_loop ip target acc n = bind (acquire ConsLk) (\<lambda>_.
     bind (gets cns) (\<lambda>k.
     case cons_take target n acc k of (k', acc', n', done) \<Rightarrow>
     bind (upd_cns (\<lambda>_. k')) (\<lambda>_.
     if done then
       bind (release ConsLk) (\<lambda>_. bind (ilock ip) (\<lambda>_. ret (int (target - n'), acc')))
     else bind myproc (\<lambda>p.
       case p of None \<Rightarrow> fault ''consoleread: no process'' | Some j \<Rightarrow>
       bind (gets (\<lambda>s. killed (procs (core s) ! j))) (\<lambda>kd.
       if kd then bind (release ConsLk) (\<lambda>_. bind (ilock ip) (\<lambda>_. ret (- 1, acc')))
       else sleep ChInput ConsLk)))))"

definition consoleread :: "nat \<Rightarrow> nat \<Rightarrow> ('x fss_scheme, int \<times> u8 list) sm" where
  "consoleread ip n = bind (iunlock ip) (\<lambda>_. consoleread_loop ip n [] n)"

definition consolewrite :: "nat \<Rightarrow> u8 list \<Rightarrow> ('x fss_scheme, int) sm" where
  "consolewrite ip bs = bind (iunlock ip) (\<lambda>_.
     bind (acquire ConsLk) (\<lambda>_.
     bind (forM bs (\<lambda>c. consputc (ucast c))) (\<lambda>_.
     bind (release ConsLk) (\<lambda>_.
     bind (ilock ip) (\<lambda>_.
     ret (int (length bs)))))))"

section \<open>Reading and writing files\<close>

definition driver_of :: "('x fss_scheme) \<Rightarrow> inode \<Rightarrow> driver option" where
  "driver_of s i = (if sint (imajor i) < 0 \<or> int NDEV \<le> sint (imajor i) then None else devsw s (unat (imajor i)))"

definition chunk :: "u32 \<Rightarrow> nat \<Rightarrow> nat" where
  "chunk off n = min n (BSIZE - unat off mod BSIZE)"

lemma chunk_pos: "0 < n \<Longrightarrow> 0 < chunk off n"
  by (simp add: chunk_def BSIZE_def)

function readi_loop :: "nat \<Rightarrow> u32 \<Rightarrow> nat \<Rightarrow> ('x fss_scheme, u8 list) sm" where
  "readi_loop ip off n = (if n = 0 then ret []
     else bind (bmap ip (off div of_nat BSIZE)) (\<lambda>a.
       bind (gets (\<lambda>s. idev (icache s ip))) (\<lambda>dv.
       bind (bread dv a) (\<lambda>bp.
       bind (gets (\<lambda>s. take (chunk off n) (drop (unat off mod BSIZE) (bdata (bufs s bp))))) (\<lambda>bs.
       bind (brelse bp) (\<lambda>_.
       bind (readi_loop ip (off + of_nat (chunk off n)) (n - chunk off n)) (\<lambda>rest.
       ret (bs @ rest))))))))"
  by pat_completeness auto
termination by (relation "measure (\<lambda>(ip, off, n). n)") (use chunk_pos in auto)

declare readi_loop.simps [simp del]

definition readi :: "nat \<Rightarrow> u32 \<Rightarrow> u32 \<Rightarrow> ('x fss_scheme, int \<times> u8 list) sm" where
  "readi ip off n = bind (gets (\<lambda>s. icache s ip)) (\<lambda>i.
     if itype i = T_DEV then
       bind (gets (\<lambda>s. driver_of s i)) (\<lambda>d. case d of None \<Rightarrow> ret (- 1, []) | Some ConsoleDev \<Rightarrow> consoleread ip (nat (sint n)))
     else if off > isize i \<or> off + n < off then ret (- 1, [])
     else let n = (if off + n > isize i then isize i - off else n) in
       bind (readi_loop ip off (unat n)) (\<lambda>bs. ret (sint n, bs)))"

function writei_loop :: "nat \<Rightarrow> u32 \<Rightarrow> u8 list \<Rightarrow> ('x fss_scheme, unit) sm" where
  "writei_loop ip off src = (if src = [] then ret ()
     else bind (bmap ip (off div of_nat BSIZE)) (\<lambda>a.
       bind (gets (\<lambda>s. idev (icache s ip))) (\<lambda>dv.
       bind (bread dv a) (\<lambda>bp.
       let m = chunk off (length src) in
       bind (upd_buf bp (\<lambda>u. u\<lparr>bdata := splice (bdata u) (unat off mod BSIZE) (take m src)\<rparr>)) (\<lambda>_.
       bind (log_write bp) (\<lambda>_.
       bind (brelse bp) (\<lambda>_.
       writei_loop ip (off + of_nat m) (drop m src))))))))"
  by pat_completeness auto
termination by (relation "measure (\<lambda>(ip, off, src). length src)") (use chunk_pos in auto)

declare writei_loop.simps [simp del]

definition writei :: "nat \<Rightarrow> u8 list \<Rightarrow> u32 \<Rightarrow> ('x fss_scheme, int) sm" where
  "writei ip src off = bind (gets (\<lambda>s. icache s ip)) (\<lambda>i.
     let n = of_nat (length src) :: u32 in
     if itype i = T_DEV then
       bind (gets (\<lambda>s. driver_of s i)) (\<lambda>d. case d of None \<Rightarrow> ret (- 1) | Some ConsoleDev \<Rightarrow> consolewrite ip src)
     else if off > isize i \<or> off + n < off then ret (- 1)
     else if off + n > of_nat (MAXFILE * BSIZE) then ret (- 1)
     else bind (writei_loop ip off src) (\<lambda>_.
       bind (gets (\<lambda>s. isize (icache s ip))) (\<lambda>sz.
       bind (whenM (n > 0 \<and> off + n > sz) (bind (upd_ino ip (\<lambda>x. x\<lparr>isize := off + n\<rparr>)) (\<lambda>_. iupdate ip))) (\<lambda>_.
       ret (sint n)))))"

section \<open>Directories\<close>

definition DIRSIZ :: nat where "DIRSIZ = 14"

text \<open>\<open>strncmp\<close> and \<open>strncpy\<close> on byte lists; past its end a list goes on with the NUL.\<close>

fun strncmp_l :: "nat \<Rightarrow> u8 list \<Rightarrow> u8 list \<Rightarrow> int" where
  "strncmp_l 0 p q = 0"
| "strncmp_l (Suc n) p q = (let c = (if p = [] then 0 else hd p); d = (if q = [] then 0 else hd q) in
     if c \<noteq> 0 \<and> c = d then strncmp_l n (tl p) (tl q) else uint c - uint d)"

definition strncpy_l :: "nat \<Rightarrow> u8 list \<Rightarrow> u8 list" where
  "strncpy_l n t = (let u = take n (takeWhile (\<lambda>c. c \<noteq> 0) t) in u @ replicate (n - length u) 0)"

definition namecmp :: "u8 list \<Rightarrow> u8 list \<Rightarrow> int" where
  "namecmp s t = strncmp_l DIRSIZ s t"

definition de_inum :: "u8 list \<Rightarrow> u16" where "de_inum de = rd16 de 0"
definition de_name :: "u8 list \<Rightarrow> u8 list" where "de_name de = take DIRSIZ (drop 2 de)"

definition dirlookup :: "nat \<Rightarrow> u8 list \<Rightarrow> ('x fss_scheme, (nat \<times> u32) option) sm" where
  "dirlookup dp name = bind (gets (\<lambda>s. icache s dp)) (\<lambda>d.
     if itype d \<noteq> T_DIR then panic ''dirlookup not DIR'' else
     findM [0..<(unat (isize d) + 15) div 16] (\<lambda>k. let off = of_nat (16 * k) in
       bind (readi dp off 16) (\<lambda>(r, de).
       if r \<noteq> 16 then panic ''dirlookup read''
       else if de_inum de = 0 then ret None
       else if namecmp name (de_name de) = 0 then
         bind (iget (idev d) (ucast (de_inum de))) (\<lambda>ip. ret (Some (ip, off)))
       else ret None)))"

definition dirlink :: "nat \<Rightarrow> u8 list \<Rightarrow> u32 \<Rightarrow> ('x fss_scheme, int) sm" where
  "dirlink dp name inum = bind (dirlookup dp name) (\<lambda>r.
     case r of Some (ip, _) \<Rightarrow> bind (iput ip) (\<lambda>_. ret (- 1))
     | None \<Rightarrow>
       bind (gets (\<lambda>s. unat (isize (icache s dp)))) (\<lambda>size.
       bind (findM [0..<(size + 15) div 16] (\<lambda>k. let off = of_nat (16 * k) in
         bind (readi dp off 16) (\<lambda>(r, de).
         if r \<noteq> 16 then panic ''dirlink read'' else ret (if de_inum de = 0 then Some off else None)))) (\<lambda>f.
       let off = (case f of Some off \<Rightarrow> off | None \<Rightarrow> of_nat (16 * ((size + 15) div 16))) in
       bind (writei dp (le16 (ucast inum) @ strncpy_l DIRSIZ name) off) (\<lambda>r.
       if r \<noteq> 16 then panic ''dirlink'' else ret 0))))"

section \<open>Path names\<close>

abbreviation slash :: u8 where
  "slash \<equiv> 47"

text \<open>\<open>skipelem\<close>: the rest of the path and the element, cut to \<open>DIRSIZ\<close> bytes; \<open>None\<close> is the null pointer.\<close>

definition skipelem :: "u8 list \<Rightarrow> (u8 list \<times> u8 list) option" where
  "skipelem path = (let path = dropWhile (\<lambda>c. c = slash) path in
     if path = [] then None
     else let s = takeWhile (\<lambda>c. c \<noteq> slash) path; path = dropWhile (\<lambda>c. c \<noteq> slash) path in
       Some (dropWhile (\<lambda>c. c = slash) path, take DIRSIZ s))"

lemma skipelem_shorter: "skipelem path = Some (rest, name) \<Longrightarrow> length rest < length path"
proof -
  assume *: "skipelem path = Some (rest, name)"
  let ?p = "dropWhile (\<lambda>c. c = slash) path"
  have ne: "?p \<noteq> []" and r: "rest = dropWhile (\<lambda>c. c = slash) (dropWhile (\<lambda>c. c \<noteq> slash) ?p)"
    using * by (auto simp: skipelem_def Let_def split: if_splits)
  then obtain c q where q: "?p = c # q" by (cases ?p) auto
  then have "c \<noteq> slash" using hd_dropWhile [OF ne] by simp
  then have "length (dropWhile (\<lambda>c. c \<noteq> slash) ?p) < length ?p"
    using q length_dropWhile_le [of "\<lambda>c. c \<noteq> slash" q] by simp
  moreover have "length rest \<le> length (dropWhile (\<lambda>c. c \<noteq> slash) ?p)" unfolding r by (rule length_dropWhile_le)
  moreover have "length ?p \<le> length path" by (rule length_dropWhile_le)
  ultimately show ?thesis by simp
qed

text \<open>The loop of \<open>namex\<close> from inode \<open>ip\<close>. The result is the inode, and the last element for \<open>nameiparent\<close>.\<close>

function namex_loop :: "u8 list \<Rightarrow> bool \<Rightarrow> nat \<Rightarrow> ('x fss_scheme, (nat \<times> u8 list) option) sm" where
  "namex_loop path par ip = (case skipelem path of
     None \<Rightarrow> if par then bind (iput ip) (\<lambda>_. ret None) else ret (Some (ip, []))
   | Some (rest, name) \<Rightarrow>
       bind (ilock ip) (\<lambda>_.
       bind (gets (\<lambda>s. itype (icache s ip))) (\<lambda>ty.
       if ty \<noteq> T_DIR then bind (iunlockput ip) (\<lambda>_. ret None)
       else if par \<and> rest = [] then bind (iunlock ip) (\<lambda>_. ret (Some (ip, name)))
       else bind (dirlookup ip name) (\<lambda>r.
         case r of None \<Rightarrow> bind (iunlockput ip) (\<lambda>_. ret None)
         | Some (nxt, _) \<Rightarrow> bind (iunlockput ip) (\<lambda>_. namex_loop rest par nxt)))))"
  by pat_completeness auto
termination by (relation "measure (\<lambda>(path, par, ip). length path)") (auto dest: skipelem_shorter)

declare namex_loop.simps [simp del]

definition namex :: "u8 list \<Rightarrow> bool \<Rightarrow> ('x fss_scheme, (nat \<times> u8 list) option) sm" where
  "namex path par = bind
     (if path \<noteq> [] \<and> hd path = slash then iget ROOTDEV ROOTINO
      else bind myproc (\<lambda>p. case p of None \<Rightarrow> fault ''namex: no process'' | Some j \<Rightarrow>
        bind (gets (\<lambda>s. cwd (procs (core s) ! j))) (\<lambda>c. case c of None \<Rightarrow> fault ''namex: no cwd'' | Some ip \<Rightarrow> idup ip)))
     (namex_loop path par)"

definition namei :: "u8 list \<Rightarrow> ('x fss_scheme, nat option) sm" where
  "namei path = bind (namex path False) (\<lambda>r. ret (map_option fst r))"

definition nameiparent :: "u8 list \<Rightarrow> ('x fss_scheme, (nat \<times> u8 list) option) sm" where
  "nameiparent path = namex path True"

end
