(* ===== verification/Pipe.thy ===== *)
theory Pipe
  imports Fs
begin

text \<open>
  Pipes and the file table, \<^verbatim>\<open>pipe.c\<close> and \<^verbatim>\<open>file.c\<close>. A pipe is the content of the page it is allocated in and is
  named by the address of the page; a \<open>struct file\<close> pointer is an index of \<open>ftable\<close>. The loops of \<open>pipewrite\<close> and
  \<open>piperead\<close> are split at their sleeps: \<open>pipe_put\<close> and \<open>pipe_get\<close> are what they do to the ring between two sleeps.

  The lemmas show that the ring is a first-in first-out queue of at most \<open>PIPESIZE\<close> bytes, whatever the counters
  are, and that what a reader gets is what the writers put in, in order.
\<close>

section \<open>State\<close>

definition PIPESIZE :: nat where "PIPESIZE = 512"
definition NFILE :: nat where "NFILE = 100"

record pipe =
  pdata :: "u8 list"
  nread :: u32
  nwrite :: u32
  readopen :: bool
  writeopen :: bool

datatype ftype = FD_NONE | FD_PIPE | FD_INODE

record "file" =
  ftype :: ftype
  fref :: int
  readable :: bool
  writable :: bool
  fpipe :: u32
  fip :: nat
  foff :: u32

record pst = fss +
  pipes :: "u32 \<Rightarrow> pipe"
  ftable :: "nat \<Rightarrow> file"

definition upd_pipe :: "u32 \<Rightarrow> (pipe \<Rightarrow> pipe) \<Rightarrow> ('x pst_scheme, unit) sm" where
  "upd_pipe p f = modify (\<lambda>s. s\<lparr>pipes := (pipes s)(p := f (pipes s p))\<rparr>)"

definition upd_file :: "nat \<Rightarrow> (file \<Rightarrow> file) \<Rightarrow> ('x pst_scheme, unit) sm" where
  "upd_file f g = modify (\<lambda>s. s\<lparr>ftable := (ftable s)(f := g (ftable s f))\<rparr>)"

section \<open>The ring of a pipe\<close>

fun pipe_put :: "pipe \<Rightarrow> u8 list \<Rightarrow> pipe \<times> u8 list" where
  "pipe_put p [] = (p, [])"
| "pipe_put p (c # cs) = (if nwrite p = nread p + of_nat PIPESIZE then (p, c # cs)
     else pipe_put (p\<lparr>pdata := (pdata p)[slot PIPESIZE (nwrite p) := c], nwrite := nwrite p + 1\<rparr>) cs)"

primrec pipe_get :: "nat \<Rightarrow> pipe \<Rightarrow> pipe \<times> u8 list" where
  "pipe_get 0 p = (p, [])"
| "pipe_get (Suc n) p = (if nread p = nwrite p then (p, [])
     else let c = pdata p ! slot PIPESIZE (nread p); (q, cs) = pipe_get n (p\<lparr>nread := nread p + 1\<rparr>) in (q, c # cs))"

section \<open>Pipe operations\<close>

definition am_killed :: "('x pst_scheme, bool) sm" where
  "am_killed = bind myproc (\<lambda>p. case p of None \<Rightarrow> fault ''no process'' | Some j \<Rightarrow> gets (\<lambda>s. killed (procs (core s) ! j)))"

text \<open>\<open>pipewrite\<close> from the top of its loop: \<open>bs\<close> is what is left to write of the \<open>n\<close> bytes.\<close>

definition pipewrite_from :: "u32 \<Rightarrow> u8 list \<Rightarrow> int \<Rightarrow> ('x pst_scheme, int) sm" where
  "pipewrite_from p bs n = bind (acquire (PipeLk p)) (\<lambda>_.
     bind (gets (\<lambda>s. pipes s p)) (\<lambda>pp.
     case pipe_put pp bs of (pp', rest) \<Rightarrow>
     bind (upd_pipe p (\<lambda>_. pp')) (\<lambda>_.
     if rest = [] then
       bind (wakeup (ChNread p)) (\<lambda>_. bind (release (PipeLk p)) (\<lambda>_. ret n))
     else bind am_killed (\<lambda>kd.
       if \<not> readopen pp' \<or> kd then bind (release (PipeLk p)) (\<lambda>_. ret (- 1))
       else bind (wakeup (ChNread p)) (\<lambda>_. sleep (ChNwrite p) (PipeLk p))))))"

definition pipewrite :: "u32 \<Rightarrow> u8 list \<Rightarrow> ('x pst_scheme, int) sm" where
  "pipewrite p bs = pipewrite_from p bs (int (length bs))"

definition piperead :: "u32 \<Rightarrow> nat \<Rightarrow> ('x pst_scheme, int \<times> u8 list) sm" where
  "piperead p n = bind (acquire (PipeLk p)) (\<lambda>_.
     bind (gets (\<lambda>s. pipes s p)) (\<lambda>pp.
     if nread pp = nwrite pp \<and> writeopen pp then
       bind am_killed (\<lambda>kd.
       if kd then bind (release (PipeLk p)) (\<lambda>_. ret (- 1, []))
       else sleep (ChNread p) (PipeLk p))
     else case pipe_get n pp of (pp', bs) \<Rightarrow>
       bind (upd_pipe p (\<lambda>_. pp')) (\<lambda>_.
       bind (wakeup (ChNwrite p)) (\<lambda>_.
       bind (release (PipeLk p)) (\<lambda>_.
       ret (int (length bs), bs))))))"

definition pipeclose :: "u32 \<Rightarrow> bool \<Rightarrow> ('x pst_scheme, unit) sm" where
  "pipeclose p wr = bind (acquire (PipeLk p)) (\<lambda>_.
     bind (if wr then bind (upd_pipe p (\<lambda>q. q\<lparr>writeopen := False\<rparr>)) (\<lambda>_. wakeup (ChNread p))
           else bind (upd_pipe p (\<lambda>q. q\<lparr>readopen := False\<rparr>)) (\<lambda>_. wakeup (ChNwrite p))) (\<lambda>_.
     bind (gets (\<lambda>s. pipes s p)) (\<lambda>q.
     if \<not> readopen q \<and> \<not> writeopen q then bind (release (PipeLk p)) (\<lambda>_. kfree p)
     else release (PipeLk p))))"

section \<open>The file table\<close>

definition fileinit :: "('x pst_scheme, unit) sm" where
  "fileinit = initlock FtableLk"

definition filealloc :: "('x pst_scheme, nat option) sm" where
  "filealloc = bind (acquire FtableLk) (\<lambda>_.
     bind (gets (\<lambda>s. List.find (\<lambda>f. fref (ftable s f) = 0) [0..<NFILE])) (\<lambda>r.
     bind (case r of None \<Rightarrow> ret () | Some f \<Rightarrow> upd_file f (\<lambda>x. x\<lparr>fref := 1\<rparr>)) (\<lambda>_.
     bind (release FtableLk) (\<lambda>_. ret r))))"

definition filedup :: "nat \<Rightarrow> ('x pst_scheme, nat) sm" where
  "filedup f = bind (acquire FtableLk) (\<lambda>_.
     bind (gets (\<lambda>s. fref (ftable s f))) (\<lambda>r.
     if r < 1 then panic ''filedup'' else
     bind (upd_file f (\<lambda>x. x\<lparr>fref := fref x + 1\<rparr>)) (\<lambda>_.
     bind (release FtableLk) (\<lambda>_. ret f))))"

definition fileclose :: "nat \<Rightarrow> ('x pst_scheme, unit) sm" where
  "fileclose f = bind (acquire FtableLk) (\<lambda>_.
     bind (gets (\<lambda>s. fref (ftable s f))) (\<lambda>r.
     if r < 1 then panic ''fileclose'' else
     bind (upd_file f (\<lambda>x. x\<lparr>fref := fref x - 1\<rparr>)) (\<lambda>_.
     if r - 1 > 0 then release FtableLk else
     bind (gets (\<lambda>s. ftable s f)) (\<lambda>ff.
     bind (upd_file f (\<lambda>x. x\<lparr>fref := 0, ftype := FD_NONE\<rparr>)) (\<lambda>_.
     bind (release FtableLk) (\<lambda>_.
     if ftype ff = FD_PIPE then pipeclose (fpipe ff) (writable ff)
     else if ftype ff = FD_INODE then
       bind begin_op (\<lambda>_. bind (iput (fip ff)) (\<lambda>_. end_op))
     else ret ()))))))"

definition pipealloc :: "('x pst_scheme, (nat \<times> nat) option) sm" where
  "pipealloc = bind filealloc (\<lambda>f0.
     case f0 of None \<Rightarrow> ret None | Some f0 \<Rightarrow>
     bind filealloc (\<lambda>f1.
     case f1 of None \<Rightarrow> bind (fileclose f0) (\<lambda>_. ret None) | Some f1 \<Rightarrow>
     bind kalloc (\<lambda>p.
     if p = 0 then bind (fileclose f0) (\<lambda>_. bind (fileclose f1) (\<lambda>_. ret None)) else
     bind (upd_pipe p (\<lambda>q. q\<lparr>readopen := True, writeopen := True, nwrite := 0, nread := 0\<rparr>)) (\<lambda>_.
     bind (initlock (PipeLk p)) (\<lambda>_.
     bind (upd_file f0 (\<lambda>x. x\<lparr>ftype := FD_PIPE, readable := True, writable := False, fpipe := p\<rparr>)) (\<lambda>_.
     bind (upd_file f1 (\<lambda>x. x\<lparr>ftype := FD_PIPE, readable := False, writable := True, fpipe := p\<rparr>)) (\<lambda>_.
     ret (Some (f0, f1)))))))))"

definition filestat :: "nat \<Rightarrow> ('x pst_scheme, stat option) sm" where
  "filestat f = bind (gets (\<lambda>s. ftable s f)) (\<lambda>x.
     if ftype x = FD_INODE then
       bind (ilock (fip x)) (\<lambda>_. bind (stati (fip x)) (\<lambda>st. bind (iunlock (fip x)) (\<lambda>_. ret (Some st))))
     else ret None)"

definition fileread :: "nat \<Rightarrow> u32 \<Rightarrow> ('x pst_scheme, int \<times> u8 list) sm" where
  "fileread f n = bind (gets (\<lambda>s. ftable s f)) (\<lambda>x.
     if \<not> readable x then ret (- 1, [])
     else if ftype x = FD_PIPE then piperead (fpipe x) (nat (sint n))
     else if ftype x = FD_INODE then
       bind (ilock (fip x)) (\<lambda>_.
       bind (readi (fip x) (foff x) n) (\<lambda>(r, bs).
       bind (whenM (r > 0) (upd_file f (\<lambda>y. y\<lparr>foff := foff y + of_int r\<rparr>))) (\<lambda>_.
       bind (iunlock (fip x)) (\<lambda>_. ret (r, bs)))))
     else panic ''fileread'')"

definition write_max :: nat where
  "write_max = nat (((LOGSIZE - 1 - 1 - 2) div 2) * 512)"

text \<open>The loop of \<open>filewrite\<close>: \<open>False\<close> when a write failed.\<close>

function filewrite_loop :: "nat \<Rightarrow> u8 list \<Rightarrow> ('x pst_scheme, bool) sm" where
  "filewrite_loop f bs = (if bs = [] then ret True
     else let n1 = min (length bs) write_max in
       bind (gets (\<lambda>s. ftable s f)) (\<lambda>x.
       bind begin_op (\<lambda>_.
       bind (ilock (fip x)) (\<lambda>_.
       bind (writei (fip x) (take n1 bs) (foff x)) (\<lambda>r.
       bind (whenM (r > 0) (upd_file f (\<lambda>y. y\<lparr>foff := foff y + of_int r\<rparr>))) (\<lambda>_.
       bind (iunlock (fip x)) (\<lambda>_.
       bind end_op (\<lambda>_.
       if r < 0 then ret False
       else if r \<noteq> int n1 then panic ''short filewrite''
       else filewrite_loop f (drop n1 bs)))))))))"
  by pat_completeness auto
termination by (relation "measure (\<lambda>(f, bs). length bs)") (auto simp: write_max_def LOGSIZE_def MAXOPBLOCKS_def)

declare filewrite_loop.simps [simp del]

definition filewrite :: "nat \<Rightarrow> u8 list \<Rightarrow> ('x pst_scheme, int) sm" where
  "filewrite f bs = bind (gets (\<lambda>s. ftable s f)) (\<lambda>x.
     if \<not> writable x then ret (- 1)
     else if ftype x = FD_PIPE then pipewrite (fpipe x) bs
     else if ftype x = FD_INODE then bind (filewrite_loop f bs) (\<lambda>ok. ret (if ok then int (length bs) else - 1))
     else panic ''filewrite'')"

section \<open>Pipes are queues\<close>

interpretation pring: ring_buffer PIPESIZE
  by unfold_locales (simp_all add: PIPESIZE_def)

definition pipe_ok :: "pipe \<Rightarrow> bool" where
  "pipe_ok p \<longleftrightarrow> length (pdata p) = PIPESIZE \<and> unat (nwrite p - nread p) \<le> PIPESIZE"

definition pipe_queue :: "pipe \<Rightarrow> u8 list" where
  "pipe_queue p = content PIPESIZE (pdata p) (nread p) (unat (nwrite p - nread p))"

lemma length_pipe_queue [simp]: "length (pipe_queue p) = unat (nwrite p - nread p)"
  by (simp add: pipe_queue_def)

lemma pipe_full_iff: "nwrite p = nread p + of_nat PIPESIZE \<longleftrightarrow> unat (nwrite p - nread p) = PIPESIZE"
proof -
  have "nwrite p = nread p + of_nat PIPESIZE \<longleftrightarrow> nwrite p - nread p = of_nat PIPESIZE" by (auto simp: algebra_simps)
  also have "\<dots> \<longleftrightarrow> unat (nwrite p - nread p) = unat (of_nat PIPESIZE :: u32)" by (simp only: word_unat_eq_iff)
  also have "unat (of_nat PIPESIZE :: u32) = PIPESIZE" by (simp add: PIPESIZE_def)
  finally show ?thesis .
qed

lemma pipe_put_queue:
  "pipe_ok p \<Longrightarrow> pipe_put p bs = (p', rest) \<Longrightarrow>
   pipe_ok p' \<and> nread p' = nread p \<and> readopen p' = readopen p \<and> writeopen p' = writeopen p \<and>
   pipe_queue p' = pipe_queue p @ take (PIPESIZE - length (pipe_queue p)) bs \<and> rest = drop (PIPESIZE - length (pipe_queue p)) bs"
proof (induction p bs rule: pipe_put.induct)
  case (2 p c cs)
  show ?case
  proof (cases "nwrite p = nread p + of_nat PIPESIZE")
    case True
    then show ?thesis using 2(2,3) by (simp add: pipe_full_iff)
  next
    case False
    let ?q = "p\<lparr>pdata := (pdata p)[slot PIPESIZE (nwrite p) := c], nwrite := nwrite p + 1\<rparr>"
    have n: "unat (nwrite p - nread p) < PIPESIZE" using False 2(2) by (simp add: pipe_full_iff pipe_ok_def)
    then have s: "unat (nwrite p + 1 - nread p) = Suc (unat (nwrite p - nread p))"
      by (intro unat_Suc_diff) (simp add: PIPESIZE_def)
    have w: "nread p + of_nat (unat (nwrite p - nread p)) = nwrite p" by simp
    have q: "pipe_queue ?q = pipe_queue p @ [c]"
      using pring.content_push [OF n, of "pdata p" "nread p" c] 2(2) s by (simp add: pipe_queue_def pipe_ok_def w)
    have "pipe_ok ?q" using 2(2) n s by (simp add: pipe_ok_def)
    moreover obtain m where m: "PIPESIZE - unat (nwrite p - nread p) = Suc m" using n by (metis Suc_diff_Suc)
    moreover have "PIPESIZE - Suc (unat (nwrite p - nread p)) = m" using m by simp
    ultimately show ?thesis using 2(1) [OF False] 2(3) False q s by simp
  qed
qed simp

lemma pipe_get_queue:
  "pipe_ok p \<Longrightarrow> pipe_get n p = (p', bs) \<Longrightarrow>
   pipe_ok p' \<and> bs = take n (pipe_queue p) \<and> pipe_queue p' = drop n (pipe_queue p)"
proof (induction n arbitrary: p bs)
  case (Suc n)
  show ?case
  proof (cases "nread p = nwrite p")
    case True
    then show ?thesis using Suc.prems by (simp add: pipe_queue_def)
  next
    case False
    let ?q = "p\<lparr>nread := nread p + 1\<rparr>"
    have z: "0 < unat (nwrite p - nread p)" using False by (simp add: unat_gt_0)
    have e: "nwrite p - (nread p + 1) = nwrite p - nread p - 1" by simp
    have s: "unat (nwrite p - (nread p + 1)) = unat (nwrite p - nread p) - 1"
      unfolding e using z by (subst unat_minus_one) auto
    have q: "pipe_queue p = pdata p ! slot PIPESIZE (nread p) # pipe_queue ?q"
      using pring.content_Suc [of "pdata p" "nread p" "unat (nwrite p - nread p) - 1"] z s by (simp add: pipe_queue_def)
    have "pipe_ok ?q" using Suc.prems(1) s by (auto simp: pipe_ok_def)
    with Suc.IH [of ?q] Suc.prems(2) False q show ?thesis by (auto simp: Let_def split: prod.splits)
  qed
qed simp

lemma queue_empty_iff: "pipe_queue p = [] \<longleftrightarrow> nread p = nwrite p"
proof -
  have "pipe_queue p = [] \<longleftrightarrow> unat (nwrite p - nread p) = 0" by (metis length_0_conv length_pipe_queue)
  then show ?thesis by (metis unat_eq_zero right_minus_eq)
qed

text \<open>The state after an operation on pipe \<open>p\<close> that wakes the sleepers on a channel.\<close>

definition pipe_post :: "u32 \<Rightarrow> pipe \<Rightarrow> chan \<Rightarrow> 'x pst_scheme \<Rightarrow> 'x pst_scheme" where
  "pipe_post p pp ch s = s\<lparr>pipes := (pipes s)(p := pp),
     core := set_sp (slp (core s)) (woken ch (procs (core s))) (popped (core s))\<rparr>"

definition pipe_idle :: "u32 \<Rightarrow> 'x pst_scheme \<Rightarrow> bool" where
  "pipe_idle p s \<longleftrightarrow> lk_ok (core s) \<and> slk (core s) (PipeLk p) = free_lk \<and> slk (core s) PtableLk = free_lk"

lemma locked_wakeup_wp:
  assumes "pipe_idle p s" and "core t = acquired (PipeLk p) (core s)"
    and "Q (t\<lparr>core := set_sp (slp (core s)) (woken ch (procs (core s))) (popped (core s))\<rparr>)"
  shows "wp (wakeup ch) (\<lambda>_. wp (release (PipeLk p)) (\<lambda>_. Q)) t"
proof -
  have i: "lk_ok (core s)" "slk (core s) (PipeLk p) = free_lk" "slk (core s) PtableLk = free_lk"
    using assms(1) by (simp_all add: pipe_idle_def)
  let ?c = "set_sp (slp (core s)) (woken ch (procs (core s))) (acquired (PipeLk p) (core s))"
  have "wp (release (PipeLk p)) (\<lambda>_. Q) (t\<lparr>core := ?c\<rparr>)"
    by (subst wp_release_acquired [OF _ i(1,2), of _ "slp (core s)" "woken ch (procs (core s))"]) (simp_all add: assms(3))
  then show ?thesis
    by (intro wakeup_wp) (simp_all add: assms(2) i)
qed

lemma piperead_wp:
  assumes "pipe_idle p s" and "pipe_ok (pipes s p)" and "pipe_queue (pipes s p) \<noteq> [] \<or> \<not> writeopen (pipes s p)"
    and "\<And>pp. pipe_get n (pipes s p) = (pp, take n (pipe_queue (pipes s p))) \<Longrightarrow>
      Q (int (length (take n (pipe_queue (pipes s p)))), take n (pipe_queue (pipes s p))) (pipe_post p pp (ChNwrite p) s)"
  shows "wp (piperead p n) Q s"
proof -
  obtain pp bs where g: "pipe_get n (pipes s p) = (pp, bs)" by (cases "pipe_get n (pipes s p)")
  have bs: "bs = take n (pipe_queue (pipes s p))" using pipe_get_queue [OF assms(2) g] by simp
  have i: "lk_ok (core s)" "slk (core s) (PipeLk p) = free_lk" using assms(1) by (simp_all add: pipe_idle_def)
  have q: "Q (int (length bs), bs) (pipe_post p pp (ChNwrite p) s)" using assms(4) [of pp] g bs by simp
  show ?thesis
    unfolding piperead_def
    apply (simp add: wp_bind wp_acquire_free [OF i] wp_gets g upd_pipe_def wp_modify wp_ret)
    apply (intro conjI impI)
     apply (use assms(3) queue_empty_iff in auto)[1]
    apply (rule locked_wakeup_wp [OF assms(1)])
     apply simp
    using q by (simp add: pipe_post_def)
qed

lemma pipewrite_wp:
  assumes "pipe_idle p s" and "pipe_ok (pipes s p)" and "length (pipe_queue (pipes s p)) + length bs \<le> PIPESIZE"
    and "\<And>pp. pipe_put (pipes s p) bs = (pp, []) \<Longrightarrow> Q (int (length bs)) (pipe_post p pp (ChNread p) s)"
  shows "wp (pipewrite p bs) Q s"
proof -
  obtain pp rest where g: "pipe_put (pipes s p) bs = (pp, rest)" by (cases "pipe_put (pipes s p) bs")
  have r: "rest = []" using pipe_put_queue [OF assms(2) g] assms(3) by simp
  have i: "lk_ok (core s)" "slk (core s) (PipeLk p) = free_lk" using assms(1) by (simp_all add: pipe_idle_def)
  have q: "Q (int (length bs)) (pipe_post p pp (ChNread p) s)" using assms(4) [of pp] g r by simp
  show ?thesis
    unfolding pipewrite_def pipewrite_from_def
    apply (simp add: wp_bind wp_acquire_free [OF i] wp_gets g r upd_pipe_def wp_modify wp_ret)
    apply (rule locked_wakeup_wp [OF assms(1)])
     apply simp
    using q by (simp add: pipe_post_def)
qed

section \<open>Interleaved writers and readers\<close>

text \<open>
  Writers and readers of one pipe take turns in any order, each holding the lock from one sleep to the next.
  \<open>pipe_run\<close> collects the bytes that have gone in and the bytes that have come out.
\<close>

datatype pipe_op = Put "u8 list" | Get nat

fun pipe_run :: "pipe_op list \<Rightarrow> pipe \<times> u8 list \<times> u8 list \<Rightarrow> pipe \<times> u8 list \<times> u8 list" where
  "pipe_run [] st = st"
| "pipe_run (Put bs # ops) (p, w, r) = (let (p', rest) = pipe_put p bs in
     pipe_run ops (p', w @ take (length bs - length rest) bs, r))"
| "pipe_run (Get n # ops) (p, w, r) = (let (p', bs) = pipe_get n p in pipe_run ops (p', w, r @ bs))"

lemma pipe_run_fifo:
  "pipe_ok p \<Longrightarrow> w = r @ pipe_queue p \<Longrightarrow> pipe_run ops (p, w, r) = (p', w', r') \<Longrightarrow> pipe_ok p' \<and> w' = r' @ pipe_queue p'"
proof (induction ops arbitrary: p w r)
  case (Cons op ops)
  show ?case
  proof (cases op)
    case (Put bs)
    obtain q rest where q: "pipe_put p bs = (q, rest)" by (cases "pipe_put p bs")
    let ?k = "PIPESIZE - length (pipe_queue p)"
    have s: "pipe_ok q" "pipe_queue q = pipe_queue p @ take ?k bs" "rest = drop ?k bs"
      using pipe_put_queue [OF Cons.prems(1) q] by auto
    have "take (length bs - length rest) bs = take ?k bs" using s(3) by (cases "?k \<le> length bs") auto
    with Cons s q Put show ?thesis by simp
  next
    case (Get n)
    obtain q bs where q: "pipe_get n p = (q, bs)" by (cases "pipe_get n p")
    have s: "pipe_ok q" "bs = take n (pipe_queue p)" "pipe_queue q = drop n (pipe_queue p)"
      using pipe_get_queue [OF Cons.prems(1) q] by auto
    have "w = (r @ bs) @ pipe_queue q" using s Cons.prems(2) by simp
    from Cons.IH [OF s(1) this] show ?thesis using Cons.prems(3) q Get by simp
  qed
qed simp

section \<open>Properties\<close>

text \<open>
  C10. A pipe is a bounded first-in first-out queue. However writers and readers interleave, the bytes written
  so far are the bytes read so far followed by the bytes in the ring, at most \<open>PIPESIZE\<close> of them; the 32-bit
  counters may start anywhere and wrap.
\<close>

theorem pipe_fifo:
  assumes "length d = PIPESIZE"
    and "pipe_run ops (\<lparr>pdata = d, nread = k, nwrite = k, readopen = ro, writeopen = wo\<rparr>, [], []) = (p, w, r)"
  shows "w = r @ content PIPESIZE (pdata p) (nread p) (unat (nwrite p - nread p)) \<and> unat (nwrite p - nread p) \<le> PIPESIZE"
proof -
  let ?p = "\<lparr>pdata = d, nread = k, nwrite = k, readopen = ro, writeopen = wo\<rparr>"
  have "pipe_ok ?p" "pipe_queue ?p = []" using assms(1) by (simp_all add: pipe_ok_def pipe_queue_def)
  with pipe_run_fifo [OF _ _ assms(2)] show ?thesis by (simp add: pipe_ok_def pipe_queue_def)
qed

theorem pipe_fifo_witness:
  "let (p, w, r) = pipe_run [Put [1, 2, 3], Get 2, Put [4]]
      (\<lparr>pdata = replicate 512 0, nread = 0xFFFFFFFF, nwrite = 0xFFFFFFFF, readopen = True, writeopen = True\<rparr>, [], []) in
   w = r @ content PIPESIZE (pdata p) (nread p) (unat (nwrite p - nread p))"
proof -
  obtain p w r where e: "pipe_run [Put [1, 2, 3], Get 2, Put [4]]
      (\<lparr>pdata = replicate 512 0, nread = 0xFFFFFFFF, nwrite = 0xFFFFFFFF, readopen = True, writeopen = True\<rparr>, [], []) = (p, w, r)"
    by (metis prod_cases3)
  show ?thesis unfolding e Let_def prod.case using pipe_fifo [OF _ e] by (simp add: PIPESIZE_def)
qed

text \<open>
  C11. \<open>piperead\<close> on a pipe with data, or whose write end is closed, returns at once: the first \<open>n\<close> bytes of the
  queue, or as many as there are; they leave the queue, and every sleeping writer becomes runnable.
\<close>

theorem piperead_returns:
  assumes "quiet (core s)" and "pipe_ok (pipes s p)" and "pipe_queue (pipes s p) \<noteq> [] \<or> \<not> writeopen (pipes s p)"
  shows "\<exists>bs t. piperead p n s = Ret (int (length bs), bs) t \<and> bs = take n (pipe_queue (pipes s p)) \<and>
    pipe_queue (pipes t p) = drop n (pipe_queue (pipes s p)) \<and> pipe_ok (pipes t p) \<and>
    (\<forall>i<length (procs (core s)). state (procs (core s) ! i) = SLEEPING \<and> chan (procs (core s) ! i) = Some (ChNwrite p)
       \<longrightarrow> state (procs (core t) ! i) = RUNNABLE)"
proof -
  have i: "pipe_idle p s" using assms(1) by (simp add: pipe_idle_def quiet_def)
  have "wp (piperead p n) (\<lambda>r t. \<exists>bs. r = (int (length bs), bs) \<and> bs = take n (pipe_queue (pipes s p)) \<and>
    pipe_queue (pipes t p) = drop n (pipe_queue (pipes s p)) \<and> pipe_ok (pipes t p) \<and>
    (\<forall>i<length (procs (core s)). state (procs (core s) ! i) = SLEEPING \<and> chan (procs (core s) ! i) = Some (ChNwrite p)
       \<longrightarrow> state (procs (core t) ! i) = RUNNABLE)) s"
  proof (rule piperead_wp [OF i assms(2,3)])
    fix pp assume "pipe_get n (pipes s p) = (pp, take n (pipe_queue (pipes s p)))"
    with pipe_get_queue [OF assms(2) this] show "\<exists>bs. (int (length (take n (pipe_queue (pipes s p)))), take n (pipe_queue (pipes s p))) = (int (length bs), bs) \<and>
      bs = take n (pipe_queue (pipes s p)) \<and>
      pipe_queue (pipes (pipe_post p pp (ChNwrite p) s) p) = drop n (pipe_queue (pipes s p)) \<and> pipe_ok (pipes (pipe_post p pp (ChNwrite p) s) p) \<and>
      (\<forall>i<length (procs (core s)). state (procs (core s) ! i) = SLEEPING \<and> chan (procs (core s) ! i) = Some (ChNwrite p)
       \<longrightarrow> state (procs (core (pipe_post p pp (ChNwrite p) s)) ! i) = RUNNABLE)"
      by (simp add: pipe_post_def woken_def)
  qed
  then show ?thesis unfolding wp_iff by auto
qed

text \<open>A machine with an idle file system and given pipes, one process running.\<close>

definition inode0 :: inode where
  "inode0 = \<lparr>idev = 0, iinum = 0, iref = 0, ivalid = False, itype = 0, imajor = 0, iminor = 0, inlink = 0, isize = 0, iaddrs = replicate 13 0\<rparr>"

definition file0 :: "file" where
  "file0 = \<lparr>ftype = FD_NONE, fref = 0, readable = False, writable = False, fpipe = 0, fip = 0, foff = 0\<rparr>"

definition pipe0 :: "u8 list \<Rightarrow> pipe" where
  "pipe0 bs = \<lparr>pdata = bs @ replicate (512 - length bs) 0, nread = 0, nwrite = of_nat (length bs), readopen = True, writeopen = True\<rparr>"

definition pboot :: "(u32 \<Rightarrow> u8 list) \<Rightarrow> (u32 \<Rightarrow> pipe) \<Rightarrow> pst" where
  "pboot dk ps = \<lparr>core = core0, cns = console0, mmu = mmu0, mem = (\<lambda>_. 0), freelist = 0, use_lock = True, kend = 0,
     bufs = bufs0, idequeue = None, havedisk1 = True, idests = IDE_DRDY, probe1 = 1, idecmd = None, disk = (\<lambda>_. dk), wrlog = [],
     lg = log0, icache = (\<lambda>_. inode0), sb = \<lparr>sb_size = 1000, sb_nblocks = 941, sb_ninodes = 200, sb_nlog = 30, sb_logstart = 2,
       sb_inodestart = 32, sb_bmapstart = 58\<rparr>, devsw = [1 \<mapsto> ConsoleDev], pipes = ps, ftable = (\<lambda>_. file0)\<rparr>"

lemma pboot_sel [simp]: "core (pboot dk ps) = core0" "pipes (pboot dk ps) = ps"
  by (simp_all add: pboot_def)

theorem piperead_returns_witness:
  "\<exists>t. piperead 0x80200000 2 (pboot disk_sb (\<lambda>_. pipe0 [5, 6, 7])) = Ret (2, [5, 6]) t"
proof -
  let ?s = "pboot disk_sb (\<lambda>_. pipe0 [5, 6, 7])"
  have q: "pipe_queue (pipe0 [5, 6, 7]) = [5, 6, 7]"
    by (simp add: pipe0_def pipe_queue_def content_def slot_def PIPESIZE_def upt_rec)
  have "pipe_ok (pipe0 [5, 6, 7])" by (simp add: pipe0_def pipe_ok_def PIPESIZE_def)
  with piperead_returns [where s = ?s and p = "0x80200000" and n = 2] q show ?thesis by (auto simp: numeral_2_eq_2)
qed

end
