(* ===== verification/Dirs.thy ===== *)
theory Dirs
  imports Pipe
begin

text \<open>
  On-disk inodes, cached inodes, directory entries and path names: the properties of the data structures of \<^verbatim>\<open>fs.c\<close>. An
  inode block is an array of inodes (the contract \<open>packed\<close>), \<open>iget\<close> keeps one cache entry per inode, a directory entry is found
  under the name it was linked with, and \<open>skipelem\<close> takes a path apart at its slashes.
\<close>

section \<open>Inode blocks\<close>

definition dinode_ok :: "dinode \<Rightarrow> bool" where
  "dinode_ok d \<longleftrightarrow> length (d_addrs d) = NDIRECT + 1"

lemma put_dinode_facts:
  assumes "dinode_ok d" and "p + 64 \<le> length x"
  shows "length (put_dinode x p d) = length x" and "get_dinode (put_dinode x p d) p = d"
    and "\<And>j. j < length x \<Longrightarrow> j < p \<or> p + 64 \<le> j \<Longrightarrow> put_dinode x p d ! j = x ! j"
proof -
  define h where "h = wr32 (wr16 (wr16 (wr16 (wr16 x p (d_type d)) (p + 2) (d_major d)) (p + 4) (d_minor d)) (p + 6) (d_nlink d)) (p + 8) (d_size d)"
  have put: "put_dinode x p d = fold (\<lambda>i y. wr32 y (p + 12 + 4 * i) (d_addrs d ! i)) [0..<NDIRECT + 1] h"
    by (simp only: put_dinode_def h_def)
  have lh: "length h = length x" using assms(2) by (simp add: h_def)
  have b: "p + 12 + 4 * (NDIRECT + 1) \<le> length h" using assms(2) lh by (simp add: NDIRECT_def)
  note w = words.store_all [where f = "\<lambda>i. d_addrs d ! i" and b = "p + 12" and n = "NDIRECT + 1" and xs = h, OF TrueI b, folded put]
  show "length (put_dinode x p d) = length x" using w(1) lh by simp
  have low: "put_dinode x p d ! j = h ! j" if "j < length x" "j < p + 12 \<or> p + 64 \<le> j" for j
    using w(3) [of j] that lh by (auto simp: NDIRECT_def add.commute)
  show "put_dinode x p d ! j = x ! j" if "j < length x" "j < p \<or> p + 64 \<le> j" for j
    using low [of j] that assms(2) by (auto simp: h_def wr16_def wr32_def nth_splice)
  have r16: "rd16 (put_dinode x p d) i = rd16 h i" if "i + 2 \<le> p + 12" for i
    using low [of i] low [of "i + 1"] that assms(2) by (intro rd16_cong) simp_all
  have r32: "rd32 (put_dinode x p d) (p + 8) = rd32 h (p + 8)"
    by (rule rd32_cong) (use low assms(2) in auto)
  have "map (\<lambda>i. rd32 (put_dinode x p d) (p + 12 + 4 * i)) [0..<NDIRECT + 1] = map (\<lambda>i. d_addrs d ! i) [0..<NDIRECT + 1]"
    using w(2) by (intro map_cong) auto
  also have "\<dots> = d_addrs d" using assms(1) by (metis dinode_ok_def map_nth)
  finally have "d_addrs (get_dinode (put_dinode x p d) p) = d_addrs d" by (simp add: get_dinode_def del: upt_Suc)
  moreover have "rd16 h p = d_type d" "rd16 h (p + 2) = d_major d" "rd16 h (p + 4) = d_minor d" "rd16 h (p + 6) = d_nlink d" "rd32 h (p + 8) = d_size d"
    using assms(2) by (simp_all add: h_def le_simps)
  ultimately show "get_dinode (put_dinode x p d) p = d"
    using r16 [of p] r16 [of "p + 2"] r16 [of "p + 4"] r16 [of "p + 6"] r32 by (simp add: get_dinode_def del: upt_Suc add_2_eq_Suc')
qed

interpretation dinodes: packed put_dinode get_dinode 64 dinode_ok
proof unfold_locales
  show "(\<And>k. k < 64 \<Longrightarrow> xs ! (i + k) = ys ! (j + k)) \<Longrightarrow> get_dinode xs i = get_dinode ys j" for xs i ys j
  proof -
    assume e: "\<And>k. k < 64 \<Longrightarrow> xs ! (i + k) = ys ! (j + k)"
    have r16: "rd16 xs (i + k) = rd16 ys (j + k)" if "k + 2 \<le> 64" for k
      using e [of k] e [of "k + 1"] that by (intro rd16_cong) (simp_all add: add.assoc)
    have r32: "rd32 xs (i + k) = rd32 ys (j + k)" if "k + 4 \<le> 64" for k
      by (rule rd32_cong) (use e that in \<open>simp add: add.assoc\<close>)
    have "map (\<lambda>k. rd32 xs (i + 12 + 4 * k)) [0..<NDIRECT + 1] = map (\<lambda>k. rd32 ys (j + 12 + 4 * k)) [0..<NDIRECT + 1]"
      using r32 by (intro map_cong) (simp_all add: NDIRECT_def add.assoc)
    then show ?thesis
      using r16 [of 0] r16 [of 2] r16 [of 4] r16 [of 6] r32 [of 8] by (simp add: get_dinode_def del: upt_Suc add_2_eq_Suc')
  qed
qed (use put_dinode_facts in simp_all)



section \<open>The inode cache\<close>

text \<open>Every entry in use stands for a different inode.\<close>

definition in_use :: "inode \<Rightarrow> u32 \<Rightarrow> u32 \<Rightarrow> bool" where
  "in_use i dv inum \<longleftrightarrow> iref i > 0 \<and> idev i = dv \<and> iinum i = inum"

definition icache_ok :: "(nat \<Rightarrow> inode) \<Rightarrow> bool" where
  "icache_ok c \<longleftrightarrow> (\<forall>i<NINODE. 0 \<le> iref (c i)) \<and>
     (\<forall>i<NINODE. \<forall>j<NINODE. \<forall>dv inum. in_use (c i) dv inum \<longrightarrow> in_use (c j) dv inum \<longrightarrow> i = j)"

lemma release_eq:
  assumes "core s = acquired l c" and "lk_ok c" and "slk c l = free_lk"
  shows "release l s = Ret () (s\<lparr>core := popped c\<rparr>)"
  using wp_release [OF assms, where Q = "\<lambda>_ t. t = s\<lparr>core := popped c\<rparr>"] by (auto simp: wp_iff)

text \<open>
  C24. One cache entry per inode. \<open>iget\<close> keeps the invariant that the entries in use stand for different inodes: it returns the
  entry in use for the inode when there is one, with one more reference, and otherwise an unused entry, whose content
  is marked as not yet read. It changes no other entry, and panics exactly when every entry is in use for another inode.
\<close>

theorem iget_one_entry:
  assumes "quiet (core s)" and "icache_ok (icache s)"
  shows "case iget dv inum s of
      Ret ip t \<Rightarrow> ip < NINODE \<and> icache_ok (icache t) \<and> in_use (icache t ip) dv inum \<and> (\<forall>i. i \<noteq> ip \<longrightarrow> icache t i = icache s i) \<and>
        (if in_use (icache s ip) dv inum then icache t ip = (icache s ip)\<lparr>iref := iref (icache s ip) + 1\<rparr>
         else (\<forall>i<NINODE. \<not> in_use (icache s i) dv inum) \<and> iref (icache s ip) = 0 \<and> iref (icache t ip) = 1 \<and> \<not> ivalid (icache t ip))
    | Panic _ \<Rightarrow> \<forall>i<NINODE. iref (icache s i) > 0 \<and> \<not> in_use (icache s i) dv inum
    | _ \<Rightarrow> False"
proof -
  let ?c = "icache s"
  have q: "lk_ok (core s)" "slk (core s) IcacheLk = free_lk" using assms(1) by (simp_all add: quiet_def)
  have st: "iget dv inum s = (case List.find (\<lambda>i. in_use (?c i) dv inum) [0..<NINODE] of
      Some ip \<Rightarrow> Ret ip (s\<lparr>icache := ?c(ip := (?c ip)\<lparr>iref := iref (?c ip) + 1\<rparr>), core := popped (core s)\<rparr>)
    | None \<Rightarrow> (case List.find (\<lambda>i. iref (?c i) = 0) [0..<NINODE] of None \<Rightarrow> Panic ''iget: no inodes''
      | Some ip \<Rightarrow> Ret ip (s\<lparr>icache := ?c(ip := (?c ip)\<lparr>idev := dv, iinum := inum, iref := 1, ivalid := False\<rparr>), core := popped (core s)\<rparr>)))"
    using q by (simp add: iget_def bind_def acquire_free gets_def upd_ino_def modify_def panic_def ret_def in_use_def release_eq [where c = "core s"] split: option.split)
  show ?thesis
  proof (cases "List.find (\<lambda>i. in_use (?c i) dv inum) [0..<NINODE]")
    case (Some ip)
    note f = find_upt_Some [OF Some]
    have "icache_ok (?c(ip := (?c ip)\<lparr>iref := iref (?c ip) + 1\<rparr>))"
      (is "icache_ok ?d")
    proof -
      have "in_use (?d i) d n = in_use (?c i) d n" for i d n using f by (auto simp: in_use_def)
      moreover have "0 \<le> iref (?d i)" if "i < NINODE" for i using assms(2) that by (auto simp: icache_ok_def)
      ultimately show ?thesis using assms(2) by (simp add: icache_ok_def)
    qed
    then show ?thesis using Some f by (simp add: st in_use_def)
  next
    case None
    then have n: "\<forall>i<NINODE. \<not> in_use (?c i) dv inum" by (auto simp: find_None_iff)
    show ?thesis
    proof (cases "List.find (\<lambda>i. iref (?c i) = 0) [0..<NINODE]")
      case (Some ip)
      note f = find_upt_Some [OF Some]
      have "icache_ok (?c(ip := (?c ip)\<lparr>idev := dv, iinum := inum, iref := 1, ivalid := False\<rparr>))"
        using assms(2) f n unfolding icache_ok_def in_use_def by auto
      then show ?thesis using Some None f n by (simp add: st in_use_def)
    next
      case None2: None
      then have "\<forall>i<NINODE. iref (?c i) > 0" using assms(2) by (auto simp: find_None_iff icache_ok_def order_le_less)
      then show ?thesis using None None2 n by (simp add: st)
    qed
  qed
qed

theorem iget_one_entry_witness:
  "\<exists>ip t. iget 1 7 (pboot disk_sb (\<lambda>_. pipe0 [])) = Ret ip t \<and> in_use (icache t ip) 1 7 \<and> icache_ok (icache t)"
proof -
  let ?s = "pboot disk_sb (\<lambda>_. pipe0 [])"
  have c: "icache ?s i = inode0" for i by (simp add: pboot_def)
  have "icache_ok (icache ?s)" by (simp add: icache_ok_def c inode0_def in_use_def)
  moreover have "0 < NINODE" by (simp add: NINODE_def)
  ultimately show ?thesis using iget_one_entry [of ?s 1 7] quiet_core0 c
    by (cases "iget 1 7 ?s") (auto simp: inode0_def)
qed

section \<open>Names in directories\<close>

definition cname :: "u8 list \<Rightarrow> u8 list" where
  "cname t = take DIRSIZ (takeWhile (\<lambda>c. c \<noteq> 0) t)"

lemma strncmp_l_eq: "strncmp_l n p q = 0 \<longleftrightarrow> take n (takeWhile (\<lambda>c. c \<noteq> 0) p) = take n (takeWhile (\<lambda>c. c \<noteq> 0) q)"
proof (induction n arbitrary: p q)
  case (Suc n)
  show ?case by (cases p; cases q) (auto simp: Let_def Suc.IH word_uint_eq_iff)
qed simp

lemma cname_strncpy: "cname (strncpy_l DIRSIZ t) = cname t"
proof -
  have "takeWhile (\<lambda>c. c \<noteq> 0) (take n (takeWhile (\<lambda>c. c \<noteq> 0) t) @ replicate m 0) = take n (takeWhile (\<lambda>c. c \<noteq> 0) t)" for n m
    by (subst takeWhile_append2) (auto dest: in_set_takeD set_takeWhileD simp: takeWhile_replicate)
  then show ?thesis by (simp add: cname_def strncpy_l_def Let_def)
qed


section \<open>Path names\<close>

fun split_on :: "'a \<Rightarrow> 'a list \<Rightarrow> 'a list list" where
  "split_on c [] = [[]]"
| "split_on c (x # xs) = (if x = c then [] # split_on c xs else (x # hd (split_on c xs)) # tl (split_on c xs))"

definition components :: "u8 list \<Rightarrow> u8 list list" where
  "components path = filter (\<lambda>n. n \<noteq> []) (split_on slash path)"

text \<open>The names the loop of \<open>namex\<close> looks up, one after the other.\<close>

function path_elems :: "u8 list \<Rightarrow> u8 list list" where
  "path_elems path = (case skipelem path of None \<Rightarrow> [] | Some (rest, name) \<Rightarrow> name # path_elems rest)"
  by pat_completeness auto
termination by (relation "measure length") (auto dest: skipelem_shorter)

declare path_elems.simps [simp del]

lemma split_on_nonempty [simp]: "split_on c xs \<noteq> []"
  by (induction xs) auto

lemma components_slash: "components (dropWhile (\<lambda>c. c = slash) path) = components path"
  by (induction path) (auto simp: components_def)

lemma split_on_takeWhile: "split_on c xs = takeWhile (\<lambda>x. x \<noteq> c) xs # (case dropWhile (\<lambda>x. x \<noteq> c) xs of [] \<Rightarrow> [] | _ # ys \<Rightarrow> split_on c ys)"
  by (induction xs) auto

lemma components_step:
  assumes "path \<noteq> []" and "hd path \<noteq> slash"
  shows "components path = takeWhile (\<lambda>c. c \<noteq> slash) path # components (dropWhile (\<lambda>c. c \<noteq> slash) path)"
proof -
  have ne: "takeWhile (\<lambda>c. c \<noteq> slash) path \<noteq> []" using assms by (cases path) auto
  show ?thesis
  proof (cases "dropWhile (\<lambda>c. c \<noteq> slash) path")
    case Nil
    with ne show ?thesis unfolding components_def split_on_takeWhile [of slash path] by (simp del: dropWhile_eq_Nil_conv)
  next
    case (Cons c ys)
    then have "c = slash" using hd_dropWhile [of "\<lambda>c. c \<noteq> slash" path] by simp
    with ne Cons show ?thesis unfolding components_def split_on_takeWhile [of slash path] by simp
  qed
qed

text \<open>
  C27. Taking paths apart. The elements that repeated \<open>skipelem\<close> finds are the nonempty pieces of the path between slashes, in order,
  each cut to \<open>DIRSIZ\<close> characters: slashes at either end and repeated slashes do not matter.
\<close>

theorem path_elems_components: "path_elems path = map (take DIRSIZ) (filter (\<lambda>n. n \<noteq> []) (split_on slash path))"
proof -
  have "path_elems path = map (take DIRSIZ) (components path)"
  proof (induction path rule: path_elems.induct)
    case (1 path)
    let ?p = "dropWhile (\<lambda>c. c = slash) path"
    show ?case
    proof (cases "?p = []")
      case True
      then have "components path = components []" using components_slash [of path] by metis
      then have "components path = []" by (simp add: components_def)
      then show ?thesis using True by (simp add: path_elems.simps [of path] skipelem_def)
    next
      case False
      let ?r = "dropWhile (\<lambda>c. c = slash) (dropWhile (\<lambda>c. c \<noteq> slash) ?p)"
      have sk: "skipelem path = Some (?r, take DIRSIZ (takeWhile (\<lambda>c. c \<noteq> slash) ?p))"
        using False by (simp add: skipelem_def Let_def)
      have "components path = takeWhile (\<lambda>c. c \<noteq> slash) ?p # components ?r"
        using components_slash [of path] components_step [of ?p] components_slash [of "dropWhile (\<lambda>c. c \<noteq> slash) ?p"] False hd_dropWhile [OF False] by simp
      then show ?thesis using 1 [OF sk refl] sk by (simp add: path_elems.simps [of path])
    qed
  qed
  then show ?thesis by (simp add: components_def)
qed

end
