(* ===== verification/Proc.thy ===== *)
theory Proc
  imports Pipe Vm
begin

text \<open>
  Processes and the scheduler, \<^verbatim>\<open>proc.c\<close>. The trap frame of a process and the saved instruction pointer of its context
  are fields of its table entry; the words of the kernel stack below them are not modelled. A switch to the
  scheduler ends a thread's run with \<open>Wait\<close>; \<open>scheduler\<close> takes what the chosen process does until it switches
  back as a parameter. A name is the list of its bytes before the NUL.
\<close>

section \<open>State\<close>

record prst = pst +
  first :: bool

definition pinit :: "('x prst_scheme, unit) sm" where
  "pinit = initlock PtableLk"

definition set_state :: "nat \<Rightarrow> procstate \<Rightarrow> ('x, unit) kk" where
  "set_state i st = upd_proc i (\<lambda>p. p\<lparr>state := st\<rparr>)"

section \<open>Creating processes\<close>

definition allocproc :: "('x prst_scheme, nat option) sm" where
  "allocproc = bind (acquire PtableLk) (\<lambda>_.
     bind (gets (\<lambda>s. List.find (\<lambda>i. state (procs (core s) ! i) = UNUSED) [0..<NPROC])) (\<lambda>r.
     case r of None \<Rightarrow> bind (release PtableLk) (\<lambda>_. ret None)
     | Some i \<Rightarrow>
       bind (set_state i EMBRYO) (\<lambda>_.
       bind (gets (\<lambda>s. nextpid (core s))) (\<lambda>n.
       bind (upd_proc i (\<lambda>p. p\<lparr>pid := n\<rparr>)) (\<lambda>_.
       bind (upd_core (\<lambda>c. c\<lparr>nextpid := n + 1\<rparr>)) (\<lambda>_.
       bind (release PtableLk) (\<lambda>_.
       bind kalloc (\<lambda>k.
       bind (upd_proc i (\<lambda>p. p\<lparr>kstack := k\<rparr>)) (\<lambda>_.
       if k = 0 then bind (set_state i UNUSED) (\<lambda>_. ret None)
       else bind (gets (\<lambda>s. kforkret (mmu s))) (\<lambda>e.
         bind (upd_proc i (\<lambda>p. p\<lparr>ctx_eip := e\<rparr>)) (\<lambda>_. ret (Some i))))))))))))"

definition ztf_user :: trapframe where
  "ztf_user = ztf\<lparr>r_cs := of_nat (SEG_UCODE * 8) OR of_nat DPL_USER, r_ds := of_nat (SEG_UDATA * 8) OR of_nat DPL_USER,
     r_es := of_nat (SEG_UDATA * 8) OR of_nat DPL_USER, r_ss := of_nat (SEG_UDATA * 8) OR of_nat DPL_USER,
     r_eflags := 0x200, r_esp := 4096, r_eip := 0\<rparr>"

definition safestrcpy_l :: "nat \<Rightarrow> u8 list \<Rightarrow> u8 list" where
  "safestrcpy_l n t = take (n - 1) (takeWhile (\<lambda>c. c \<noteq> 0) t)"

text \<open>\<open>userinit\<close>; the image of \<^verbatim>\<open>initcode.S\<close> is the parameter \<open>ini\<close>.\<close>

definition userinit :: "u8 list \<Rightarrow> ('x prst_scheme, unit) sm" where
  "userinit ini = bind allocproc (\<lambda>r.
     bind (upd_core (\<lambda>c. c\<lparr>initproc := r\<rparr>)) (\<lambda>_.
     case r of None \<Rightarrow> fault ''userinit: null process'' | Some i \<Rightarrow>
     bind setupkvm (\<lambda>pd.
     bind (upd_proc i (\<lambda>p. p\<lparr>pgdir := pd\<rparr>)) (\<lambda>_.
     if pd = 0 then panic ''userinit: out of memory?'' else
     bind (inituvm pd ini) (\<lambda>_.
     bind (upd_proc i (\<lambda>p. p\<lparr>sz := 4096, tf := ztf_user, pname := safestrcpy_l 16 (bytes ''initcode'')\<rparr>)) (\<lambda>_.
     bind (namei [slash]) (\<lambda>c.
     bind (upd_proc i (\<lambda>p. p\<lparr>cwd := c\<rparr>)) (\<lambda>_.
     with_lock PtableLk (set_state i RUNNABLE)))))))))"

definition curproc_of :: "('x, nat) kk" where
  "curproc_of = bind myproc (\<lambda>p. case p of None \<Rightarrow> fault ''no process'' | Some j \<Rightarrow> ret j)"

definition growproc :: "int \<Rightarrow> ('x prst_scheme, int) sm" where
  "growproc n = bind curproc_of (\<lambda>j.
     bind (gets (\<lambda>s. procs (core s) ! j)) (\<lambda>p.
     bind (if n > 0 then allocuvm (pgdir p) (sz p) (sz p + of_int n)
           else if n < 0 then deallocuvm (pgdir p) (sz p) (sz p + of_int n)
           else ret (sz p)) (\<lambda>z.
     if n \<noteq> 0 \<and> z = 0 then ret (- 1) else
     bind (upd_proc j (\<lambda>p. p\<lparr>sz := z\<rparr>)) (\<lambda>_.
     bind (switchuvm (Some j)) (\<lambda>_. ret 0)))))"

definition fork :: "('x prst_scheme, int) sm" where
  "fork = bind curproc_of (\<lambda>j.
     bind allocproc (\<lambda>r.
     case r of None \<Rightarrow> ret (- 1) | Some i \<Rightarrow>
     bind (gets (\<lambda>s. procs (core s) ! j)) (\<lambda>cp.
     bind (copyuvm (pgdir cp) (sz cp)) (\<lambda>pd.
     bind (upd_proc i (\<lambda>p. p\<lparr>pgdir := pd\<rparr>)) (\<lambda>_.
     if pd = 0 then
       bind (gets (\<lambda>s. kstack (procs (core s) ! i))) (\<lambda>k.
       bind (kfree k) (\<lambda>_.
       bind (upd_proc i (\<lambda>p. p\<lparr>kstack := 0, state := UNUSED\<rparr>)) (\<lambda>_. ret (- 1))))
     else
       bind (upd_proc i (\<lambda>p. p\<lparr>sz := sz cp, parent := Some j, tf := (tf cp)\<lparr>r_eax := 0\<rparr>\<rparr>)) (\<lambda>_.
       bind (forM [0..<NOFILE] (\<lambda>k.
         case ofile cp ! k of None \<Rightarrow> ret ()
         | Some f \<Rightarrow> bind (filedup f) (\<lambda>g. upd_proc i (\<lambda>p. p\<lparr>ofile := (ofile p)[k := Some g]\<rparr>)))) (\<lambda>_.
       bind (case cwd cp of None \<Rightarrow> fault ''fork: no cwd'' | Some ip \<Rightarrow> idup ip) (\<lambda>c.
       bind (upd_proc i (\<lambda>p. p\<lparr>cwd := Some c, pname := safestrcpy_l 16 (pname cp)\<rparr>)) (\<lambda>_.
       bind (gets (\<lambda>s. pid (procs (core s) ! i))) (\<lambda>n.
       bind (with_lock PtableLk (set_state i RUNNABLE)) (\<lambda>_.
       ret (sint n)))))))))))) "

section \<open>Ending processes\<close>

text \<open>The part of \<open>exit\<close> under \<open>ptable.lock\<close>: wake the parent, give the children to \<open>init\<close>, become a zombie.\<close>

definition reparent :: "nat \<Rightarrow> nat option \<Rightarrow> ('x, unit) kk" where
  "reparent j ini = forM [0..<NPROC] (\<lambda>i.
     bind (gets (\<lambda>s. procs (core s) ! i)) (\<lambda>p.
     whenM (parent p = Some j)
       (bind (upd_proc i (\<lambda>p. p\<lparr>parent := ini\<rparr>)) (\<lambda>_.
        whenM (state p = ZOMBIE) (case ini of None \<Rightarrow> ret () | Some k \<Rightarrow> wakeup1 (ChProc k))))))"

definition exit_locked :: "nat \<Rightarrow> ('x, 'r) kk" where
  "exit_locked j = bind (gets (\<lambda>s. parent (procs (core s) ! j))) (\<lambda>par.
     bind (case par of None \<Rightarrow> ret () | Some k \<Rightarrow> wakeup1 (ChProc k)) (\<lambda>_.
     bind (gets (\<lambda>s. initproc (core s))) (\<lambda>ini.
     bind (reparent j ini) (\<lambda>_.
     bind (set_state j ZOMBIE) (\<lambda>_.
     sched Gone)))))"

definition exit_proc :: "('x prst_scheme, 'r) sm" where
  "exit_proc = bind curproc_of (\<lambda>j.
     bind (gets (\<lambda>s. initproc (core s))) (\<lambda>ini.
     if ini = Some j then panic ''init exiting'' else
     bind (forM [0..<NOFILE] (\<lambda>fd.
       bind (gets (\<lambda>s. ofile (procs (core s) ! j) ! fd)) (\<lambda>f.
       case f of None \<Rightarrow> ret ()
       | Some f \<Rightarrow> bind (fileclose f) (\<lambda>_. upd_proc j (\<lambda>p. p\<lparr>ofile := (ofile p)[fd := None]\<rparr>))))) (\<lambda>_.
     bind begin_op (\<lambda>_.
     bind (gets (\<lambda>s. cwd (procs (core s) ! j))) (\<lambda>c.
     bind (case c of None \<Rightarrow> fault ''exit: no cwd'' | Some ip \<Rightarrow> iput ip) (\<lambda>_.
     bind end_op (\<lambda>_.
     bind (upd_proc j (\<lambda>p. p\<lparr>cwd := None\<rparr>)) (\<lambda>_.
     bind (acquire PtableLk) (\<lambda>_.
     exit_locked j)))))))))"

definition wait_proc :: "('x prst_scheme, int) sm" where
  "wait_proc = bind curproc_of (\<lambda>j.
     bind (acquire PtableLk) (\<lambda>_.
     bind (gets (\<lambda>s. procs (core s))) (\<lambda>ps.
     case List.find (\<lambda>i. parent (ps ! i) = Some j \<and> state (ps ! i) = ZOMBIE) [0..<NPROC] of
       Some i \<Rightarrow>
         let n = pid (ps ! i) in
         bind (kfree (kstack (ps ! i))) (\<lambda>_.
         bind (upd_proc i (\<lambda>p. p\<lparr>kstack := 0\<rparr>)) (\<lambda>_.
         bind (freevm (pgdir (ps ! i))) (\<lambda>_.
         bind (upd_proc i (\<lambda>p. p\<lparr>pid := 0, parent := None, pname := [], killed := False, state := UNUSED\<rparr>)) (\<lambda>_.
         bind (release PtableLk) (\<lambda>_. ret (sint n))))))
     | None \<Rightarrow>
         if (\<forall>i<NPROC. parent (ps ! i) \<noteq> Some j) \<or> killed (ps ! j)
         then bind (release PtableLk) (\<lambda>_. ret (- 1))
         else sleep (ChProc j) PtableLk)))"

definition kill :: "u32 \<Rightarrow> ('x prst_scheme, int) sm" where
  "kill n = bind (acquire PtableLk) (\<lambda>_.
     bind (gets (\<lambda>s. List.find (\<lambda>i. pid (procs (core s) ! i) = n) [0..<NPROC])) (\<lambda>r.
     case r of None \<Rightarrow> bind (release PtableLk) (\<lambda>_. ret (- 1))
     | Some i \<Rightarrow>
       bind (upd_proc i (\<lambda>p. p\<lparr>killed := True, state := (if state p = SLEEPING then RUNNABLE else state p)\<rparr>)) (\<lambda>_.
       bind (release PtableLk) (\<lambda>_. ret 0))))"

section \<open>Scheduling\<close>

definition set_cproc :: "nat \<Rightarrow> nat option \<Rightarrow> ('x, unit) kk" where
  "set_cproc i p = upd_cpu i (\<lambda>k. k\<lparr>cproc := p\<rparr>)"

text \<open>The body of the scheduler's inner loop; \<open>run p\<close> is what happens between the two switches.\<close>

definition sched_one :: "(nat \<Rightarrow> ('x prst_scheme, unit) sm) \<Rightarrow> nat \<Rightarrow> nat \<Rightarrow> ('x prst_scheme, unit) sm" where
  "sched_one run i p = bind (gets (\<lambda>s. state (procs (core s) ! p))) (\<lambda>st.
     if st \<noteq> RUNNABLE then ret () else
     bind (set_cproc i (Some p)) (\<lambda>_.
     bind (switchuvm (Some p)) (\<lambda>_.
     bind (set_state p RUNNING) (\<lambda>_.
     bind (run p) (\<lambda>_.
     bind switchkvm (\<lambda>_.
     set_cproc i None))))))"

definition scheduler_round :: "(nat \<Rightarrow> ('x prst_scheme, unit) sm) \<Rightarrow> nat \<Rightarrow> ('x prst_scheme, unit) sm" where
  "scheduler_round run i = bind sti (\<lambda>_.
     bind (acquire PtableLk) (\<lambda>_.
     bind (forM [0..<NPROC] (sched_one run i)) (\<lambda>_.
     release PtableLk)))"

text \<open>\<open>scheduler\<close> never returns; this is its state after \<open>n\<close> rounds.\<close>

primrec scheduler_rounds :: "nat \<Rightarrow> (nat \<Rightarrow> ('x prst_scheme, unit) sm) \<Rightarrow> nat \<Rightarrow> ('x prst_scheme, unit) sm" where
  "scheduler_rounds 0 run i = ret ()"
| "scheduler_rounds (Suc n) run i = bind (scheduler_round run i) (\<lambda>_. scheduler_rounds n run i)"

definition scheduler :: "nat \<Rightarrow> (nat \<Rightarrow> ('x prst_scheme, unit) sm) \<Rightarrow> ('x prst_scheme, unit) sm" where
  "scheduler n run = bind mycpu (\<lambda>i. bind (set_cproc i None) (\<lambda>_. scheduler_rounds n run i))"

definition yield :: "('x prst_scheme, unit) sm" where
  "yield = bind (acquire PtableLk) (\<lambda>_.
     bind curproc_of (\<lambda>j.
     bind (set_state j RUNNABLE) (\<lambda>_.
     sched Resched)))"

definition forkret :: "('x prst_scheme, unit) sm" where
  "forkret = bind (release PtableLk) (\<lambda>_.
     bind (gets first) (\<lambda>f.
     whenM f
       (bind (modify (\<lambda>s. s\<lparr>first := False\<rparr>)) (\<lambda>_.
        bind (iinit ROOTDEV) (\<lambda>_.
        initlog ROOTDEV)))))"

end
