(* ===== verification/Syscall.thy ===== *)
theory Syscall
  imports Proc
begin

text \<open>
  System-call arguments (\<^verbatim>\<open>syscall.c\<close>) and the calls of \<^verbatim>\<open>sysproc.c\<close>. The kernel runs on the page table of the current
  process, so that a user pointer is read and written through it; a page that is not mapped makes the access fault.
  Fetching functions return \<open>None\<close> where the C code returns -1.
\<close>

section \<open>Fetching arguments\<close>

definition cur :: "('x, proc) kk" where
  "cur = bind curproc_of (\<lambda>j. gets (\<lambda>s. procs (core s) ! j))"

definition fetchint :: "u32 \<Rightarrow> ('x prst_scheme, u32 option) sm" where
  "fetchint addr = bind cur (\<lambda>p.
     if addr \<ge> sz p \<or> addr + 4 > sz p then ret None
     else bind (uload 4 (pgdir p) addr) (\<lambda>bs. ret (Some (rd32 bs 0))))"

primrec scan_str :: "nat \<Rightarrow> u32 \<Rightarrow> u32 \<Rightarrow> ('x prst_scheme, u8 list option) sm" where
  "scan_str 0 pd a = ret None"
| "scan_str (Suc n) pd a = bind (uload 1 pd a) (\<lambda>bs.
     if hd bs = 0 then ret (Some [])
     else bind (scan_str n pd (a + 1)) (\<lambda>r. ret (map_option (Cons (hd bs)) r)))"

definition fetchstr :: "u32 \<Rightarrow> ('x prst_scheme, u8 list option) sm" where
  "fetchstr addr = bind cur (\<lambda>p.
     if addr \<ge> sz p then ret None else scan_str (unat (sz p - addr)) (pgdir p) addr)"

definition argint :: "nat \<Rightarrow> ('x prst_scheme, u32 option) sm" where
  "argint n = bind cur (\<lambda>p. fetchint (r_esp (tf p) + 4 + 4 * of_nat n))"

definition argptr :: "nat \<Rightarrow> u32 \<Rightarrow> ('x prst_scheme, u32 option) sm" where
  "argptr n len = bind cur (\<lambda>p.
     bind (argint n) (\<lambda>r.
     case r of None \<Rightarrow> ret None | Some i \<Rightarrow>
     if sint len < 0 \<or> i \<ge> sz p \<or> i + len > sz p then ret None else ret (Some i)))"

definition argstr :: "nat \<Rightarrow> ('x prst_scheme, u8 list option) sm" where
  "argstr n = bind (argint n) (\<lambda>r. case r of None \<Rightarrow> ret None | Some a \<Rightarrow> fetchstr a)"

section \<open>Process system calls\<close>

definition sys_fork :: "('x prst_scheme, int) sm" where
  "sys_fork = fork"

definition sys_exit :: "('x prst_scheme, int) sm" where
  "sys_exit = exit_proc"

definition sys_wait :: "('x prst_scheme, int) sm" where
  "sys_wait = wait_proc"

definition sys_kill :: "('x prst_scheme, int) sm" where
  "sys_kill = bind (argint 0) (\<lambda>r. case r of None \<Rightarrow> ret (- 1) | Some n \<Rightarrow> kill n)"

definition sys_getpid :: "('x prst_scheme, int) sm" where
  "sys_getpid = bind cur (\<lambda>p. ret (sint (pid p)))"

definition sys_sbrk :: "('x prst_scheme, int) sm" where
  "sys_sbrk = bind (argint 0) (\<lambda>r. case r of None \<Rightarrow> ret (- 1) | Some n \<Rightarrow>
     bind cur (\<lambda>p.
     bind (growproc (sint n)) (\<lambda>g.
     if g < 0 then ret (- 1) else ret (sint (sz p)))))"

text \<open>The loop of \<open>sys_sleep\<close>, with the lock held; a wake-up takes the lock again and goes on here.\<close>

definition sleep_loop :: "u32 \<Rightarrow> u32 \<Rightarrow> ('x prst_scheme, int) sm" where
  "sleep_loop n ticks0 = bind (gets (\<lambda>s. ticks (core s))) (\<lambda>t.
     if t - ticks0 < n then
       bind am_killed (\<lambda>kd.
       if kd then bind (release TicksLk) (\<lambda>_. ret (- 1)) else sleep ChTicks TicksLk)
     else bind (release TicksLk) (\<lambda>_. ret 0))"

definition sys_sleep :: "('x prst_scheme, int) sm" where
  "sys_sleep = bind (argint 0) (\<lambda>r. case r of None \<Rightarrow> ret (- 1) | Some n \<Rightarrow>
     bind (acquire TicksLk) (\<lambda>_.
     bind (gets (\<lambda>s. ticks (core s))) (\<lambda>ticks0. sleep_loop n ticks0)))"

definition sys_uptime :: "('x prst_scheme, int) sm" where
  "sys_uptime = bind (with_lock TicksLk (gets (\<lambda>s. ticks (core s)))) (\<lambda>t. ret (sint t))"

end
