(* ===== verification/Sysfile.thy ===== *)
theory Sysfile
  imports Syscall
begin

text \<open>
  The file-system calls, \<^verbatim>\<open>sysfile.c\<close>: argument checks, descriptors, and the directory operations in one transaction
  each. Every \<open>goto bad\<close> is a branch.
\<close>

section \<open>Descriptors\<close>

definition argfd :: "nat \<Rightarrow> ('x prst_scheme, (nat \<times> nat) option) sm" where
  "argfd n = bind (argint n) (\<lambda>r. case r of None \<Rightarrow> ret None | Some v \<Rightarrow>
     bind cur (\<lambda>p.
     let fd = sint v in
     if fd < 0 \<or> fd \<ge> int NOFILE then ret None
     else case ofile p ! nat fd of None \<Rightarrow> ret None | Some f \<Rightarrow> ret (Some (nat fd, f))))"

definition set_fd :: "nat \<Rightarrow> nat option \<Rightarrow> ('x prst_scheme, unit) sm" where
  "set_fd fd f = bind curproc_of (\<lambda>j. upd_proc j (\<lambda>p. p\<lparr>ofile := (ofile p)[fd := f]\<rparr>))"

definition fd_alloc :: "nat \<Rightarrow> ('x prst_scheme, nat option) sm" where
  "fd_alloc f = bind cur (\<lambda>p.
     case List.find (\<lambda>fd. ofile p ! fd = None) [0..<NOFILE] of
       None \<Rightarrow> ret None
     | Some fd \<Rightarrow> bind (set_fd fd (Some f)) (\<lambda>_. ret (Some fd)))"

definition sys_dup :: "('x prst_scheme, int) sm" where
  "sys_dup = bind (argfd 0) (\<lambda>r. case r of None \<Rightarrow> ret (- 1) | Some (_, f) \<Rightarrow>
     bind (fd_alloc f) (\<lambda>r. case r of None \<Rightarrow> ret (- 1) | Some fd \<Rightarrow>
     bind (filedup f) (\<lambda>_. ret (int fd))))"

text \<open>The common argument checks of \<open>sys_read\<close> and \<open>sys_write\<close>: file, length and buffer.\<close>

definition arg_rw :: "('x prst_scheme, (nat \<times> u32 \<times> u32) option) sm" where
  "arg_rw = bind (argfd 0) (\<lambda>r. case r of None \<Rightarrow> ret None | Some (_, f) \<Rightarrow>
     bind (argint 2) (\<lambda>r. case r of None \<Rightarrow> ret None | Some n \<Rightarrow>
     bind (argptr 1 n) (\<lambda>r. case r of None \<Rightarrow> ret None | Some p \<Rightarrow> ret (Some (f, n, p)))))"

definition sys_read :: "('x prst_scheme, int) sm" where
  "sys_read = bind arg_rw (\<lambda>r. case r of None \<Rightarrow> ret (- 1) | Some (f, n, a) \<Rightarrow>
     bind (fileread f n) (\<lambda>(k, bs).
     bind cur (\<lambda>p.
     bind (ustore bs (pgdir p) a) (\<lambda>_. ret k))))"

definition sys_write :: "('x prst_scheme, int) sm" where
  "sys_write = bind arg_rw (\<lambda>r. case r of None \<Rightarrow> ret (- 1) | Some (f, n, a) \<Rightarrow>
     bind cur (\<lambda>p.
     bind (uload (unat n) (pgdir p) a) (\<lambda>bs. filewrite f bs)))"

definition sys_close :: "('x prst_scheme, int) sm" where
  "sys_close = bind (argfd 0) (\<lambda>r. case r of None \<Rightarrow> ret (- 1) | Some (fd, f) \<Rightarrow>
     bind (set_fd fd None) (\<lambda>_.
     bind (fileclose f) (\<lambda>_. ret 0)))"

text \<open>\<open>struct stat\<close> has its fields at the offsets 0, 4, 8, 12 and 16 of 20 bytes.\<close>

definition sys_fstat :: "('x prst_scheme, int) sm" where
  "sys_fstat = bind (argfd 0) (\<lambda>r. case r of None \<Rightarrow> ret (- 1) | Some (_, f) \<Rightarrow>
     bind (argptr 1 20) (\<lambda>r. case r of None \<Rightarrow> ret (- 1) | Some a \<Rightarrow>
     bind (filestat f) (\<lambda>r. case r of None \<Rightarrow> ret (- 1) | Some st \<Rightarrow>
     bind cur (\<lambda>p.
     bind (ustore (le16 (st_type st)) (pgdir p) a) (\<lambda>_.
     bind (ustore (le32 (st_dev st)) (pgdir p) (a + 4)) (\<lambda>_.
     bind (ustore (le32 (st_ino st)) (pgdir p) (a + 8)) (\<lambda>_.
     bind (ustore (le16 (st_nlink st)) (pgdir p) (a + 12)) (\<lambda>_.
     bind (ustore (le32 (st_size st)) (pgdir p) (a + 16)) (\<lambda>_. ret 0)))))))))"

section \<open>Links\<close>

definition add_nlink :: "nat \<Rightarrow> u16 \<Rightarrow> ('x prst_scheme, unit) sm" where
  "add_nlink ip d = bind (upd_ino ip (\<lambda>x. x\<lparr>inlink := inlink x + d\<rparr>)) (\<lambda>_. iupdate ip)"

definition link_bad :: "nat \<Rightarrow> ('x prst_scheme, int) sm" where
  "link_bad ip = bind (ilock ip) (\<lambda>_.
     bind (add_nlink ip (- 1)) (\<lambda>_.
     bind (iunlockput ip) (\<lambda>_.
     bind end_op (\<lambda>_. ret (- 1)))))"

definition sys_link :: "('x prst_scheme, int) sm" where
  "sys_link = bind (argstr 0) (\<lambda>r. case r of None \<Rightarrow> ret (- 1) | Some old \<Rightarrow>
     bind (argstr 1) (\<lambda>r. case r of None \<Rightarrow> ret (- 1) | Some new \<Rightarrow>
     bind begin_op (\<lambda>_.
     bind (namei old) (\<lambda>r. case r of None \<Rightarrow> bind end_op (\<lambda>_. ret (- 1)) | Some ip \<Rightarrow>
     bind (ilock ip) (\<lambda>_.
     bind (gets (\<lambda>s. itype (icache s ip))) (\<lambda>ty.
     if ty = T_DIR then bind (iunlockput ip) (\<lambda>_. bind end_op (\<lambda>_. ret (- 1))) else
     bind (add_nlink ip 1) (\<lambda>_.
     bind (iunlock ip) (\<lambda>_.
     bind (nameiparent new) (\<lambda>r. case r of None \<Rightarrow> link_bad ip | Some (dp, name) \<Rightarrow>
     bind (ilock dp) (\<lambda>_.
     bind (gets (\<lambda>s. (idev (icache s dp), idev (icache s ip), iinum (icache s ip)))) (\<lambda>(dd, di, inum).
     bind (if dd \<noteq> di then ret (- 1) else dirlink dp name inum) (\<lambda>r.
     if r < 0 then bind (iunlockput dp) (\<lambda>_. link_bad ip) else
     bind (iunlockput dp) (\<lambda>_.
     bind (iput ip) (\<lambda>_.
     bind end_op (\<lambda>_. ret 0)))))))))))))))"

definition isdirempty :: "nat \<Rightarrow> ('x prst_scheme, bool) sm" where
  "isdirempty dp = bind (gets (\<lambda>s. unat (isize (icache s dp)))) (\<lambda>size.
     bind (findM [2..<(size + 15) div 16] (\<lambda>k.
       bind (readi dp (of_nat (16 * k)) 16) (\<lambda>(r, de).
       if r \<noteq> 16 then panic ''isdirempty: readi''
       else ret (if de_inum de \<noteq> 0 then Some () else None)))) (\<lambda>r.
     ret (r = None)))"

definition unlink_bad :: "nat \<Rightarrow> ('x prst_scheme, int) sm" where
  "unlink_bad dp = bind (iunlockput dp) (\<lambda>_. bind end_op (\<lambda>_. ret (- 1)))"

definition sys_unlink :: "('x prst_scheme, int) sm" where
  "sys_unlink = bind (argstr 0) (\<lambda>r. case r of None \<Rightarrow> ret (- 1) | Some path \<Rightarrow>
     bind begin_op (\<lambda>_.
     bind (nameiparent path) (\<lambda>r. case r of None \<Rightarrow> bind end_op (\<lambda>_. ret (- 1)) | Some (dp, name) \<Rightarrow>
     bind (ilock dp) (\<lambda>_.
     if namecmp name (bytes ''.'') = 0 \<or> namecmp name (bytes ''..'') = 0 then unlink_bad dp else
     bind (dirlookup dp name) (\<lambda>r. case r of None \<Rightarrow> unlink_bad dp | Some (ip, off) \<Rightarrow>
     bind (ilock ip) (\<lambda>_.
     bind (gets (\<lambda>s. icache s ip)) (\<lambda>i.
     if sint (inlink i) < 1 then panic ''unlink: nlink < 1'' else
     bind (if itype i = T_DIR then isdirempty ip else ret True) (\<lambda>ok.
     if \<not> ok then bind (iunlockput ip) (\<lambda>_. unlink_bad dp) else
     bind (writei dp (replicate 16 0) off) (\<lambda>w.
     if w \<noteq> 16 then panic ''unlink: writei'' else
     bind (whenM (itype i = T_DIR) (add_nlink dp (- 1))) (\<lambda>_.
     bind (iunlockput dp) (\<lambda>_.
     bind (add_nlink ip (- 1)) (\<lambda>_.
     bind (iunlockput ip) (\<lambda>_.
     bind end_op (\<lambda>_. ret 0))))))))))))))"

section \<open>Creating and opening\<close>

definition create :: "u8 list \<Rightarrow> u16 \<Rightarrow> u16 \<Rightarrow> u16 \<Rightarrow> ('x prst_scheme, nat option) sm" where
  "create path type major minor = bind (nameiparent path) (\<lambda>r. case r of None \<Rightarrow> ret None | Some (dp, name) \<Rightarrow>
     bind (ilock dp) (\<lambda>_.
     bind (dirlookup dp name) (\<lambda>r. case r of
       Some (ip, _) \<Rightarrow>
         bind (iunlockput dp) (\<lambda>_.
         bind (ilock ip) (\<lambda>_.
         bind (gets (\<lambda>s. itype (icache s ip))) (\<lambda>ty.
         if type = T_FILE \<and> ty = T_FILE then ret (Some ip)
         else bind (iunlockput ip) (\<lambda>_. ret None))))
     | None \<Rightarrow>
         bind (gets (\<lambda>s. (idev (icache s dp), iinum (icache s dp)))) (\<lambda>(dv, dinum).
         bind (ialloc dv type) (\<lambda>ip.
         bind (ilock ip) (\<lambda>_.
         bind (upd_ino ip (\<lambda>x. x\<lparr>imajor := major, iminor := minor, inlink := 1\<rparr>)) (\<lambda>_.
         bind (iupdate ip) (\<lambda>_.
         bind (gets (\<lambda>s. iinum (icache s ip))) (\<lambda>inum.
         bind (whenM (type = T_DIR)
           (bind (add_nlink dp 1) (\<lambda>_.
            bind (dirlink ip (bytes ''.'') inum) (\<lambda>a.
            if a < 0 then panic ''create dots'' else
            bind (dirlink ip (bytes ''..'') dinum) (\<lambda>b.
            if b < 0 then panic ''create dots'' else ret ()))))) (\<lambda>_.
         bind (dirlink dp name inum) (\<lambda>r.
         if r < 0 then panic ''create: dirlink'' else
         bind (iunlockput dp) (\<lambda>_. ret (Some ip))))))))))))) "

definition O_RDWR :: u32 where "O_RDWR = 2"
definition O_WRONLY_F :: u32 where "O_WRONLY_F = 1"
definition O_CREATE_F :: u32 where "O_CREATE_F = 0x200"

text \<open>The first part of \<open>sys_open\<close>: the locked inode, inside the transaction.\<close>

definition open_inode :: "u8 list \<Rightarrow> u32 \<Rightarrow> ('x prst_scheme, nat option) sm" where
  "open_inode path omode = (if omode AND O_CREATE_F \<noteq> 0 then create path T_FILE 0 0
     else bind (namei path) (\<lambda>r. case r of None \<Rightarrow> ret None | Some ip \<Rightarrow>
       bind (ilock ip) (\<lambda>_.
       bind (gets (\<lambda>s. itype (icache s ip))) (\<lambda>ty.
       if ty = T_DIR \<and> omode \<noteq> 0 then bind (iunlockput ip) (\<lambda>_. ret None) else ret (Some ip)))))"

definition sys_open :: "('x prst_scheme, int) sm" where
  "sys_open = bind (argstr 0) (\<lambda>r. case r of None \<Rightarrow> ret (- 1) | Some path \<Rightarrow>
     bind (argint 1) (\<lambda>r. case r of None \<Rightarrow> ret (- 1) | Some omode \<Rightarrow>
     bind begin_op (\<lambda>_.
     bind (open_inode path omode) (\<lambda>r. case r of None \<Rightarrow> bind end_op (\<lambda>_. ret (- 1)) | Some ip \<Rightarrow>
     bind filealloc (\<lambda>f.
     bind (case f of None \<Rightarrow> ret None | Some f \<Rightarrow> fd_alloc f) (\<lambda>fd.
     case (f, fd) of (Some f, Some fd) \<Rightarrow>
         bind (iunlock ip) (\<lambda>_.
         bind end_op (\<lambda>_.
         bind (upd_file f (\<lambda>x. x\<lparr>ftype := FD_INODE, fip := ip, foff := 0, readable := (omode AND O_WRONLY_F = 0),
            writable := (omode AND O_WRONLY_F \<noteq> 0 \<or> omode AND O_RDWR \<noteq> 0)\<rparr>)) (\<lambda>_.
         ret (int fd))))
     | _ \<Rightarrow>
         bind (case f of None \<Rightarrow> ret () | Some f \<Rightarrow> fileclose f) (\<lambda>_.
         bind (iunlockput ip) (\<lambda>_.
         bind end_op (\<lambda>_. ret (- 1))))))))))"

definition sys_mkdir :: "('x prst_scheme, int) sm" where
  "sys_mkdir = bind begin_op (\<lambda>_.
     bind (argstr 0) (\<lambda>r.
     bind (case r of None \<Rightarrow> ret None | Some path \<Rightarrow> create path T_DIR 0 0) (\<lambda>r.
     case r of None \<Rightarrow> bind end_op (\<lambda>_. ret (- 1))
     | Some ip \<Rightarrow> bind (iunlockput ip) (\<lambda>_. bind end_op (\<lambda>_. ret 0)))))"

definition sys_mknod :: "('x prst_scheme, int) sm" where
  "sys_mknod = bind begin_op (\<lambda>_.
     bind (argstr 0) (\<lambda>r.
     bind (case r of None \<Rightarrow> ret None | Some path \<Rightarrow>
       bind (argint 1) (\<lambda>r. case r of None \<Rightarrow> ret None | Some major \<Rightarrow>
       bind (argint 2) (\<lambda>r. case r of None \<Rightarrow> ret None | Some minor \<Rightarrow>
       create path T_DEV (ucast major) (ucast minor)))) (\<lambda>r.
     case r of None \<Rightarrow> bind end_op (\<lambda>_. ret (- 1))
     | Some ip \<Rightarrow> bind (iunlockput ip) (\<lambda>_. bind end_op (\<lambda>_. ret 0)))))"

definition sys_chdir :: "('x prst_scheme, int) sm" where
  "sys_chdir = bind curproc_of (\<lambda>j.
     bind begin_op (\<lambda>_.
     bind (argstr 0) (\<lambda>r.
     bind (case r of None \<Rightarrow> ret None | Some path \<Rightarrow> namei path) (\<lambda>r.
     case r of None \<Rightarrow> bind end_op (\<lambda>_. ret (- 1))
     | Some ip \<Rightarrow>
       bind (ilock ip) (\<lambda>_.
       bind (gets (\<lambda>s. itype (icache s ip))) (\<lambda>ty.
       if ty \<noteq> T_DIR then bind (iunlockput ip) (\<lambda>_. bind end_op (\<lambda>_. ret (- 1)))
       else bind (iunlock ip) (\<lambda>_.
         bind (gets (\<lambda>s. cwd (procs (core s) ! j))) (\<lambda>c.
         bind (case c of None \<Rightarrow> fault ''chdir: no cwd'' | Some d \<Rightarrow> iput d) (\<lambda>_.
         bind end_op (\<lambda>_.
         bind (upd_proc j (\<lambda>p. p\<lparr>cwd := Some ip\<rparr>)) (\<lambda>_. ret 0)))))))))))"

definition sys_pipe :: "('x prst_scheme, int) sm" where
  "sys_pipe = bind (argptr 0 8) (\<lambda>r. case r of None \<Rightarrow> ret (- 1) | Some a \<Rightarrow>
     bind pipealloc (\<lambda>r. case r of None \<Rightarrow> ret (- 1) | Some (rf, wrf) \<Rightarrow>
     bind (fd_alloc rf) (\<lambda>fd0.
     bind (case fd0 of None \<Rightarrow> ret None | Some _ \<Rightarrow> fd_alloc wrf) (\<lambda>fd1.
     case (fd0, fd1) of (Some fd0, Some fd1) \<Rightarrow>
         bind cur (\<lambda>p.
         bind (ustore (le32 (of_nat fd0)) (pgdir p) a) (\<lambda>_.
         bind (ustore (le32 (of_nat fd1)) (pgdir p) (a + 4)) (\<lambda>_. ret 0)))
     | _ \<Rightarrow>
         bind (case fd0 of None \<Rightarrow> ret () | Some d \<Rightarrow> set_fd d None) (\<lambda>_.
         bind (fileclose rf) (\<lambda>_.
         bind (fileclose wrf) (\<lambda>_. ret (- 1))))))))"

end
