(* ===== verification/Exec.thy ===== *)
theory Exec
  imports Sysfile
begin

text \<open>
  Loading programs: \<open>loaduvm\<close> of \<^verbatim>\<open>vm.c\<close>, \<open>exec\<close> of \<^verbatim>\<open>exec.c\<close> and \<open>sys_exec\<close> of \<^verbatim>\<open>sysfile.c\<close>. The ELF structures are read
  from the bytes of the file.
\<close>

section \<open>ELF\<close>

definition ELF_MAGIC :: u32 where "ELF_MAGIC = 0x464C457F"
definition ELF_PROG_LOAD :: u32 where "ELF_PROG_LOAD = 1"
definition MAXARG :: nat where "MAXARG = 32"

record elfhdr =
  eh_magic :: u32
  eh_entry :: u32
  eh_phoff :: u32
  eh_phnum :: u16

record proghdr =
  ph_type :: u32
  ph_off :: u32
  ph_vaddr :: u32
  ph_filesz :: u32
  ph_memsz :: u32

definition elf_of :: "u8 list \<Rightarrow> elfhdr" where
  "elf_of b = \<lparr>eh_magic = rd32 b 0, eh_entry = rd32 b 24, eh_phoff = rd32 b 28, eh_phnum = rd16 b 44\<rparr>"

definition ph_of :: "u8 list \<Rightarrow> proghdr" where
  "ph_of b = \<lparr>ph_type = rd32 b 0, ph_off = rd32 b 4, ph_vaddr = rd32 b 8, ph_filesz = rd32 b 16, ph_memsz = rd32 b 20\<rparr>"

section \<open>Loading a segment\<close>

primrec load_loop :: "nat \<Rightarrow> u32 \<Rightarrow> u32 \<Rightarrow> nat \<Rightarrow> u32 \<Rightarrow> u32 \<Rightarrow> u32 \<Rightarrow> ('x prst_scheme, int) sm" where
  "load_loop 0 pd addr ip off n i = fault ''loaduvm: fuel''"
| "load_loop (Suc f) pd addr ip off n i =
     (if i < n then
        bind (walkpgdir pd (addr + i) False) (\<lambda>pte.
        if pte = 0 then panic ''loaduvm: address should exist''
        else bind (ldw pte) (\<lambda>v.
          let k = (if n - i < 4096 then n - i else 4096) in
          bind (readi ip (off + i) k) (\<lambda>(r, bs).
          bind (modify (\<lambda>s. s\<lparr>mem := write_bytes (mem s) (P2V (PTE_ADDR v)) bs\<rparr>)) (\<lambda>_.
          if r \<noteq> sint k then ret (- 1) else load_loop f pd addr ip off n (i + 4096)))))
      else ret 0)"

definition loaduvm :: "u32 \<Rightarrow> u32 \<Rightarrow> nat \<Rightarrow> u32 \<Rightarrow> u32 \<Rightarrow> ('x prst_scheme, int) sm" where
  "loaduvm pd addr ip off n = (if addr mod 4096 \<noteq> 0 then panic ''loaduvm: addr must be page aligned''
     else load_loop (2 ^ 20 + 1) pd addr ip off n 0)"

section \<open>exec\<close>

text \<open>The label \<open>bad\<close>; \<open>ip\<close> is \<open>None\<close> once the inode has been released.\<close>

definition exec_bad :: "u32 \<Rightarrow> nat option \<Rightarrow> ('x prst_scheme, int) sm" where
  "exec_bad pd ip = bind (whenM (pd \<noteq> 0) (freevm pd)) (\<lambda>_.
     bind (case ip of None \<Rightarrow> ret () | Some i \<Rightarrow> bind (iunlockput i) (\<lambda>_. end_op)) (\<lambda>_.
     ret (- 1)))"

text \<open>The loop over the program headers: the new size, or \<open>None\<close> for \<open>goto bad\<close>.\<close>

primrec load_segs :: "nat \<Rightarrow> u32 \<Rightarrow> nat \<Rightarrow> u32 \<Rightarrow> u32 \<Rightarrow> ('x prst_scheme, u32 option) sm" where
  "load_segs 0 pd ip off z = ret (Some z)"
| "load_segs (Suc n) pd ip off z = bind (readi ip off 32) (\<lambda>(r, bs).
     if r \<noteq> 32 then ret None
     else let ph = ph_of bs in
       if ph_type ph \<noteq> ELF_PROG_LOAD then load_segs n pd ip (off + 32) z
       else if ph_memsz ph < ph_filesz ph then ret None
       else if ph_vaddr ph + ph_memsz ph < ph_vaddr ph then ret None
       else bind (allocuvm pd z (ph_vaddr ph + ph_memsz ph)) (\<lambda>z.
         if z = 0 then ret None
         else if ph_vaddr ph mod 4096 \<noteq> 0 then ret None
         else bind (loaduvm pd (ph_vaddr ph) ip (ph_off ph) (ph_filesz ph)) (\<lambda>l.
           if l < 0 then ret None else load_segs n pd ip (off + 32) z)))"

text \<open>Pushing the argument strings: the new stack pointer and the addresses of the strings.\<close>

fun push_args :: "u32 \<Rightarrow> nat \<Rightarrow> u8 list list \<Rightarrow> u32 \<Rightarrow> ('x prst_scheme, (u32 \<times> u32 list) option) sm" where
  "push_args pd argc [] sp = ret (Some (sp, []))"
| "push_args pd argc (a # as) sp = (if argc \<ge> MAXARG then ret None
     else let sp = (sp - (of_nat (length a) + 1)) AND NOT 3 in
       bind (copyout pd sp (a @ [0])) (\<lambda>r.
       if r < 0 then ret None
       else bind (push_args pd (argc + 1) as sp) (\<lambda>r.
         ret (map_option (\<lambda>(sp', ptrs). (sp', sp # ptrs)) r))))"

definition ustack_of :: "u32 list \<Rightarrow> u32 \<Rightarrow> u32 list" where
  "ustack_of ptrs sp = [0xFFFFFFFF, of_nat (length ptrs), sp - (of_nat (length ptrs) + 1) * 4] @ ptrs @ [0]"

fun last_elem :: "u8 list \<Rightarrow> u8 list \<Rightarrow> u8 list" where
  "last_elem [] l = l"
| "last_elem (c # s) l = last_elem s (if c = slash then s else l)"

definition exec :: "u8 list \<Rightarrow> u8 list list \<Rightarrow> ('x prst_scheme, int) sm" where
  "exec path argv = bind curproc_of (\<lambda>j.
     bind begin_op (\<lambda>_.
     bind (namei path) (\<lambda>r. case r of
       None \<Rightarrow> bind end_op (\<lambda>_. bind (cprintf (bytes ''exec: fail'' @ [10]) []) (\<lambda>_. ret (- 1)))
     | Some ip \<Rightarrow>
     bind (ilock ip) (\<lambda>_.
     bind (readi ip 0 52) (\<lambda>(r, bs).
     if r \<noteq> 52 \<or> eh_magic (elf_of bs) \<noteq> ELF_MAGIC then exec_bad 0 (Some ip) else
     let elf = elf_of bs in
     bind setupkvm (\<lambda>pd.
     if pd = 0 then exec_bad 0 (Some ip) else
     bind (load_segs (unat (eh_phnum elf)) pd ip (eh_phoff elf) 0) (\<lambda>r. case r of
       None \<Rightarrow> exec_bad pd (Some ip)
     | Some z \<Rightarrow>
     bind (iunlockput ip) (\<lambda>_.
     bind end_op (\<lambda>_.
     bind (allocuvm pd (PGROUNDUP z) (PGROUNDUP z + 2 * 4096)) (\<lambda>z.
     if z = 0 then exec_bad pd None else
     bind (clearpteu pd (z - 2 * 4096)) (\<lambda>_.
     bind (push_args pd 0 argv z) (\<lambda>r. case r of
       None \<Rightarrow> exec_bad pd None
     | Some (sp, ptrs) \<Rightarrow>
     let ustack = ustack_of ptrs sp; sp = sp - of_nat (4 * length ustack) in
     bind (copyout pd sp (concat (map le32 ustack))) (\<lambda>r.
     if r < 0 then exec_bad pd None else
     bind (gets (\<lambda>s. pgdir (procs (core s) ! j))) (\<lambda>oldpd.
     bind (upd_proc j (\<lambda>p. p\<lparr>pname := safestrcpy_l 16 (last_elem path path), pgdir := pd, sz := z,
        tf := (tf p)\<lparr>r_eip := eh_entry elf, r_esp := sp\<rparr>\<rparr>)) (\<lambda>_.
     bind (switchuvm (Some j)) (\<lambda>_.
     bind (freevm oldpd) (\<lambda>_.
     ret 0)))))))))))))))))"

section \<open>sys\_exec\<close>

text \<open>The loop over \<open>argv\<close> with the number of free slots left.\<close>

primrec fetch_args :: "nat \<Rightarrow> u32 \<Rightarrow> ('x prst_scheme, u8 list list option) sm" where
  "fetch_args 0 a = ret None"
| "fetch_args (Suc n) a = bind (fetchint a) (\<lambda>r. case r of None \<Rightarrow> ret None | Some u \<Rightarrow>
     if u = 0 then ret (Some [])
     else bind (fetchstr u) (\<lambda>r. case r of None \<Rightarrow> ret None | Some str \<Rightarrow>
       bind (fetch_args n (a + 4)) (\<lambda>r. ret (map_option (Cons str) r))))"

definition sys_exec :: "('x prst_scheme, int) sm" where
  "sys_exec = bind (argstr 0) (\<lambda>r. case r of None \<Rightarrow> ret (- 1) | Some path \<Rightarrow>
     bind (argint 1) (\<lambda>r. case r of None \<Rightarrow> ret (- 1) | Some uargv \<Rightarrow>
     bind (fetch_args MAXARG uargv) (\<lambda>r. case r of None \<Rightarrow> ret (- 1) | Some argv \<Rightarrow> exec path argv)))"

end
