(* ===== verification/Trap.thy ===== *)
theory Trap
  imports Exec
begin

text \<open>
  System-call dispatch (\<open>syscall\<close> of \<^verbatim>\<open>syscall.c\<close>) and traps (\<^verbatim>\<open>trap.c\<close>). \<open>trap\<close> takes the trap frame the entry code has
  built and the fault address register; for a system call the frame becomes the process's frame, in which the
  result is returned. Acknowledging the interrupt at the local APIC has no effect on the modelled state.
\<close>

section \<open>Dispatch\<close>

definition syscalls :: "nat \<Rightarrow> ('x prst_scheme, int) sm option" where
  "syscalls = [1 \<mapsto> sys_fork, 2 \<mapsto> sys_exit, 3 \<mapsto> sys_wait, 4 \<mapsto> sys_pipe, 5 \<mapsto> sys_read, 6 \<mapsto> sys_kill, 7 \<mapsto> sys_exec,
     8 \<mapsto> sys_fstat, 9 \<mapsto> sys_chdir, 10 \<mapsto> sys_dup, 11 \<mapsto> sys_getpid, 12 \<mapsto> sys_sbrk, 13 \<mapsto> sys_sleep, 14 \<mapsto> sys_uptime,
     15 \<mapsto> sys_open, 16 \<mapsto> sys_write, 17 \<mapsto> sys_mknod, 18 \<mapsto> sys_unlink, 19 \<mapsto> sys_link, 20 \<mapsto> sys_mkdir, 21 \<mapsto> sys_close]"

definition set_eax :: "nat \<Rightarrow> u32 \<Rightarrow> ('x, unit) kk" where
  "set_eax j v = upd_proc j (\<lambda>p. p\<lparr>tf := (tf p)\<lparr>r_eax := v\<rparr>\<rparr>)"

definition syscall :: "('x prst_scheme, unit) sm" where
  "syscall = bind curproc_of (\<lambda>j.
     bind (gets (\<lambda>s. procs (core s) ! j)) (\<lambda>p.
     let num = sint (r_eax (tf p)) in
     case (if num > 0 then syscalls (nat num) else None) of
       Some f \<Rightarrow> bind f (\<lambda>r. set_eax j (of_int r))
     | None \<Rightarrow>
         bind (cprintf (bytes ''%d %s: unknown sys call %d'' @ [10]) [Word (pid p), Str (Some (pname p)), Word (r_eax (tf p))]) (\<lambda>_.
         set_eax j 0xFFFFFFFF)))"

section \<open>The interrupt table\<close>

record gatedesc =
  g_off :: u32
  g_cs :: u16
  g_trap :: bool
  g_dpl :: nat

definition SETGATE :: "bool \<Rightarrow> u16 \<Rightarrow> u32 \<Rightarrow> nat \<Rightarrow> gatedesc" where
  "SETGATE istrap sel off d = \<lparr>g_off = off, g_cs = sel, g_trap = istrap, g_dpl = d\<rparr>"

record trst = prst +
  idt :: "nat \<Rightarrow> gatedesc option"

definition T_SYSCALL :: nat where "T_SYSCALL = 64"
definition T_IRQ0 :: u32 where "T_IRQ0 = 32"

text \<open>\<open>tvinit\<close>; \<open>vectors\<close> are the entry points of the generated \<^verbatim>\<open>vectors.S\<close>.\<close>

definition tvinit :: "(nat \<Rightarrow> u32) \<Rightarrow> ('x trst_scheme, unit) sm" where
  "tvinit vectors = bind (forM [0..<256] (\<lambda>i.
       modify (\<lambda>s. s\<lparr>idt := (idt s)(i \<mapsto> SETGATE False (of_nat (SEG_KCODE * 8)) (vectors i) 0)\<rparr>))) (\<lambda>_.
     bind (modify (\<lambda>s. s\<lparr>idt := (idt s)(T_SYSCALL \<mapsto> SETGATE True (of_nat (SEG_KCODE * 8)) (vectors T_SYSCALL) DPL_USER)\<rparr>)) (\<lambda>_.
     initlock TicksLk))"

section \<open>Traps\<close>

definition clock_tick :: "('x trst_scheme, unit) sm" where
  "clock_tick = bind cpuid (\<lambda>i.
     whenM (i = 0)
       (bind (acquire TicksLk) (\<lambda>_.
        bind (upd_core (\<lambda>c. c\<lparr>ticks := ticks c + 1\<rparr>)) (\<lambda>_.
        bind (wakeup ChTicks) (\<lambda>_.
        release TicksLk)))))"

definition user_mode :: "trapframe \<Rightarrow> bool" where
  "user_mode f \<longleftrightarrow> r_cs f AND 3 = 3"

text \<open>A process that has been killed exits on its way back to user mode.\<close>

definition exit_if_killed :: "trapframe \<Rightarrow> ('x trst_scheme, unit) sm" where
  "exit_if_killed f = bind myproc (\<lambda>p. case p of None \<Rightarrow> ret () | Some j \<Rightarrow>
     bind (gets (\<lambda>s. killed (procs (core s) ! j))) (\<lambda>k. if k \<and> user_mode f then exit_proc else ret ()))"

definition bad_trap :: "trapframe \<Rightarrow> u32 \<Rightarrow> ('x trst_scheme, unit) sm" where
  "bad_trap f cr2 = bind myproc (\<lambda>p.
     case (if r_cs f AND 3 = 0 then None else p) of
       None \<Rightarrow>
         bind cpuid (\<lambda>i.
         bind (cprintf (bytes ''unexpected trap %d from cpu %d eip %x (cr2=0x%x)'' @ [10])
           [Word (r_trapno f), Word (of_nat i), Word (r_eip f), Word cr2]) (\<lambda>_.
         panic ''trap''))
     | Some j \<Rightarrow>
         bind (gets (\<lambda>s. procs (core s) ! j)) (\<lambda>q.
         bind cpuid (\<lambda>i.
         bind (cprintf (bytes ''pid %d %s: trap %d err %d on cpu %d eip 0x%x addr 0x%x--kill proc'' @ [10])
           [Word (pid q), Str (Some (pname q)), Word (r_trapno f), Word (r_err f), Word (of_nat i), Word (r_eip f), Word cr2]) (\<lambda>_.
         upd_proc j (\<lambda>p. p\<lparr>killed := True\<rparr>)))))"

definition trap_syscall :: "trapframe \<Rightarrow> ('x trst_scheme, unit) sm" where
  "trap_syscall f = bind curproc_of (\<lambda>j.
     bind (gets (\<lambda>s. killed (procs (core s) ! j))) (\<lambda>k.
     if k then exit_proc else
     bind (upd_proc j (\<lambda>p. p\<lparr>tf := f\<rparr>)) (\<lambda>_.
     bind syscall (\<lambda>_.
     bind (gets (\<lambda>s. killed (procs (core s) ! j))) (\<lambda>k.
     if k then exit_proc else ret ())))))"

definition trap_irq :: "trapframe \<Rightarrow> u32 \<Rightarrow> ('x trst_scheme, unit) sm" where
  "trap_irq f cr2 = (let n = r_trapno f in
     if n = T_IRQ0 then clock_tick
     else if n = T_IRQ0 + 14 then ideintr
     else if n = T_IRQ0 + 15 then ret ()
     else if n = T_IRQ0 + 1 then kbdintr
     else if n = T_IRQ0 + 4 then uartintr
     else if n = T_IRQ0 + 7 \<or> n = T_IRQ0 + 31 then
       bind cpuid (\<lambda>i. cprintf (bytes ''cpu%d: spurious interrupt at %x:%x'' @ [10]) [Word (of_nat i), Word (ucast (r_cs f)), Word (r_eip f)])
     else bad_trap f cr2)"

text \<open>After the switch: exit if killed, yield on a clock tick; a yielding process goes on with \<open>exit_if_killed\<close>.\<close>

definition trap :: "trapframe \<Rightarrow> u32 \<Rightarrow> ('x trst_scheme, unit) sm" where
  "trap f cr2 = (if r_trapno f = of_nat T_SYSCALL then trap_syscall f
     else bind (trap_irq f cr2) (\<lambda>_.
       bind (exit_if_killed f) (\<lambda>_.
       bind myproc (\<lambda>p.
       bind (case p of None \<Rightarrow> ret () | Some j \<Rightarrow>
         bind (gets (\<lambda>s. state (procs (core s) ! j))) (\<lambda>st.
         whenM (st = RUNNING \<and> r_trapno f = T_IRQ0) yield)) (\<lambda>_.
       exit_if_killed f)))))"

end
