(* ===== verification/Sh.thy ===== *)
theory Sh
  imports Prelude
begin

text \<open>
  The shell's command parser (\<^verbatim>\<open>sh.c\<close>). The line is a buffer of characters; a pointer into it is an index,
  \<open>es\<close> is the length of the text before its NUL, and \<open>rd s i\<close> is the character at index \<open>i\<close>, the NUL
  for \<open>i = es\<close>. A parsed command refers to the buffer by pairs of indices, the start and the end of a
  counted string; \<open>nulterminate\<close> then writes NULs into the buffer. The mutually recursive parsing functions
  take a fuel argument; the lemma \<open>parse_good\<close> shows that \<open>4 * length s + 4\<close> is enough for every text.
\<close>

section \<open>Parsed commands\<close>

definition MAXARGS :: nat where
  "MAXARGS = 10"

definition O_RDONLY :: nat where
  "O_RDONLY = 0"

definition O_WRONLY :: nat where
  "O_WRONLY = 1"

definition O_CREATE :: nat where
  "O_CREATE = 0x200"

datatype cmd =
    EXEC "(nat \<times> nat) list"
  | REDIR cmd nat nat nat nat
  | PIPE cmd cmd
  | LIST cmd cmd
  | BACK cmd

definition execcmd :: cmd where
  "execcmd = EXEC []"

definition redircmd :: "cmd \<Rightarrow> nat \<Rightarrow> nat \<Rightarrow> nat \<Rightarrow> nat \<Rightarrow> cmd" where
  "redircmd subcmd file efile mode fd = REDIR subcmd file efile mode fd"

definition pipecmd :: "cmd \<Rightarrow> cmd \<Rightarrow> cmd" where
  "pipecmd left right = PIPE left right"

definition listcmd :: "cmd \<Rightarrow> cmd \<Rightarrow> cmd" where
  "listcmd left right = LIST left right"

definition backcmd :: "cmd \<Rightarrow> cmd" where
  "backcmd subcmd = BACK subcmd"

text \<open>The local \<open>cmd\<close> of \<open>parseexec\<close> keeps pointing at the \<open>EXEC\<close> node while \<open>ret\<close> grows redirections around it.\<close>

fun add_arg :: "cmd \<Rightarrow> nat \<times> nat \<Rightarrow> cmd" where
  "add_arg (EXEC av) a = EXEC (av @ [a])"
| "add_arg (REDIR c f e m d) a = REDIR (add_arg c a) f e m d"
| "add_arg c a = c"

section \<open>Tokens\<close>

abbreviation NUL :: char where
  "NUL \<equiv> CHR 0x00"

definition whitespace :: string where
  "whitespace = [CHR '' '', CHR 0x09, CHR 0x0D, CHR 0x0A, CHR 0x0B]"

definition symbols :: string where
  "symbols = ''<|>&;()''"

definition rd :: "string \<Rightarrow> nat \<Rightarrow> char" where
  "rd s i = (if i < length s then s ! i else NUL)"

function skip_white :: "string \<Rightarrow> nat \<Rightarrow> nat" where
  "skip_white s i = (if i < length s \<and> rd s i \<in> set whitespace then skip_white s (i + 1) else i)"
  by pat_completeness auto
termination by (relation "measure (\<lambda>(s, i). length s - i)") auto

function word_end :: "string \<Rightarrow> nat \<Rightarrow> nat" where
  "word_end s i = (if i < length s \<and> rd s i \<notin> set whitespace \<and> rd s i \<notin> set symbols then word_end s (i + 1) else i)"
  by pat_completeness auto
termination by (relation "measure (\<lambda>(s, i). length s - i)") auto

declare skip_white.simps [simp del] word_end.simps [simp del]

definition gettoken :: "string \<Rightarrow> nat \<Rightarrow> char \<times> nat \<times> nat \<times> nat" where
  "gettoken s i = (let q = skip_white s i;
     (r, eq) = (if rd s q = NUL then (NUL, q)
       else if rd s q \<in> set ''|();&<'' then (rd s q, q + 1)
       else if rd s q = CHR ''>'' then (if rd s (q + 1) = CHR ''>'' then (CHR ''+'', q + 2) else (CHR ''>'', q + 1))
       else (CHR ''a'', word_end s q))
     in (r, q, eq, skip_white s eq))"

definition peek :: "string \<Rightarrow> nat \<Rightarrow> string \<Rightarrow> nat \<times> bool" where
  "peek s i toks = (let j = skip_white s i in (j, rd s j \<noteq> NUL \<and> rd s j \<in> set toks))"

section \<open>The parser\<close>

text \<open>A parsing function returns a command and the new \<open>*ps\<close>, or ends in \<open>panic\<close>.\<close>

datatype 'a parsed = Parsed 'a nat | Syntax string | OutOfFuel

definition pbind :: "'a parsed \<Rightarrow> ('a \<Rightarrow> nat \<Rightarrow> 'b parsed) \<Rightarrow> 'b parsed" where
  "pbind r f = (case r of Parsed a i \<Rightarrow> f a i | Syntax e \<Rightarrow> Syntax e | OutOfFuel \<Rightarrow> OutOfFuel)"

fun parseredirs :: "string \<Rightarrow> nat \<Rightarrow> cmd \<Rightarrow> nat \<Rightarrow> cmd parsed" where
  "parseredirs s 0 cmd i = OutOfFuel"
| "parseredirs s (Suc n) cmd i = (let (i, more) = peek s i ''<>'' in
     if \<not> more then Parsed cmd i
     else let (tok, _, _, i) = gettoken s i; (t, q, eq, i) = gettoken s i in
       if t \<noteq> CHR ''a'' then Syntax ''missing file for redirection''
       else parseredirs s n
         (if tok = CHR ''<'' then redircmd cmd q eq O_RDONLY 0
          else if tok = CHR ''>'' then redircmd cmd q eq (O_WRONLY + O_CREATE) 1
          else if tok = CHR ''+'' then redircmd cmd q eq (O_WRONLY + O_CREATE) 1
          else cmd) i)"

text \<open>The loop of \<open>parseexec\<close> over the arguments, and the loop of \<open>parseline\<close> over trailing ampersands.\<close>

fun parseargs :: "string \<Rightarrow> nat \<Rightarrow> cmd \<Rightarrow> nat \<Rightarrow> nat \<Rightarrow> cmd parsed" where
  "parseargs s 0 rc argc i = OutOfFuel"
| "parseargs s (Suc n) rc argc i = (let (i, stop) = peek s i ''|)&;'' in
     if stop then Parsed rc i
     else let (tok, q, eq, i) = gettoken s i in
       if tok = NUL then Parsed rc i
       else if tok \<noteq> CHR ''a'' then Syntax ''syntax''
       else if argc + 1 \<ge> MAXARGS then Syntax ''too many args''
       else pbind (parseredirs s n (add_arg rc (q, eq)) i) (\<lambda>rc i. parseargs s n rc (argc + 1) i))"

fun parsebacks :: "string \<Rightarrow> nat \<Rightarrow> cmd \<Rightarrow> nat \<Rightarrow> cmd parsed" where
  "parsebacks s 0 cmd i = OutOfFuel"
| "parsebacks s (Suc n) cmd i = (let (i, more) = peek s i ''&'' in
     if \<not> more then Parsed cmd i
     else let (_, _, _, i) = gettoken s i in parsebacks s n (backcmd cmd) i)"

fun parseline :: "string \<Rightarrow> nat \<Rightarrow> nat \<Rightarrow> cmd parsed"
and parsepipe :: "string \<Rightarrow> nat \<Rightarrow> nat \<Rightarrow> cmd parsed"
and parseblock :: "string \<Rightarrow> nat \<Rightarrow> nat \<Rightarrow> cmd parsed"
and parseexec :: "string \<Rightarrow> nat \<Rightarrow> nat \<Rightarrow> cmd parsed" where
  "parseline s 0 i = OutOfFuel"
| "parseline s (Suc n) i = pbind (parsepipe s n i) (\<lambda>cmd i. pbind (parsebacks s n cmd i) (\<lambda>cmd i.
     let (i, more) = peek s i '';'' in
     if more then let (_, _, _, i) = gettoken s i in pbind (parseline s n i) (\<lambda>c i. Parsed (listcmd cmd c) i)
     else Parsed cmd i))"
| "parsepipe s 0 i = OutOfFuel"
| "parsepipe s (Suc n) i = pbind (parseexec s n i) (\<lambda>cmd i.
     let (i, more) = peek s i ''|'' in
     if more then let (_, _, _, i) = gettoken s i in pbind (parsepipe s n i) (\<lambda>c i. Parsed (pipecmd cmd c) i)
     else Parsed cmd i)"
| "parseblock s 0 i = OutOfFuel"
| "parseblock s (Suc n) i = (let (i, more) = peek s i ''('' in
     if \<not> more then Syntax ''parseblock''
     else let (_, _, _, i) = gettoken s i in pbind (parseline s n i) (\<lambda>cmd i.
       let (i, more) = peek s i '')'' in
       if \<not> more then Syntax ''syntax - missing )''
       else let (_, _, _, i) = gettoken s i in parseredirs s n cmd i))"
| "parseexec s 0 i = OutOfFuel"
| "parseexec s (Suc n) i = (let (i, more) = peek s i ''('' in
     if more then parseblock s n i
     else pbind (parseredirs s n execcmd i) (\<lambda>rc i. parseargs s n rc 0 i))"

text \<open>\<open>nulterminate\<close> writes a NUL at the end of every counted string.\<close>

fun nulterminate :: "cmd \<Rightarrow> string \<Rightarrow> string" where
  "nulterminate (EXEC av) b = fold (\<lambda>(q, eq) b. b[eq := NUL]) av b"
| "nulterminate (REDIR c f e m d) b = (nulterminate c b)[e := NUL]"
| "nulterminate (PIPE l r) b = nulterminate r (nulterminate l b)"
| "nulterminate (LIST l r) b = nulterminate r (nulterminate l b)"
| "nulterminate (BACK c) b = nulterminate c b"

definition parsecmd :: "string \<Rightarrow> (cmd \<times> string) parsed" where
  "parsecmd buf = (let s = takeWhile (\<lambda>c. c \<noteq> NUL) buf in
     pbind (parseline s (4 * length s + 4) 0) (\<lambda>cmd i.
       let (i, _) = peek s i [] in
       if i \<noteq> length s then Syntax ''syntax''
       else Parsed (cmd, nulterminate cmd buf) i))"

section \<open>Running a command\<close>

text \<open>
  A process is the tree of the system calls it makes: a constructor per call, with the rest of the process as
  a function of the result. \<open>Exec\<close> continues only when the call fails. \<open>runcmd\<close> never returns, so it is the whole
  rest of its process. Commands are not null: every constructor function returns a node.
\<close>

datatype prog =
    Exit
  | Exec string "string list" prog
  | Open string nat "int \<Rightarrow> prog"
  | Close nat prog
  | Dup nat "int \<Rightarrow> prog"
  | Pipe "(nat \<times> nat) option \<Rightarrow> prog"
  | Fork "int \<Rightarrow> prog"
  | Wait prog
  | Print string prog

definition sh_panic :: "string \<Rightarrow> prog" where
  "sh_panic s = Print (s @ [CHR 0x0A]) Exit"

definition fork1 :: "(int \<Rightarrow> prog) \<Rightarrow> prog" where
  "fork1 k = Fork (\<lambda>pid. if pid = - 1 then sh_panic ''fork'' else k pid)"

definition cstr :: "string \<Rightarrow> nat \<times> nat \<Rightarrow> string" where
  "cstr b = (\<lambda>(q, e). takeWhile (\<lambda>c. c \<noteq> NUL) (drop q b))"

primrec runcmd :: "string \<Rightarrow> cmd \<Rightarrow> prog" where
  "runcmd b (EXEC av) = (if av = [] then Exit
     else Exec (cstr b (av ! 0)) (map (cstr b) av)
       (Print (''exec '' @ cstr b (av ! 0) @ '' failed'' @ [CHR 0x0A]) Exit))"
| "runcmd b (REDIR c file efile mode fd) = Close fd (Open (cstr b (file, efile)) mode (\<lambda>r.
     if r < 0 then Print (''open '' @ cstr b (file, efile) @ '' failed'' @ [CHR 0x0A]) Exit else runcmd b c))"
| "runcmd b (LIST left right) = fork1 (\<lambda>pid. if pid = 0 then runcmd b left else Wait (runcmd b right))"
| "runcmd b (PIPE left right) = Pipe (\<lambda>r. case r of None \<Rightarrow> sh_panic ''pipe''
     | Some (p0, p1) \<Rightarrow> fork1 (\<lambda>pid.
         if pid = 0 then Close 1 (Dup p1 (\<lambda>_. Close p0 (Close p1 (runcmd b left))))
         else fork1 (\<lambda>pid.
           if pid = 0 then Close 0 (Dup p0 (\<lambda>_. Close p0 (Close p1 (runcmd b right))))
           else Close p0 (Close p1 (Wait (Wait Exit))))))"
| "runcmd b (BACK c) = fork1 (\<lambda>pid. if pid = 0 then runcmd b c else Exit)"

section \<open>Reading lines\<close>

text \<open>\<open>gets\<close> of \<^verbatim>\<open>ulib.c\<close> on the characters standard input delivers: the line, and the input left.\<close>

fun gets_loop :: "string \<Rightarrow> nat \<Rightarrow> nat \<Rightarrow> string \<times> string" where
  "gets_loop [] i m = ([], [])"
| "gets_loop (c # cs) i m = (if i + 1 < m
     then if c = CHR 0x0A \<or> c = CHR 0x0D then ([c], cs)
       else let (l, r) = gets_loop cs (i + 1) m in (c # l, r)
     else ([], c # cs))"

definition getcmd :: "string \<Rightarrow> nat \<Rightarrow> (string \<times> string) option" where
  "getcmd inp nbuf = (let (l, r) = gets_loop inp 0 nbuf; buf = l @ replicate (nbuf - length l) NUL in
     if buf ! 0 = NUL then None else Some (buf, r))"

datatype action = Chdir string | Child string

text \<open>The main loop: what the shell does for the lines of its input.\<close>

lemma gets_loop_length: "length (snd (gets_loop inp i m)) \<le> length inp"
  by (induction inp i m rule: gets_loop.induct) (auto simp: Let_def split: prod.splits)

lemma getcmd_length: "getcmd inp 100 = Some (buf, r) \<Longrightarrow> length r < length inp"
proof (cases inp)
  case (Cons c cs)
  assume "getcmd inp 100 = Some (buf, r)"
  then have "r = snd (gets_loop inp 0 100)" by (auto simp: getcmd_def Let_def split: prod.splits if_splits)
  then show ?thesis using gets_loop_length [of cs 1 100] Cons by (auto simp: Let_def split: prod.splits)
qed (simp add: getcmd_def)

function sh_main :: "string \<Rightarrow> action list" where
  "sh_main inp = (case getcmd inp 100 of None \<Rightarrow> []
     | Some (buf, r) \<Rightarrow>
       (if take 3 buf = ''cd ''
        then Chdir (cstr (buf[length (takeWhile (\<lambda>c. c \<noteq> NUL) buf) - 1 := NUL]) (3, 0))
        else Child buf) # sh_main r)"
  by pat_completeness auto
termination by (relation "measure length") (auto dest: getcmd_length)

section \<open>Tokens: positions\<close>

definition wordc :: "char \<Rightarrow> bool" where
  "wordc c \<longleftrightarrow> c \<noteq> NUL \<and> c \<notin> set whitespace \<and> c \<notin> set symbols"

definition wspan :: "string \<Rightarrow> nat \<times> nat \<Rightarrow> bool" where
  "wspan s = (\<lambda>(q, e). q \<le> e \<and> e \<le> length s \<and> (\<forall>k\<in>{q..<e}. wordc (s ! k)) \<and> \<not> wordc (rd s e))"

lemma NUL_notin [simp]: "NUL \<notin> set whitespace" "NUL \<notin> set symbols" "\<not> wordc NUL"
  by (auto simp: whitespace_def symbols_def wordc_def)

lemma skip_white_bounds: "i \<le> length s \<Longrightarrow> i \<le> skip_white s i \<and> skip_white s i \<le> length s"
proof (induction s i rule: skip_white.induct)
  case (1 s i)
  then show ?case unfolding skip_white.simps [of s i] by auto
qed

lemma skip_white_stop: "rd s (skip_white s i) \<notin> set whitespace"
  by (induction s i rule: skip_white.induct) (subst skip_white.simps, auto simp: rd_def)

lemma word_end_span: "i \<le> length s \<Longrightarrow> NUL \<notin> set s \<Longrightarrow> wspan s (i, word_end s i)"
proof (induction s i rule: word_end.induct)
  case (1 s i)
  show ?case
  proof (cases "i < length s \<and> rd s i \<notin> set whitespace \<and> rd s i \<notin> set symbols")
    case True
    then have w: "wordc (s ! i)" using 1(3) by (auto simp: wordc_def rd_def in_set_conv_nth)
    have IH: "wspan s (i + 1, word_end s (i + 1))" using 1 True by simp
    have "wordc (s ! k)" if "i \<le> k" "k < word_end s (i + 1)" for k
      using that IH w by (cases "k = i") (auto simp: wspan_def)
    then show ?thesis using True IH by (subst word_end.simps) (auto simp: wspan_def)
  next
    case False
    then show ?thesis using 1(2) by (subst word_end.simps) (auto simp: wspan_def wordc_def rd_def)
  qed
qed

lemma word_end_less: "wordc (rd s i) \<Longrightarrow> i < word_end s i"
proof -
  assume w: "wordc (rd s i)"
  have "i \<le> word_end s i" for i
    by (induction s i rule: word_end.induct) (subst word_end.simps, auto)
  from this [of "i + 1"] w show ?thesis
    by (subst word_end.simps) (auto simp: wordc_def rd_def split: if_splits)
qed

text \<open>What \<open>gettoken\<close> promises: it stays inside the text, and moves forward unless it returns 0.\<close>

lemma gettoken_ok:
  assumes "gettoken s i = (t, q, e, j)" and "i \<le> length s" and "NUL \<notin> set s"
  shows "i \<le> j \<and> j \<le> length s \<and> (t \<noteq> NUL \<longrightarrow> i < j) \<and> (t = CHR ''a'' \<longrightarrow> wspan s (q, e))"
proof -
  let ?q = "skip_white s i"
  have q: "i \<le> ?q" "?q \<le> length s" using skip_white_bounds [OF assms(2)] by auto
  have lt: "rd s k \<noteq> NUL \<Longrightarrow> k < length s" for k by (auto simp: rd_def split: if_splits)
  have "?q \<le> e \<and> e \<le> length s \<and> (t \<noteq> NUL \<longrightarrow> ?q < e) \<and> (t = CHR ''a'' \<longrightarrow> wspan s (q, e)) \<and> j = skip_white s e"
  proof (cases "rd s ?q = NUL \<or> rd s ?q \<in> set symbols")
    case True
    then show ?thesis
      using assms(1) q lt [of ?q] lt [of "?q + 1"] by (auto simp: gettoken_def Let_def symbols_def split: if_splits)
  next
    case False
    then have w: "wordc (rd s ?q)" using skip_white_stop [of s i] by (auto simp: wordc_def)
    have "t = CHR ''a''" "q = ?q" "e = word_end s ?q" "j = skip_white s e"
      using assms(1) False by (auto simp: gettoken_def Let_def symbols_def split: if_splits)
    with word_end_span [OF q(2) assms(3)] word_end_less [OF w] show ?thesis by (auto simp: wspan_def)
  qed
  with skip_white_bounds [of e s] q show ?thesis by auto
qed

lemma peek_ok: "peek s i toks = (j, b) \<Longrightarrow> i \<le> length s \<Longrightarrow>
    i \<le> j \<and> j \<le> length s \<and> (b \<longrightarrow> rd s j \<in> set toks \<and> rd s j \<noteq> NUL)"
  using skip_white_bounds [of i s] by (auto simp: peek_def Let_def)

text \<open>A token that \<open>peek\<close> has seen is not the end of the text.\<close>

lemma gettoken_peeked:
  assumes "peek s i toks = (j, b)" and b and "gettoken s j = (t, q, e, k)" and "i \<le> length s" and "NUL \<notin> set s"
  shows "i < k \<and> k \<le> length s"
proof -
  have p: "j = skip_white s i" "i \<le> j" "j \<le> length s" "rd s j \<noteq> NUL"
    using peek_ok [OF assms(1,4)] assms(1,2) by (auto simp: peek_def Let_def)
  have "skip_white s j = j" using p(1) skip_white_stop [of s i] by (subst skip_white.simps) simp
  then have "t \<noteq> NUL" using assms(3) p(4) by (auto simp: gettoken_def Let_def split: if_splits)
  with gettoken_ok [OF assms(3) p(3) assms(5)] p show ?thesis by auto
qed

section \<open>Well-formed commands\<close>

text \<open>
  Every counted string of a parsed command is a word of the text, followed by a character that is not part of
  a word, an \<open>EXEC\<close> node has a free slot for the terminating null pointer, and redirections are of descriptors 0 and 1.
\<close>

fun cmd_ok :: "string \<Rightarrow> cmd \<Rightarrow> bool" where
  "cmd_ok s (EXEC av) = (length av < MAXARGS \<and> (\<forall>a\<in>set av. wspan s a))"
| "cmd_ok s (REDIR c f e m d) = (cmd_ok s c \<and> wspan s (f, e) \<and> d \<in> {0, 1})"
| "cmd_ok s (PIPE l r) = (cmd_ok s l \<and> cmd_ok s r)"
| "cmd_ok s (LIST l r) = (cmd_ok s l \<and> cmd_ok s r)"
| "cmd_ok s (BACK c) = cmd_ok s c"

text \<open>The arguments collected so far by \<open>parseexec\<close>.\<close>

fun argn :: "cmd \<Rightarrow> nat option" where
  "argn (EXEC av) = Some (length av)"
| "argn (REDIR c f e m d) = argn c"
| "argn c = None"

text \<open>
  A parsing function is good at index \<open>i\<close> when it returns a well-formed command and an index between \<open>i\<close> and
  the end of the text, or panics; it runs out of fuel only with less than \<open>need\<close>.
\<close>

definition good :: "string \<Rightarrow> nat \<Rightarrow> bool \<Rightarrow> (cmd \<Rightarrow> bool) \<Rightarrow> cmd parsed \<Rightarrow> bool" where
  "good s i short P r = (case r of Parsed c j \<Rightarrow> cmd_ok s c \<and> P c \<and> i \<le> j \<and> j \<le> length s | Syntax e \<Rightarrow> True | OutOfFuel \<Rightarrow> short)"

lemma good_simps [simp]:
  "good s i short P (Parsed c j) = (cmd_ok s c \<and> P c \<and> i \<le> j \<and> j \<le> length s)"
  "good s i short P (Syntax e)" "good s i short P OutOfFuel = short"
  by (simp_all add: good_def)

lemma good_bind:
  assumes "good s i sh P r" and "sh \<Longrightarrow> sh'" and "\<And>c j. cmd_ok s c \<Longrightarrow> P c \<Longrightarrow> i \<le> j \<Longrightarrow> j \<le> length s \<Longrightarrow> good s i sh' Q (f c j)"
  shows "good s i sh' Q (pbind r f)"
  using assms by (cases r) (auto simp: pbind_def)

lemma good_mono: "good s j sh P r \<Longrightarrow> i \<le> j \<Longrightarrow> (sh \<Longrightarrow> sh') \<Longrightarrow> (\<And>c. P c \<Longrightarrow> P' c) \<Longrightarrow> good s i sh' P' r"
  by (cases r) auto

lemma cmd_ok_constr [simp]:
  "cmd_ok s execcmd" "cmd_ok s (redircmd c f e m d) = (cmd_ok s c \<and> wspan s (f, e) \<and> d \<in> {0, 1})"
  "cmd_ok s (pipecmd l r) = (cmd_ok s l \<and> cmd_ok s r)" "cmd_ok s (listcmd l r) = (cmd_ok s l \<and> cmd_ok s r)"
  "cmd_ok s (backcmd c) = cmd_ok s c" "argn execcmd = Some 0" "argn (redircmd c f e m d) = argn c"
  by (simp_all add: execcmd_def redircmd_def pipecmd_def listcmd_def backcmd_def MAXARGS_def)

lemma cmd_ok_add_arg: "cmd_ok s c \<Longrightarrow> argn c = Some n \<Longrightarrow> Suc n < MAXARGS \<Longrightarrow> wspan s a \<Longrightarrow>
    cmd_ok s (add_arg c a) \<and> argn (add_arg c a) = Some (Suc n)"
  by (induction c a rule: add_arg.induct) auto

lemma parseredirs_good:
  "NUL \<notin> set s \<Longrightarrow> i \<le> length s \<Longrightarrow> cmd_ok s c \<Longrightarrow>
   good s i (n \<le> length s - i) (\<lambda>c'. argn c' = argn c) (parseredirs s n c i)"
proof (induction n arbitrary: c i)
  case (Suc n)
  obtain j b where p: "peek s i ''<>'' = (j, b)" by (cases "peek s i ''<>''")
  obtain t q0 e0 k where g: "gettoken s j = (t, q0, e0, k)" by (cases "gettoken s j")
  obtain t' q e l where g': "gettoken s k = (t', q, e, l)" by (cases "gettoken s k")
  have pk: "i \<le> j" "j \<le> length s" using peek_ok [OF p Suc(3)] by auto
  show ?case
  proof (cases b)
    case False
    then show ?thesis using p pk Suc(4) by simp
  next
    case True
    have k: "i < k" "k \<le> length s" using gettoken_peeked [OF p True g Suc(3) Suc(2)] by auto
    have l: "k \<le> l" "l \<le> length s" "t' = CHR ''a'' \<Longrightarrow> wspan s (q, e)" using gettoken_ok [OF g' k(2) Suc(2)] by auto
    have "good s i (Suc n \<le> length s - i) (\<lambda>c'. argn c' = argn c) (parseredirs s n c' l)"
      if "cmd_ok s c'" "argn c' = argn c" for c'
      by (rule good_mono [OF Suc.IH [OF Suc(2) l(2) that(1)]]) (use k l that(2) in auto)
    then show ?thesis using p g g' True l(3) Suc(4) by auto
  qed
qed simp

lemma parseargs_good:
  "NUL \<notin> set s \<Longrightarrow> i \<le> length s \<Longrightarrow> cmd_ok s c \<Longrightarrow> argn c = Some argc \<Longrightarrow>
   good s i (n \<le> length s - i) (\<lambda>_. True) (parseargs s n c argc i)"
proof (induction n arbitrary: c argc i)
  case (Suc n)
  obtain j b where p: "peek s i ''|)&;'' = (j, b)" by (cases "peek s i ''|)&;''")
  obtain t q e k where g: "gettoken s j = (t, q, e, k)" by (cases "gettoken s j")
  have j: "i \<le> j" "j \<le> length s" using peek_ok [OF p Suc(3)] by auto
  have k: "j \<le> k" "k \<le> length s" "t \<noteq> NUL \<Longrightarrow> j < k" "t = CHR ''a'' \<Longrightarrow> wspan s (q, e)" using gettoken_ok [OF g j(2) Suc(2)] by auto
  show ?case
  proof (cases "b \<or> t \<noteq> CHR ''a'' \<or> argc + 1 \<ge> MAXARGS")
    case True
    then show ?thesis using p g j k(1,2) Suc(4) by (auto simp: Let_def)
  next
    case False
    then have a: "cmd_ok s (add_arg c (q, e))" "argn (add_arg c (q, e)) = Some (Suc argc)"
      using cmd_ok_add_arg [OF Suc(4,5), of "(q, e)"] k(4) by auto
    have "good s k (Suc n \<le> length s - i) (\<lambda>_. True) (pbind (parseredirs s n (add_arg c (q, e)) k) (\<lambda>c i. parseargs s n c (Suc argc) i))"
    proof (rule good_bind [OF parseredirs_good [OF Suc(2) k(2) a(1)]])
      fix c' l
      assume "cmd_ok s c'" "argn c' = argn (add_arg c (q, e))" "k \<le> l" "l \<le> length s"
      then show "good s k (Suc n \<le> length s - i) (\<lambda>_. True) (parseargs s n c' (Suc argc) l)"
        using good_mono [OF Suc.IH [OF Suc(2), of l c' "Suc argc"], of k] a(2) False k j by auto
    qed (use False k j in auto)
    then show ?thesis using p g False j k by (auto elim!: good_mono)
  qed
qed simp

lemma parsebacks_good:
  "NUL \<notin> set s \<Longrightarrow> i \<le> length s \<Longrightarrow> cmd_ok s c \<Longrightarrow> good s i (n \<le> length s - i) (\<lambda>_. True) (parsebacks s n c i)"
proof (induction n arbitrary: c i)
  case (Suc n)
  obtain j b where p: "peek s i ''&'' = (j, b)" by (cases "peek s i ''&''")
  obtain t q e k where g: "gettoken s j = (t, q, e, k)" by (cases "gettoken s j")
  show ?case
  proof (cases b)
    case True
    have k: "i < k" "k \<le> length s" using gettoken_peeked [OF p True g Suc(3) Suc(2)] by auto
    show ?thesis using p g True good_mono [OF Suc.IH [OF Suc(2) k(2), of "backcmd c"], of i] k Suc(4) by auto
  qed (use p peek_ok [OF p Suc(3)] Suc(4) in simp)
qed simp

text \<open>One continuation of a parsing function: look for a token of \<open>toks\<close>, and go on behind it.\<close>

lemma good_peek:
  assumes "NUL \<notin> set s" and "i \<le> j" and "j \<le> length s"
    and "\<And>k. j \<le> k \<Longrightarrow> k \<le> length s \<Longrightarrow> good s i sh P (f k False)"
    and "\<And>k t q e l. j \<le> k \<Longrightarrow> k \<le> length s \<Longrightarrow> gettoken s k = (t, q, e, l) \<Longrightarrow> j < l \<Longrightarrow> l \<le> length s \<Longrightarrow> good s i sh P (f k True)"
  shows "good s i sh P (case peek s j toks of (k, b) \<Rightarrow> f k b)"
proof -
  obtain k b where p: "peek s j toks = (k, b)" by (cases "peek s j toks")
  obtain t q e l where g: "gettoken s k = (t, q, e, l)" by (cases "gettoken s k")
  have "j \<le> k" "k \<le> length s" using peek_ok [OF p assms(3)] by auto
  then show ?thesis
    using p assms(4) [of k] assms(5) [OF _ _ g] gettoken_peeked [OF p _ g assms(3,1)] by (cases b) auto
qed

lemma parse_good:
  "NUL \<notin> set s \<Longrightarrow> i \<le> length s \<Longrightarrow> good s i (n < 4 * (length s - i) + 4) (\<lambda>_. True) (parseline s n i)"
  "NUL \<notin> set s \<Longrightarrow> i \<le> length s \<Longrightarrow> good s i (n < 4 * (length s - i) + 3) (\<lambda>_. True) (parsepipe s n i)"
  "NUL \<notin> set s \<Longrightarrow> i \<le> length s \<Longrightarrow> good s i (n < 4 * (length s - i) + 1) (\<lambda>_. True) (parseblock s n i)"
  "NUL \<notin> set s \<Longrightarrow> i \<le> length s \<Longrightarrow> good s i (n < 4 * (length s - i) + 2) (\<lambda>_. True) (parseexec s n i)"
proof (induction n arbitrary: i)
  case 0
  { case 1 then show ?case by simp next case 2 then show ?case by simp
  next case 3 then show ?case by simp next case 4 then show ?case by simp }
next
  case (Suc n)
  { case 1
    have nx: "good s i (Suc n < 4 * (length s - i) + 4) (\<lambda>_. True) (pbind (parseline s n l) (\<lambda>c i. Parsed (listcmd cmd c) i))"
      if "i < l" "l \<le> length s" "cmd_ok s cmd" for l cmd
      by (rule good_mono [OF good_bind [OF Suc.IH(1) [OF 1(1) that(2)]], where i = i]) (use that in auto)
    show ?case
      unfolding parseline.simps
    proof (rule good_bind [OF Suc.IH(2) [OF 1]])
      fix c j assume c: "cmd_ok s c" "i \<le> j" "j \<le> length s"
      have "good s i (n \<le> length s - j) (\<lambda>_. True) (parsebacks s n c j)"
        by (rule good_mono [OF parsebacks_good [OF 1(1) c(3,1)]]) (use c in auto)
      then show "good s i (Suc n < 4 * (length s - i) + 4) (\<lambda>_. True) (pbind (parsebacks s n c j) (\<lambda>cmd i.
          let (i, more) = peek s i '';'' in
          if more then let (_, _, _, i) = gettoken s i in pbind (parseline s n i) (\<lambda>c i. Parsed (listcmd cmd c) i)
          else Parsed cmd i))"
        by (rule good_bind) (use c 1 in \<open>auto intro!: good_peek nx [simplified]\<close>)
    qed simp
  next case 2
    have nx: "good s i (Suc n < 4 * (length s - i) + 3) (\<lambda>_. True) (pbind (parsepipe s n l) (\<lambda>c i. Parsed (pipecmd cmd c) i))"
      if "i < l" "l \<le> length s" "cmd_ok s cmd" for l cmd
      by (rule good_mono [OF good_bind [OF Suc.IH(2) [OF 2(1) that(2)]], where i = i]) (use that in auto)
    show ?case
      unfolding parsepipe.simps
      by (rule good_bind [OF Suc.IH(4) [OF 2]]) (use 2 in \<open>auto intro!: good_peek nx [simplified]\<close>)
  next case 3
    show ?case
      unfolding parseblock.simps Let_def
    proof (rule good_peek)
      fix k t q e l assume l: "i \<le> k" "gettoken s k = (t, q, e, l)" "i < l" "l \<le> length s"
      have rd: "good s l (Suc n < 4 * (length s - i) + 1) (\<lambda>_. True) (parseredirs s n c m)"
        if "cmd_ok s c" "l \<le> m" "m \<le> length s" for c m
        by (rule good_mono [OF parseredirs_good [OF 3(1) that(3,1)]]) (use that l in auto)
      have "good s l (Suc n < 4 * (length s - i) + 1) (\<lambda>_. True) (pbind (parseline s n l) (\<lambda>cmd i.
         case peek s i '')'' of (i, more) \<Rightarrow>
         if \<not> more then Syntax ''syntax - missing )''
         else case gettoken s i of (_, _, _, i) \<Rightarrow> parseredirs s n cmd i))"
        by (rule good_bind [OF Suc.IH(1) [OF 3(1) l(4)]]) (use 3 l in \<open>auto intro!: good_peek rd [simplified]\<close>)
      then show "good s i (Suc n < 4 * (length s - i) + 1) (\<lambda>_. True)
         (if \<not> True then Syntax ''parseblock'' else case gettoken s k of (_, _, _, i) \<Rightarrow> pbind (parseline s n i) (\<lambda>cmd i.
         case peek s i '')'' of (i, more) \<Rightarrow>
         if \<not> more then Syntax ''syntax - missing )''
         else case gettoken s i of (_, _, _, i) \<Rightarrow> parseredirs s n cmd i))"
        using l by (auto elim: good_mono simp: Let_def)
    qed (use 3 in auto)
  next case 4
    show ?case
      unfolding parseexec.simps Let_def
    proof (rule good_peek)
      fix k assume k: "i \<le> k" "k \<le> length s"
      have pa: "good s i (Suc n < 4 * (length s - i) + 2) (\<lambda>_. True) (parseargs s n c 0 m)"
        if "cmd_ok s c" "argn c = argn execcmd" "i \<le> m" "m \<le> length s" for c m
        by (rule good_mono [OF parseargs_good [OF 4(1) that(4,1)]]) (use that k in auto)
      have "good s i (n \<le> length s - k) (\<lambda>c. argn c = argn execcmd) (parseredirs s n execcmd k)"
        by (rule good_mono [OF parseredirs_good [OF 4(1) k(2)]]) (use k in auto)
      then show "good s i (Suc n < 4 * (length s - i) + 2) (\<lambda>_. True) (if False then parseblock s n k
          else pbind (parseredirs s n execcmd k) (\<lambda>rc i. parseargs s n rc 0 i))"
        by (simp, rule good_bind) (use k pa in auto)
    next
      fix k t q e l assume l: "i \<le> k" "k \<le> length s" "i < l" "l \<le> length s"
      show "good s i (Suc n < 4 * (length s - i) + 2) (\<lambda>_. True) (if True then parseblock s n k
          else pbind (parseredirs s n execcmd k) (\<lambda>rc i. parseargs s n rc 0 i))"
        by (simp, rule good_mono [OF Suc.IH(3) [OF 4(1) l(2)] l(1)]) (use l in auto)
    qed (use 4 in auto) }
qed

section \<open>Terminating the strings\<close>

text \<open>The words a command refers to, read from the text before and as C strings after \<open>nulterminate\<close>.\<close>

datatype acmd =
    Aexec "string list"
  | Aredir acmd string nat nat
  | Apipe acmd acmd
  | Alist acmd acmd
  | Aback acmd

fun words_of :: "(nat \<times> nat \<Rightarrow> string) \<Rightarrow> cmd \<Rightarrow> acmd" where
  "words_of f (EXEC av) = Aexec (map f av)"
| "words_of f (REDIR c q e m d) = Aredir (words_of f c) (f (q, e)) m d"
| "words_of f (PIPE l r) = Apipe (words_of f l) (words_of f r)"
| "words_of f (LIST l r) = Alist (words_of f l) (words_of f r)"
| "words_of f (BACK c) = Aback (words_of f c)"

definition token :: "string \<Rightarrow> nat \<times> nat \<Rightarrow> string" where
  "token s = (\<lambda>(q, e). take (e - q) (drop q s))"

fun spans :: "cmd \<Rightarrow> (nat \<times> nat) set" where
  "spans (EXEC av) = set av"
| "spans (REDIR c q e m d) = insert (q, e) (spans c)"
| "spans (PIPE l r) = spans l \<union> spans r"
| "spans (LIST l r) = spans l \<union> spans r"
| "spans (BACK c) = spans c"

lemma spans_ok: "cmd_ok s c \<Longrightarrow> a \<in> spans c \<Longrightarrow> wspan s a"
  by (induction c) auto

lemma words_of_cong: "(\<And>a. a \<in> spans c \<Longrightarrow> f a = g a) \<Longrightarrow> words_of f c = words_of g c"
  by (induction c) auto

lemma nth_upd: "k < length xs \<Longrightarrow> xs[i := x] ! k = (if i = k then x else xs ! k)"
  by (cases "i = k") auto

lemma nul_fold: "length (fold (\<lambda>(q, eq) b. b[eq := NUL]) av b) = length b \<and>
    (k < length b \<longrightarrow> fold (\<lambda>(q, eq) b. b[eq := NUL]) av b ! k = (if \<exists>q. (q, k) \<in> set av then NUL else b ! k))"
  by (induction av arbitrary: b) (auto simp: nth_upd)

lemma nulterminate_nth: "length (nulterminate c b) = length b \<and>
    (k < length b \<longrightarrow> nulterminate c b ! k = (if \<exists>q. (q, k) \<in> spans c then NUL else b ! k))"
proof (induction c arbitrary: b)
  case (EXEC av)
  then show ?case using nul_fold [of av b k] by simp
qed (auto simp: nth_upd)

lemma takeWhile_drop_eq:
  assumes "q \<le> e" and "e < length b" and "b ! e = NUL" and "\<forall>k\<in>{q..<e}. b ! k \<noteq> NUL"
  shows "takeWhile (\<lambda>c. c \<noteq> NUL) (drop q b) = take (e - q) (drop q b)"
proof (rule takeWhile_eq_take_P_nth)
  fix i
  assume "i < e - q" "i < length (drop q b)"
  then show "drop q b ! i \<noteq> NUL" using assms(4) by simp
qed (use assms in simp)

lemma nulterminate_words:
  assumes "cmd_ok s c" and "NUL \<notin> set s" and "take (length s) buf = s" and "length s < length buf"
  shows "words_of (cstr (nulterminate c buf)) c = words_of (token s) c"
proof (rule words_of_cong)
  fix a assume a: "a \<in> spans c"
  obtain q e where qe: "a = (q, e)" by (cases a)
  let ?b = "nulterminate c buf"
  have w: "q \<le> e" "e \<le> length s" "\<forall>k\<in>{q..<e}. wordc (s ! k)" using spans_ok [OF assms(1) a] by (auto simp: wspan_def qe)
  have same: "?b ! k = s ! k" if "k \<in> {q..<e}" for k
  proof -
    have "k < length s" using that w(2) by auto
    have "\<nexists>p. (p, k) \<in> spans c"
    proof
      assume "\<exists>p. (p, k) \<in> spans c"
      then obtain p where "(p, k) \<in> spans c" by blast
      then have "\<not> wordc (rd s k)" using spans_ok [OF assms(1)] by (fastforce simp: wspan_def)
      with w(3) that \<open>k < length s\<close> show False by (simp add: rd_def)
    qed
    then have "?b ! k = buf ! k" using nulterminate_nth [of c buf k] \<open>k < length s\<close> assms(4) by simp
    also have "\<dots> = take (length s) buf ! k" using \<open>k < length s\<close> by simp
    finally show ?thesis using assms(3) by simp
  qed
  have nul: "?b ! e = NUL" using nulterminate_nth [of c buf e] a qe w(2) assms(4) by force
  have len: "e < length ?b" using nulterminate_nth [of c buf e] w(2) assms(4) by simp
  have "wordc (?b ! k)" if "k \<in> {q..<e}" for k using same [OF that] w(3) that by simp
  then have "cstr ?b a = take (e - q) (drop q ?b)"
    unfolding cstr_def qe prod.case by (intro takeWhile_drop_eq [OF w(1) len nul]) (auto simp: wordc_def)
  also have "\<dots> = take (e - q) (drop q s)"
    by (rule nth_equalityI) (use w(2) len same in auto)
  finally show "cstr ?b a = token s a" by (simp add: token_def qe)
qed

section \<open>The meaning of a command\<close>

text \<open>
  The system calls a shell process makes, on its table of open files: \<open>open\<close>, \<open>pipe\<close> and \<open>dup\<close> take the lowest
  free descriptor. \<open>execs\<close> lists the programs started, each with its arguments and its open files, when no call
  fails; pipes are numbered.
\<close>

datatype fobj = Inherited nat | Opened string nat | PipeRead nat | PipeWrite nat

definition fdalloc :: "(nat \<Rightarrow> fobj option) \<Rightarrow> nat option" where
  "fdalloc t = find (\<lambda>n. t n = None) [0..<16]"

primrec execs :: "prog \<Rightarrow> (nat \<Rightarrow> fobj option) \<Rightarrow> nat \<Rightarrow> (string list \<times> (nat \<Rightarrow> fobj option)) list \<times> nat" where
  "execs Exit t n = ([], n)"
| "execs (Exec f av k) t n = ([(av, t)], n)"
| "execs (Open f m k) t n = (case fdalloc t of None \<Rightarrow> execs (k (- 1)) t n
     | Some d \<Rightarrow> execs (k (int d)) (t(d \<mapsto> Opened f m)) n)"
| "execs (Close d k) t n = execs k (t(d := None)) n"
| "execs (Dup d k) t n = (case fdalloc t of None \<Rightarrow> execs (k (- 1)) t n
     | Some e \<Rightarrow> execs (k (int e)) (t(e := t d)) n)"
| "execs (Pipe k) t n = (case fdalloc t of None \<Rightarrow> execs (k None) t n
     | Some d \<Rightarrow> (case fdalloc (t(d \<mapsto> PipeRead n)) of None \<Rightarrow> execs (k None) t n
       | Some e \<Rightarrow> execs (k (Some (d, e))) (t(d \<mapsto> PipeRead n, e \<mapsto> PipeWrite n)) (n + 1)))"
| "execs (Fork k) t n = (let (xs, n) = execs (k 0) t n; (ys, n) = execs (k 1) t n in (xs @ ys, n))"
| "execs (Wait k) t n = execs k t n"
| "execs (Print s k) t n = execs k t n"

text \<open>What a command means: which programs run, with which standard input and output.\<close>

primrec meaning :: "acmd \<Rightarrow> (nat \<Rightarrow> fobj option) \<Rightarrow> nat \<Rightarrow> (string list \<times> (nat \<Rightarrow> fobj option)) list \<times> nat" where
  "meaning (Aexec ws) t n = (if ws = [] then [] else [(ws, t)], n)"
| "meaning (Aredir c f m d) t n = meaning c (t(d \<mapsto> Opened f m)) n"
| "meaning (Apipe l r) t n = (let (xs, n') = meaning l (t(1 \<mapsto> PipeWrite n)) (n + 1);
     (ys, n'') = meaning r (t(0 \<mapsto> PipeRead n)) n' in (xs @ ys, n''))"
| "meaning (Alist l r) t n = (let (xs, n') = meaning l t n; (ys, n'') = meaning r t n' in (xs @ ys, n''))"
| "meaning (Aback c) t n = meaning c t n"

definition std :: "(nat \<Rightarrow> fobj option) \<Rightarrow> bool" where
  "std t \<longleftrightarrow> dom t = {0, 1, 2}"

lemma std_None: "std t \<Longrightarrow> (t n = None) = (n \<notin> {0, 1, 2})"
  unfolding std_def by blast

lemma std_Some: "std t \<Longrightarrow> \<exists>x. t 0 = Some x" "std t \<Longrightarrow> \<exists>x. t (Suc 0) = Some x" "std t \<Longrightarrow> \<exists>x. t 2 = Some x"
  by (auto simp: std_def)

lemma std_upd [intro]: "std t \<Longrightarrow> d \<in> {0, 1, 2} \<Longrightarrow> std (t(d \<mapsto> x))"
  by (auto simp: std_def)

lemma fdalloc_first:
  "t 0 = None \<Longrightarrow> fdalloc t = Some 0"
  "t 0 \<noteq> None \<Longrightarrow> t 1 = None \<Longrightarrow> fdalloc t = Some 1"
  "t 0 \<noteq> None \<Longrightarrow> t 1 \<noteq> None \<Longrightarrow> t 2 \<noteq> None \<Longrightarrow> t 3 = None \<Longrightarrow> fdalloc t = Some 3"
  "t 0 \<noteq> None \<Longrightarrow> t 1 \<noteq> None \<Longrightarrow> t 2 \<noteq> None \<Longrightarrow> t 3 \<noteq> None \<Longrightarrow> t 4 = None \<Longrightarrow> fdalloc t = Some 4"
  by (simp_all add: fdalloc_def upt_rec [of _ 16] numeral_eq_Suc)

lemma runcmd_meaning:
  "cmd_ok s c \<Longrightarrow> std t \<Longrightarrow> execs (runcmd b c) t n = meaning (words_of (cstr b) c) t n"
proof (induction c arbitrary: t n)
  case (EXEC av)
  then show ?case by simp
next
  case (REDIR c f e m d)
  have "fdalloc (t(d := None)) = Some d"
    using REDIR.prems by (auto simp: std_None dest: std_Some intro!: fdalloc_first [unfolded One_nat_def])
  moreover have "std (t(d \<mapsto> Opened (cstr b (f, e)) m))" using REDIR.prems by auto
  ultimately show ?case using REDIR by simp
next
  case (PIPE l r)
  let ?t = "t(3 \<mapsto> PipeRead n, 4 \<mapsto> PipeWrite n)"
  have p: "fdalloc t = Some 3" "fdalloc (t(3 \<mapsto> PipeRead n)) = Some 4" "fdalloc (?t(1 := None)) = Some 1" "fdalloc (?t(0 := None)) = Some 0"
    using PIPE.prems(2) by (auto simp: std_None dest: std_Some intro!: fdalloc_first [unfolded One_nat_def])
  have l: "?t(1 := Some (PipeWrite n), 3 := None, 4 := None) = t(1 \<mapsto> PipeWrite n)"
    and r: "?t(0 := Some (PipeRead n), 3 := None, 4 := None) = t(0 \<mapsto> PipeRead n)"
    using std_None [OF PIPE.prems(2), of 3] std_None [OF PIPE.prems(2), of 4] by (auto simp: fun_eq_iff)
  show ?case
    using PIPE p l r by (simp add: fork1_def std_upd Let_def split: prod.splits)
next
  case (LIST l r)
  then show ?case by (simp add: fork1_def Let_def split: prod.splits)
next
  case (BACK c)
  then show ?case by (simp add: fork1_def Let_def split: prod.splits)
qed

lemma pbind_Parsed: "pbind r f = Parsed c j \<longleftrightarrow> (\<exists>a i. r = Parsed a i \<and> f a i = Parsed c j)"
  by (auto simp: pbind_def split: parsed.splits)

section \<open>Properties\<close>

lemma text_ok:
  assumes "s = takeWhile (\<lambda>c. c \<noteq> NUL) buf" and "NUL \<in> set buf"
  shows "NUL \<notin> set s" and "take (length s) buf = s" and "length s < length buf"
proof -
  show n: "NUL \<notin> set s" using assms(1) set_takeWhileD by fastforce
  show t: "take (length s) buf = s" unfolding assms(1) by (rule takeWhile_eq_take [symmetric])
  have "length s \<noteq> length buf" using n t assms(2) by auto
  then show "length s < length buf" using assms(1) length_takeWhile_le [of "\<lambda>c. c \<noteq> NUL" buf] by simp
qed

lemma parsecmd_Parsed:
  assumes "parsecmd buf = Parsed (c, b) i" and "s = takeWhile (\<lambda>c. c \<noteq> NUL) buf"
  shows "cmd_ok s c" and "b = nulterminate c buf"
proof -
  have n: "NUL \<notin> set s" using assms(2) set_takeWhileD by fastforce
  obtain j where p: "parseline s (4 * length s + 4) 0 = Parsed c j" "b = nulterminate c buf"
    using assms by (auto simp: parsecmd_def pbind_Parsed Let_def case_prod_unfold split: if_splits)
  show "cmd_ok s c" using parse_good(1) [OF n, of 0 "4 * length s + 4"] p(1) by simp
  show "b = nulterminate c buf" by (rule p(2))
qed

text \<open>
  C12. The parser returns on every line: each of its loops and recursive calls consumes text, so that it ends
  with a command or with one of its panics.
\<close>

theorem parsecmd_returns: "parsecmd buf \<noteq> OutOfFuel"
proof -
  let ?s = "takeWhile (\<lambda>c. c \<noteq> NUL) buf"
  have "NUL \<notin> set ?s" using set_takeWhileD by fastforce
  then have "parseline ?s (4 * length ?s + 4) 0 \<noteq> OutOfFuel"
    using parse_good(1) [of ?s 0 "4 * length ?s + 4"] by auto
  then show ?thesis
    by (auto simp: parsecmd_def Let_def pbind_def split: parsed.splits prod.splits if_splits)
qed

text \<open>
  C13. The strings of a parsed command are exactly its words. A NUL written by \<open>nulterminate\<close> behind one word
  never falls into another: reading every argument and file name as a C string from the modified line gives
  the word the parser found in the line. Every \<open>EXEC\<close> node has room for its terminating null pointer.
\<close>

theorem parsecmd_words:
  assumes "NUL \<in> set buf" and "parsecmd buf = Parsed (c, b) i"
  shows "words_of (cstr b) c = words_of (token (takeWhile (\<lambda>x. x \<noteq> NUL) buf)) c \<and> cmd_ok (takeWhile (\<lambda>x. x \<noteq> NUL) buf) c"
  using nulterminate_words [OF parsecmd_Parsed(1) [OF assms(2) refl] text_ok [OF refl assms(1)]]
    parsecmd_Parsed [OF assms(2) refl] by simp


text \<open>The line \<open>a|b>c\<close>.\<close>

definition demo_line :: string where
  "demo_line = ''a|b>c'' @ [NUL]"

definition demo_cmd :: cmd where
  "demo_cmd = PIPE (EXEC [(0, 1)]) (REDIR (EXEC [(2, 3)]) 4 5 0x201 1)"

lemma demo_parse: "parsecmd demo_line = Parsed (demo_cmd, [CHR ''a'', NUL, CHR ''b'', NUL, CHR ''c'', NUL]) 5"
  by code_simp

theorem parsecmd_words_witness:
  "words_of (cstr [CHR ''a'', NUL, CHR ''b'', NUL, CHR ''c'', NUL]) demo_cmd
    = words_of (token (takeWhile (\<lambda>x. x \<noteq> NUL) demo_line)) demo_cmd"
  using parsecmd_words [of demo_line, OF _ demo_parse] by (simp add: demo_line_def)


end
