(* ===== verification/Utils.thy ===== *)
theory Utils
  imports Prelude
begin

text \<open>
  Two user programs: the pattern matcher and the line loop of \<^verbatim>\<open>grep.c\<close>, and the counters of \<^verbatim>\<open>wc.c\<close>. A C string is
  the list of its characters before the NUL. Input arrives as the list of the chunks \<open>read\<close> returns, whose sizes
  the kernel chooses. The matcher is compared with a declarative meaning of patterns.
\<close>

section \<open>The matcher\<close>

function matchhere :: "string \<Rightarrow> string \<Rightarrow> bool"
and matchstar :: "char \<Rightarrow> string \<Rightarrow> string \<Rightarrow> bool" where
  "matchhere re tx = (case re of [] \<Rightarrow> True
     | c # re1 \<Rightarrow>
       if re1 \<noteq> [] \<and> hd re1 = CHR ''*'' then matchstar c (tl re1) tx
       else if c = CHR ''$'' \<and> re1 = [] then tx = []
       else (case tx of [] \<Rightarrow> False | t # ts \<Rightarrow> (c = CHR ''.'' \<or> c = t) \<and> matchhere re1 ts))"
| "matchstar c re tx = (matchhere re tx \<or>
     (case tx of [] \<Rightarrow> False | t # ts \<Rightarrow> (t = c \<or> c = CHR ''.'') \<and> matchstar c re ts))"
  by pat_completeness auto
termination
  by (relation "measures [\<lambda>x. case x of Inl (re, t) \<Rightarrow> length re | Inr (c, re, t) \<Rightarrow> length re,
      \<lambda>x. case x of Inl (re, t) \<Rightarrow> length t | Inr (c, re, t) \<Rightarrow> length t,
      \<lambda>x. case x of Inl (re, t) \<Rightarrow> 0 | Inr (c, re, t) \<Rightarrow> 1]") auto

declare matchhere.simps [simp del] matchstar.simps [simp del]

fun match_from :: "string \<Rightarrow> string \<Rightarrow> bool" where
  "match_from re [] = matchhere re []"
| "match_from re (t # ts) = (matchhere re (t # ts) \<or> match_from re ts)"

definition match_re :: "string \<Rightarrow> string \<Rightarrow> bool" where
  "match_re re tx = (if re \<noteq> [] \<and> hd re = CHR ''^'' then matchhere (tl re) tx else match_from re tx)"

section \<open>The line loop of grep\<close>

text \<open>\<open>strchr(p, newline)\<close> in the buffer: the line before the newline and what follows it.\<close>

fun find_nl :: "string \<Rightarrow> (string \<times> string) option" where
  "find_nl [] = None"
| "find_nl (c # s) = (if c = CHR 0x00 then None else if c = CHR 0x0A then Some ([], s)
     else map_option (\<lambda>(l, r). (c # l, r)) (find_nl s))"

lemma find_nl_length: "find_nl s = Some (l, r) \<Longrightarrow> length s = length l + length r + 1"
  by (induction s arbitrary: l) (auto split: if_splits)

text \<open>The inner loop: what it writes, and the text at \<open>p\<close> when it ends.\<close>

function grep_lines :: "string \<Rightarrow> string \<Rightarrow> string \<times> string" where
  "grep_lines pat p = (case find_nl p of None \<Rightarrow> ([], p)
     | Some (l, r) \<Rightarrow> (let (w, q) = grep_lines pat r in ((if match_re pat l then l @ [CHR 0x0A] else []) @ w, q)))"
  by pat_completeness auto
termination by (relation "measure (\<lambda>(pat, p). length p)") (auto dest: find_nl_length)

text \<open>The outer loop with the first \<open>m\<close> characters of \<open>buf\<close> as \<open>b\<close>: a buffer without a newline is thrown away.\<close>

fun grep_loop :: "string \<Rightarrow> string \<Rightarrow> string list \<Rightarrow> string" where
  "grep_loop pat b [] = []"
| "grep_loop pat b (chunk # cs) = (let b = b @ chunk; (w, p) = grep_lines pat b in
     w @ grep_loop pat (if length p = length b then [] else p) cs)"

definition grep :: "string \<Rightarrow> string list \<Rightarrow> string" where
  "grep pat chunks = grep_loop pat [] chunks"

section \<open>wc\<close>

record wcst =
  wl :: nat
  ww :: nat
  wc :: nat
  winword :: bool

definition wc_char :: "char \<Rightarrow> wcst \<Rightarrow> wcst" where
  "wc_char ch s = (let s = s\<lparr>wc := wc s + 1\<rparr>;
       s = (if ch = CHR 0x0A then s\<lparr>wl := wl s + 1\<rparr> else s) in
     if ch \<in> {CHR '' '', CHR 0x0D, CHR 0x09, CHR 0x0A, CHR 0x0B} then s\<lparr>winword := False\<rparr>
     else if \<not> winword s then s\<lparr>ww := ww s + 1, winword := True\<rparr> else s)"

fun wc_loop :: "string list \<Rightarrow> wcst \<Rightarrow> wcst" where
  "wc_loop [] s = s"
| "wc_loop (chunk # cs) s = wc_loop cs (fold wc_char chunk s)"

definition wc_run :: "string list \<Rightarrow> nat \<times> nat \<times> nat" where
  "wc_run chunks = (let s = wc_loop chunks \<lparr>wl = 0, ww = 0, wc = 0, winword = False\<rparr> in (wl s, ww s, wc s))"

section \<open>The meaning of patterns\<close>

datatype atom = Lit char | Any

datatype item = One atom | Star atom | AtEnd

definition atom_of :: "char \<Rightarrow> atom" where
  "atom_of c = (if c = CHR ''.'' then Any else Lit c)"

fun items :: "string \<Rightarrow> item list" where
  "items [] = []"
| "items [c] = [if c = CHR ''$'' then AtEnd else One (atom_of c)]"
| "items (c # d # re) = (if d = CHR ''*'' then Star (atom_of c) # items re else One (atom_of c) # items (d # re))"

fun fits :: "atom \<Rightarrow> char \<Rightarrow> bool" where
  "fits (Lit c) t = (c = t)"
| "fits Any t = True"

text \<open>The rests of the text that an item, and a sequence of items, can leave behind.\<close>

fun item_rests :: "item \<Rightarrow> string \<Rightarrow> string set" where
  "item_rests (One a) tx = {r. \<exists>t. tx = t # r \<and> fits a t}"
| "item_rests (Star a) tx = {r. \<exists>us. tx = us @ r \<and> (\<forall>u\<in>set us. fits a u)}"
| "item_rests AtEnd tx = {r. r = [] \<and> tx = []}"

fun rests :: "item list \<Rightarrow> string \<Rightarrow> string set" where
  "rests [] tx = {tx}"
| "rests (i # is) tx = (\<Union>r\<in>item_rests i tx. rests is r)"

lemma fits_atom_of: "fits (atom_of c) t \<longleftrightarrow> t = c \<or> c = CHR ''.''"
  by (auto simp: atom_of_def)

lemma rests_Star: "rests (Star a # is) tx \<noteq> {} \<longleftrightarrow> (\<exists>us r. tx = us @ r \<and> (\<forall>u\<in>set us. fits a u) \<and> rests is r \<noteq> {})"
  by simp blast

lemma rests_One: "rests (One a # is) tx \<noteq> {} \<longleftrightarrow> (\<exists>t ts. tx = t # ts \<and> fits a t \<and> rests is ts \<noteq> {})"
  by simp blast

lemma ex_split_Cons:
  "(\<exists>us r. t # ts = us @ r \<and> (\<forall>u\<in>set us. P u) \<and> Q r) \<longleftrightarrow>
    Q (t # ts) \<or> (P t \<and> (\<exists>us r. ts = us @ r \<and> (\<forall>u\<in>set us. P u) \<and> Q r))"
proof -
  have "(\<exists>us. R us) \<longleftrightarrow> R [] \<or> (\<exists>u us. R (u # us))" for R :: "'a list \<Rightarrow> bool"
    by (metis list.exhaust)
  note split = this [of "\<lambda>us. \<exists>r. t # ts = us @ r \<and> (\<forall>u\<in>set us. P u) \<and> Q r"]
  show ?thesis unfolding split by auto
qed

lemma matchstar_iff: "matchstar c re tx \<longleftrightarrow> (\<exists>us r. tx = us @ r \<and> (\<forall>u\<in>set us. u = c \<or> c = CHR ''.'') \<and> matchhere re r)"
proof (induction tx)
  case Nil
  then show ?case unfolding matchstar.simps [of c re "[]"] by simp
next
  case (Cons t ts)
  show ?case unfolding ex_split_Cons matchstar.simps [of c re "t # ts"] using Cons by simp
qed

lemma matchhere_iff: "matchhere re tx \<longleftrightarrow> rests (items re) tx \<noteq> {}"
proof (induction re arbitrary: tx rule: items.induct)
  case 1
  then show ?case by (simp add: matchhere.simps)
next
  case (2 c)
  then show ?case by (subst matchhere.simps) (auto simp: matchhere.simps [of "[]"] fits_atom_of split: list.splits)
next
  case (3 c d re)
  show ?case
  proof (cases "d = CHR ''*''")
    case True
    then have "matchhere (c # d # re) tx \<longleftrightarrow> matchstar c re tx" by (subst matchhere.simps) simp
    also have "\<dots> \<longleftrightarrow> (\<exists>us r. tx = us @ r \<and> (\<forall>u\<in>set us. u = c \<or> c = CHR ''.'') \<and> rests (items re) r \<noteq> {})"
      unfolding matchstar_iff using 3(1) [OF True] by simp
    also have "\<dots> \<longleftrightarrow> rests (Star (atom_of c) # items re) tx \<noteq> {}" unfolding rests_Star fits_atom_of ..
    finally show ?thesis using True by simp
  next
    case False
    then have "matchhere (c # d # re) tx \<longleftrightarrow> (\<exists>t ts. tx = t # ts \<and> (c = CHR ''.'' \<or> c = t) \<and> matchhere (d # re) ts)"
      by (subst matchhere.simps) (auto split: list.splits)
    also have "\<dots> \<longleftrightarrow> rests (One (atom_of c) # items (d # re)) tx \<noteq> {}"
      unfolding rests_One fits_atom_of 3(2) [OF False] by blast
    finally show ?thesis using False by simp
  qed
qed

text \<open>
  C15. The recursive matcher implements the meaning of patterns: a pattern with a leading caret matches when its items
  match a prefix of the text, any other when they match at some position, the end of the text included.
\<close>

theorem match_correct:
  "match_re re tx \<longleftrightarrow> (if re \<noteq> [] \<and> hd re = CHR ''^'' then rests (items (tl re)) tx \<noteq> {}
     else \<exists>pre suf. tx = pre @ suf \<and> rests (items re) suf \<noteq> {})"
proof -
  have "match_from re tx \<longleftrightarrow> (\<exists>pre suf. tx = pre @ suf \<and> rests (items re) suf \<noteq> {})"
  proof (induction tx)
    case (Cons t ts)
    have "(\<exists>pre suf. t # ts = pre @ suf \<and> rests (items re) suf \<noteq> {}) \<longleftrightarrow>
        rests (items re) (t # ts) \<noteq> {} \<or> (\<exists>pre suf. ts = pre @ suf \<and> rests (items re) suf \<noteq> {})"
      by (auto simp: Cons_eq_append_conv)
    with Cons show ?case by (simp add: matchhere_iff)
  qed (simp add: matchhere_iff)
  then show ?thesis by (simp only: match_re_def matchhere_iff)
qed

section \<open>Lines\<close>

text \<open>The complete lines of a text, and the part after the last newline.\<close>

fun lines :: "string \<Rightarrow> string list \<times> string" where
  "lines [] = ([], [])"
| "lines (c # s) = (let (ls, r) = lines s in
     if c = CHR 0x0A then ([] # ls, r) else case ls of [] \<Rightarrow> ([], c # r) | l # ls \<Rightarrow> ((c # l) # ls, r))"

definition picked :: "string \<Rightarrow> string list \<Rightarrow> string" where
  "picked pat ls = concat (map (\<lambda>l. l @ [CHR 0x0A]) (filter (match_re pat) ls))"

lemma find_nl_lines:
  "CHR 0x00 \<notin> set s \<Longrightarrow> (case find_nl s of None \<Rightarrow> lines s = ([], s) \<and> CHR 0x0A \<notin> set s
     | Some (l, r) \<Rightarrow> lines s = (l # fst (lines r), snd (lines r)) \<and> CHR 0x0A \<in> set s)"
  by (induction s) (auto simp: Let_def split: option.splits prod.splits list.splits)

lemma find_nl_set: "find_nl s = Some (l, r) \<Longrightarrow> set r \<subseteq> set s"
  by (induction s arbitrary: l) (auto split: if_splits)

lemma grep_lines_eq: "CHR 0x00 \<notin> set s \<Longrightarrow> grep_lines pat s = (picked pat (fst (lines s)), snd (lines s))"
proof (induction pat s rule: grep_lines.induct)
  case (1 pat s)
  show ?case
  proof (cases "find_nl s")
    case None
    then have "lines s = ([], s)" using find_nl_lines [OF 1(2)] by simp
    with None show ?thesis unfolding grep_lines.simps [of pat s] by (simp add: picked_def)
  next
    case (Some lr)
    obtain l r where lr: "lr = (l, r)" by (cases lr)
    have "CHR 0x00 \<notin> set r" using find_nl_set [of s l r] Some lr 1(2) by auto
    then have IH: "grep_lines pat r = (picked pat (fst (lines r)), snd (lines r))" using 1(1) Some lr by simp
    have "lines s = (l # fst (lines r), snd (lines r))" using find_nl_lines [OF 1(2)] Some lr by simp
    then show ?thesis unfolding grep_lines.simps [of pat s] using IH Some lr by (simp add: picked_def)
  qed
qed

lemma lines_append: "lines (s @ t) = (let (ls, r) = lines s; (ls', r') = lines (r @ t) in (ls @ ls', r'))"
  by (induction s) (auto simp: Let_def split: prod.splits list.splits)

lemma lines_len: "length s = length (concat (fst (lines s))) + length (fst (lines s)) + length (snd (lines s))"
  by (induction s) (auto simp: Let_def split: prod.splits list.splits)

lemma lines_none: "fst (lines s) = [] \<longleftrightarrow> CHR 0x0A \<notin> set s"
  by (induction s) (auto simp: Let_def split: prod.splits list.splits)

lemma lines_snd_set: "CHR 0x0A \<notin> set (snd (lines s)) \<and> set (snd (lines s)) \<subseteq> set s"
  by (induction s) (auto simp: Let_def split: prod.splits list.splits)

lemma grep_loop_eq:
  assumes "\<forall>c\<in>set chunks. CHR 0x0A \<in> set c \<and> CHR 0x00 \<notin> set c" and "CHR 0x00 \<notin> set b"
  shows "grep_loop pat b chunks = picked pat (fst (lines (b @ concat chunks))) \<or> chunks = []"
  using assms
proof (induction chunks arbitrary: b)
  case (Cons c cs)
  let ?s = "b @ c"
  have n: "CHR 0x00 \<notin> set ?s" "fst (lines ?s) \<noteq> []" using Cons.prems by (auto simp: lines_none)
  have "length (snd (lines ?s)) \<noteq> length ?s" using lines_len [of ?s] n(2) by auto
  then have g: "grep_loop pat b (c # cs) = picked pat (fst (lines ?s)) @ grep_loop pat (snd (lines ?s)) cs"
    using grep_lines_eq [OF n(1), of pat] by (simp add: Let_def del: grep_lines.simps)
  have "CHR 0x00 \<notin> set (snd (lines ?s))" using n(1) lines_snd_set [of ?s] by auto
  with Cons have IH: "grep_loop pat (snd (lines ?s)) cs = picked pat (fst (lines (snd (lines ?s) @ concat cs))) \<or> cs = []"
    by simp
  have e: "fst (lines (?s @ concat cs)) = fst (lines ?s) @ fst (lines (snd (lines ?s) @ concat cs))"
    unfolding lines_append [of ?s] by (simp add: Let_def split: prod.splits)
  have "fst (lines (snd (lines ?s))) = []" using lines_snd_set [of ?s] by (simp add: lines_none)
  then show ?case using g IH e by (auto simp: picked_def)
qed simp




section \<open>Counting\<close>

definition is_space :: "char \<Rightarrow> bool" where
  "is_space c \<longleftrightarrow> c \<in> {CHR '' '', CHR 0x0D, CHR 0x09, CHR 0x0A, CHR 0x0B}"

definition word_starts :: "string \<Rightarrow> nat set" where
  "word_starts s = {i. i < length s \<and> \<not> is_space (s ! i) \<and> (i = 0 \<or> is_space (s ! (i - 1)))}"

lemma word_starts_snoc:
  "word_starts (s @ [x]) = word_starts s \<union> (if \<not> is_space x \<and> (s = [] \<or> is_space (last s)) then {length s} else {})"
proof (rule set_eqI)
  fix i
  show "i \<in> word_starts (s @ [x]) \<longleftrightarrow> i \<in> word_starts s \<union> (if \<not> is_space x \<and> (s = [] \<or> is_space (last s)) then {length s} else {})"
    by (cases "s = []"; cases "i < length s"; cases "i = length s") (auto simp: word_starts_def nth_append last_conv_nth)
qed

lemma word_starts_card: "card (word_starts (s @ [x])) = card (word_starts s) + (if \<not> is_space x \<and> (s = [] \<or> is_space (last s)) then 1 else 0)"
proof -
  have "finite (word_starts s)" "length s \<notin> word_starts s" by (auto simp: word_starts_def)
  then show ?thesis by (auto simp: word_starts_snoc)
qed

lemma wc_fold: "fold wc_char s \<lparr>wl = 0, ww = 0, wc = 0, winword = False\<rparr> =
    \<lparr>wl = count_list s (CHR 0x0A), ww = card (word_starts s), wc = length s, winword = (s \<noteq> [] \<and> \<not> is_space (last s))\<rparr>"
proof (induction s rule: rev_induct)
  case Nil
  then show ?case by (simp add: word_starts_def)
next
  case (snoc x s)
  show ?case
    by (simp add: snoc word_starts_card) (auto simp: wc_char_def Let_def is_space_def count_list_append)
qed

lemma wc_loop_concat: "wc_loop chunks s = fold wc_char (concat chunks) s"
  by (induction chunks arbitrary: s) auto


end
