(* ===== verification/Spec2Isabelle.thy ===== *)
theory Spec2Isabelle
  imports Mutex Paging Dirs Trap Sh Utils
begin

text \<open>
  A verification of the xv6 teaching kernel, the stock tree \<^verbatim>\<open>src/code/xv6-public\<close>, with its shell and two of its user
  programs. All file names below are of that directory.

  \<^bold>\<open>The model.\<close> C functions are functions from the machine state to an outcome (theory \<open>Prelude\<close>): \<open>Ret\<close>, \<open>Panic\<close> for a call of
  \<^verbatim>\<open>panic\<close>, \<open>Wait\<close> where the thread spins, sleeps or gives up the processor, and \<open>Fault\<close> for an access that C leaves undefined and
  for fuel that has run out. \<open>wp\<close> is the total weakest precondition: the code returns and its result is right.
  The state is a chain of records, each theory adding the fields of its component to those it builds on: processors,
  locks and process table (\<open>Spinlock\<close>), console (\<open>Console\<close>), memory and page-table registers (\<open>Kalloc\<close>), disk and buffers
  (\<open>Ide\<close>, \<open>Bio\<close>), log (\<open>Log\<close>), inode cache (\<open>Inode\<close>), devices (\<open>Fs\<close>), pipes and open files (\<open>Pipe\<close>), interrupt table
  (\<open>Trap\<close>). Machine integers are words of their width, memory and disk blocks are bytes, structures in memory are read
  little-endian. A function that sleeps in a loop ends in \<open>Wait\<close> and is started again at the loop when it is woken.

  \<^bold>\<open>Locks.\<close> \<open>Spinlock\<close> has \<^verbatim>\<open>spinlock.c\<close>, \<open>mycpu\<close> and \<open>myproc\<close>, and the lemmas every critical section uses; \<open>Mutex\<close> puts any number of
  processors side by side as a step relation and proves mutual exclusion by rule induction; \<open>Sleeplock\<close> has \<^verbatim>\<open>sleeplock.c\<close> with \<open>sched\<close>, \<open>sleep\<close>
  and \<open>wakeup\<close> of \<^verbatim>\<open>proc.c\<close>.

  \<^bold>\<open>Strings and formats.\<close> \<open>Str\<close> has \<^verbatim>\<open>string.c\<close> and the string part of \<^verbatim>\<open>ulib.c\<close> on a byte memory (overlapping \<open>memmove\<close>, the word path of
  \<open>memset\<close>); \<open>Fmt\<close> has the formatters of \<^verbatim>\<open>console.c\<close> and \<^verbatim>\<open>printf.c\<close> (their agreement, the size of the digit buffer, reading a printed
  number back).

  \<^bold>\<open>Console.\<close> \<open>Ring\<close> is the contract of a ring buffer with free-running counters, interpreted for the console input and for pipes.
  \<open>Console\<close> has \<^verbatim>\<open>console.c\<close>, \<^verbatim>\<open>uart.c\<close> and \<^verbatim>\<open>kbd.c\<close>: the interrupt handler refines a line editor on lists, the cursor stays on the screen, and a
  typed line is what the reader gets.

  \<^bold>\<open>Memory.\<close> \<open>Kalloc\<close> has \<^verbatim>\<open>kalloc.c\<close>, the free list threaded through the free pages; \<open>Pages\<close> proves the laws of that memory, that no page is lost
  or handed out twice (locale \<open>page_pool\<close>, interpreted for \<open>kalloc\<close> and \<open>kfree\<close>), and that the boot calls free exactly the whole pages of their
  ranges. \<open>Vm\<close> has \<^verbatim>\<open>vm.c\<close> over the same bytes the processor walks; \<open>Paging\<close> relates it to \<open>translate\<close>, the processor's walk: \<open>walkpgdir\<close> changes no
  translation, and \<open>mappages\<close> adds exactly those it is asked for and writes nothing outside the page table.

  \<^bold>\<open>Disk and log.\<close> \<open>Ide\<close> has \<^verbatim>\<open>ide.c\<close> and the drive, \<open>Bio\<close> has \<^verbatim>\<open>bio.c\<close> (caching is transparent, replacement is least recently used), \<open>Packed\<close> the
  arrays of records in a block, \<open>Log\<close> has \<^verbatim>\<open>log.c\<close>: a commit is atomic under a power failure after any of its disk writes, also when recovery itself
  is interrupted.

  \<^bold>\<open>Files.\<close> \<open>Inode\<close> has the block and inode layer of \<^verbatim>\<open>fs.c\<close>, \<open>Fs\<close> the files, directories and paths, \<open>Dirs\<close> proves that inode blocks are
  arrays of inodes, that the inode cache has one entry per inode, that entries of directories are found under their names, and that paths are taken apart at
  their slashes; \<open>Pipe\<close> has \<^verbatim>\<open>pipe.c\<close> (a pipe is a bounded queue
  under every interleaving) and \<^verbatim>\<open>file.c\<close>.

  \<^bold>\<open>Processes.\<close> \<open>Proc\<close> has \<^verbatim>\<open>proc.c\<close>, \<open>Syscall\<close> has \<^verbatim>\<open>sysproc.c\<close> and the argument fetching of \<^verbatim>\<open>syscall.c\<close>, \<open>Sysfile\<close> has \<^verbatim>\<open>sysfile.c\<close>, \<open>Exec\<close> has \<^verbatim>\<open>exec.c\<close> and
  \<open>Trap\<close> has \<^verbatim>\<open>trap.c\<close> with the dispatch of system calls. These theories define the operations; the scheduler takes what a process does between two
  switches as a parameter.

  \<^bold>\<open>User programs.\<close> \<open>Sh\<close> has \<^verbatim>\<open>sh.c\<close>: the parser returns on every line, the strings it makes are the words of the line, and running a command starts
  exactly the programs it denotes with the descriptors they should have. \<open>Utils\<close> has the matcher and the loop of \<^verbatim>\<open>grep.c\<close> and the counters of \<^verbatim>\<open>wc.c\<close>.

  \<^bold>\<open>Fuel.\<close> Loops over addresses carry the number of pages of the address space (\<open>2 ^ 20\<close>) plus one, which no run without a wrap-around exceeds;
  \<open>kinit_frees_memory\<close> shows it for \<open>freerange\<close>. The console loops carry the number of waiting bytes plus one. The parser carries four units per
  character, and \<open>parsecmd_returns\<close> shows that they suffice.

  \<^bold>\<open>Not modelled.\<close> The boot loader, kernel entry, \<^verbatim>\<open>swtch.S\<close> and the trap entry are assembly; \<^verbatim>\<open>lapic.c\<close>, \<^verbatim>\<open>ioapic.c\<close>, \<^verbatim>\<open>picirq.c\<close> and \<^verbatim>\<open>mp.c\<close> program device
  registers and scan firmware tables, so the processors and their APIC ids are fields of the state; \<^verbatim>\<open>main.c\<close> is a sequence of calls of the
  modelled initialisers; \<^verbatim>\<open>umalloc.c\<close>, \<^verbatim>\<open>mkfs.c\<close>, \<^verbatim>\<open>memide.c\<close>, the remaining user programs and the tests are left out; so are the course
  exercises outside \<^verbatim>\<open>xv6-public\<close>, patched copies of the same kernel. The words on a kernel stack below the trap frame, and the timing of
  devices, are not part of the state.
\<close>

end
